(* ===== verification/UCP_Prelude.thy ===== *)
theory UCP_Prelude
  imports Main "HOL-Library.Word" "HOL-Library.Monad_Syntax"
begin

text \<open>
  Shared ground of the development: the machine types, the memory that the C code
  allocates list elements from, byte buffers with bounds-checked access, and the
  little-endian and big-endian byte layouts of \<open>ucp_packet.c\<close>.

  Faults are values. Every access the C code makes through a pointer or an index yields
  an \<open>option\<close>: \<open>None\<close> is an access outside of a live object (undefined behaviour in C),
  \<open>Some\<close> the value read or the new state.
\<close>

unbundle bit_operations_syntax

type_synonym u8 = "8 word"
type_synonym u16 = "16 word"
type_synonym u32 = "32 word"
type_synonym u64 = "64 word"
type_synonym addr = nat

abbreviation (input) NULL :: addr where "NULL \<equiv> 0"

named_theorems heap_simps \<open>effect of the primitive heap accesses\<close>
named_theorems buf_simps \<open>effect of the primitive buffer accesses\<close>

subsection \<open>Constants of defines.h\<close>

definition CLIENT_BASE_PORT :: nat where "CLIENT_BASE_PORT = 6341"
definition SERVER_BASE_PORT :: nat where "SERVER_BASE_PORT = 6342"
definition UDP_PACKET_DATA_SIZE :: nat where "UDP_PACKET_DATA_SIZE = 9 * 1024 - 50"
definition UDP_PACKET_OVERHEAD_MARGIN :: nat where "UDP_PACKET_OVERHEAD_MARGIN = 50"
definition UDP_PACKET_SIZE :: nat where
  "UDP_PACKET_SIZE = UDP_PACKET_DATA_SIZE + UDP_PACKET_OVERHEAD_MARGIN"
definition NUM_THREADS :: nat where "NUM_THREADS = 10"

lemma UDP_PACKET_DATA_SIZE_val: "UDP_PACKET_DATA_SIZE = 9166"
  by (simp add: UDP_PACKET_DATA_SIZE_def)

lemma UDP_PACKET_SIZE_val: "UDP_PACKET_SIZE = 9216"
  by (simp add: UDP_PACKET_SIZE_def UDP_PACKET_DATA_SIZE_def UDP_PACKET_OVERHEAD_MARGIN_def)

subsection \<open>List elements in memory\<close>

text \<open>
  A \<open>LinkedListElem\<close> is a node at an address. Addresses handed out by \<open>malloc\<close> come
  from \<open>brk\<close> and are never reused; \<open>avail\<close> counts the allocations that will still
  succeed, so that a failing \<open>malloc\<close> is a behaviour of the model.
\<close>

record ll_elem =
  obj :: addr
  nxt :: addr
  prv :: addr

record mem =
  elems :: "addr \<rightharpoonup> ll_elem"
  members :: "addr \<Rightarrow> u32"
  brk :: addr
  avail :: nat

definition malloc :: "'a mem_scheme \<Rightarrow> addr \<times> 'a mem_scheme" where
  "malloc s = (if avail s = 0 then (NULL, s)
     else (brk s, s\<lparr>brk := Suc (brk s), avail := avail s - 1\<rparr>))"

definition set_obj :: "addr \<Rightarrow> addr \<Rightarrow> 'a mem_scheme \<Rightarrow> 'a mem_scheme option" where
  "set_obj p v s = (case elems s p of None \<Rightarrow> None
     | Some e \<Rightarrow> Some (s\<lparr>elems := (elems s)(p \<mapsto> e\<lparr>obj := v\<rparr>)\<rparr>))"

definition set_nxt :: "addr \<Rightarrow> addr \<Rightarrow> 'a mem_scheme \<Rightarrow> 'a mem_scheme option" where
  "set_nxt p v s = (case elems s p of None \<Rightarrow> None
     | Some e \<Rightarrow> Some (s\<lparr>elems := (elems s)(p \<mapsto> e\<lparr>nxt := v\<rparr>)\<rparr>))"

definition set_prv :: "addr \<Rightarrow> addr \<Rightarrow> 'a mem_scheme \<Rightarrow> 'a mem_scheme option" where
  "set_prv p v s = (case elems s p of None \<Rightarrow> None
     | Some e \<Rightarrow> Some (s\<lparr>elems := (elems s)(p \<mapsto> e\<lparr>prv := v\<rparr>)\<rparr>))"

text \<open>
  \<open>malloc(sizeof(LinkedListElem))\<close>: the fields of a new element are indeterminate in C; every
  caller writes all three before reading one, so the model starts them at 0.
\<close>

definition malloc_elem :: "'a mem_scheme \<Rightarrow> addr \<times> 'a mem_scheme" where
  "malloc_elem s = (case malloc s of (p, s') \<Rightarrow>
     (p, if p = NULL then s' else
        s'\<lparr>elems := (elems s')(p \<mapsto> \<lparr>obj = 0, nxt = 0, prv = 0\<rparr>)\<rparr>))"

definition free_elem :: "addr \<Rightarrow> 'a mem_scheme \<Rightarrow> 'a mem_scheme option" where
  "free_elem p s = (if elems s p = None then None
     else Some (s\<lparr>elems := (elems s)(p := None)\<rparr>))"

definition wf_mem :: "'a mem_scheme \<Rightarrow> bool" where
  "wf_mem s \<longleftrightarrow> 0 < brk s \<and> dom (elems s) \<subseteq> {0<..<brk s}"

lemma set_obj_Some [heap_simps]: "elems s p = Some e \<Longrightarrow>
    set_obj p v s = Some (s\<lparr>elems := (elems s)(p \<mapsto> e\<lparr>obj := v\<rparr>)\<rparr>)"
  by (simp add: set_obj_def)

lemma set_nxt_Some [heap_simps]: "elems s p = Some e \<Longrightarrow>
    set_nxt p v s = Some (s\<lparr>elems := (elems s)(p \<mapsto> e\<lparr>nxt := v\<rparr>)\<rparr>)"
  by (simp add: set_nxt_def)

lemma set_prv_Some [heap_simps]: "elems s p = Some e \<Longrightarrow>
    set_prv p v s = Some (s\<lparr>elems := (elems s)(p \<mapsto> e\<lparr>prv := v\<rparr>)\<rparr>)"
  by (simp add: set_prv_def)

lemma wf_mem_fresh: "wf_mem s \<Longrightarrow> elems s (brk s) = None"
  by (auto simp: wf_mem_def)

lemma wf_mem_NULL: "wf_mem s \<Longrightarrow> elems s NULL = None"
  by (auto simp: wf_mem_def)

subsection \<open>Byte buffers\<close>

definition get_byte :: "u8 list \<Rightarrow> nat \<Rightarrow> u8 option" where
  "get_byte b i = (if i < length b then Some (b ! i) else None)"

definition get_bytes :: "u8 list \<Rightarrow> nat \<Rightarrow> nat \<Rightarrow> u8 list option" where
  "get_bytes b i n = (if i + n \<le> length b then Some (take n (drop i b)) else None)"

definition put_bytes :: "u8 list \<Rightarrow> nat \<Rightarrow> u8 list \<Rightarrow> u8 list option" where
  "put_bytes b i xs = (if i + length xs \<le> length b
     then Some (take i b @ xs @ drop (i + length xs) b) else None)"

lemma length_put_bytes: "put_bytes b i xs = Some b' \<Longrightarrow> length b' = length b"
  by (auto simp: put_bytes_def split: if_splits)

lemma get_bytes_put_bytes: "put_bytes b i xs = Some b' \<Longrightarrow> n = length xs \<Longrightarrow>
    get_bytes b' i n = Some xs"
  by (auto simp: put_bytes_def get_bytes_def split: if_splits)

lemma put_bytes_total [buf_simps]: "i + length xs \<le> length b \<Longrightarrow>
    put_bytes b i xs = Some (take i b @ xs @ drop (i + length xs) b)"
  by (simp add: put_bytes_def)

subsection \<open>Byte layouts of 32-bit and 16-bit fields\<close>

definition byte_of :: "nat \<Rightarrow> 'a::len word \<Rightarrow> u8" where
  "byte_of k w = ucast (drop_bit (8 * k) w AND 0xFF)"

definition word_of_bytes :: "u8 \<Rightarrow> u8 \<Rightarrow> u8 \<Rightarrow> u8 \<Rightarrow> u32" where
  "word_of_bytes b3 b2 b1 b0 =
     push_bit 24 (ucast b3) OR push_bit 16 (ucast b2) OR push_bit 8 (ucast b1) OR ucast b0"

lemma bit_0xFF: "bit (0xFF :: 'a::len word) i \<longleftrightarrow> i < 8 \<and> i < LENGTH('a)"
proof -
  have "(0xFF :: 'a word) = mask 8" by (simp add: mask_eq_exp_minus_1)
  then show ?thesis by (simp only: bit_mask_iff) auto
qed

lemma bit_byte_of [bit_simps]: "bit (byte_of k w) i \<longleftrightarrow> i < 8 \<and> bit (w :: 'a::len word) (8 * k + i)"
  unfolding byte_of_def unsigned_and_eq bit_and_iff bit_ucast_iff bit_drop_bit_eq bit_0xFF comp_def
  by (auto dest: bit_imp_le_length)

lemma word_of_bytes_byte_of:
  "word_of_bytes (byte_of 3 w) (byte_of 2 w) (byte_of 1 w) (byte_of 0 w) = w"
proof (rule bit_word_eqI)
  fix n assume "n < LENGTH(32)"
  then have n: "n < 8 \<or> (8 \<le> n \<and> n < 16) \<or> (16 \<le> n \<and> n < 24) \<or> (24 \<le> n \<and> n < 32)" by auto
  show "bit (word_of_bytes (byte_of 3 w) (byte_of 2 w) (byte_of 1 w) (byte_of 0 w)) n = bit w n"
    using n by (auto simp: word_of_bytes_def bit_simps)
qed

lemma word_of_bytes_big_endian:
  "push_bit 24 (ucast (byte_of 3 w)) OR push_bit 16 (ucast (byte_of 2 w))
    OR push_bit 8 (ucast (byte_of 1 w)) OR ucast (byte_of 0 w) = (w :: u32)"
  using word_of_bytes_byte_of [of w] by (simp add: word_of_bytes_def)

lemma bit_below: "unat (w :: 'a::len word) < 2 ^ k \<Longrightarrow> bit w n \<Longrightarrow> n < k"
proof -
  assume "unat w < 2 ^ k" "bit w n"
  then have "take_bit k (unat w) = unat w" "bit (unat w) n"
    by (simp_all add: take_bit_nat_eq_self bit_unsigned_iff)
  then show "n < k" by (metis bit_take_bit_iff)
qed

lemma ucast_byte_of_0: "unat w < 256 \<Longrightarrow> ucast (byte_of 0 (w :: u32)) = w"
  using bit_below [of w 8] by (auto intro!: bit_word_eqI simp: bit_simps)

lemma two_bytes_byte_of: "unat w < 65536 \<Longrightarrow>
    push_bit 8 (ucast (byte_of 1 (w :: u64))) OR ucast (byte_of 0 w) = w"
proof (rule bit_word_eqI)
  fix n assume "unat w < 65536" "n < LENGTH(64)"
  then have "bit w n \<Longrightarrow> n < 16" using bit_below [of w 16] by simp
  then show "bit (push_bit 8 (ucast (byte_of 1 w)) OR ucast (byte_of 0 w) :: u64) n = bit w n"
    by (cases "n < 8") (auto simp: bit_simps)
qed

lemma two_bytes_bound: "unat (push_bit 8 (ucast (a :: u8)) OR ucast (b :: u8) :: u64) < 65536"
proof -
  define w :: u64 where "w = push_bit 8 (ucast a) OR ucast b"
  have "bit w n \<Longrightarrow> n < 16" for n
    unfolding w_def bit_or_iff bit_push_bit_iff bit_ucast_iff by (auto dest: bit_imp_le_length)
  then have "take_bit 16 w = w" by (intro bit_word_eqI) (auto simp: bit_take_bit_iff)
  then have "unat w = unat (take_bit 16 w)" by (rule arg_cong [OF sym])
  also have "\<dots> = take_bit 16 (unat w)" by (rule unsigned_take_bit_eq)
  also have "\<dots> < 2 ^ 16" by (rule take_bit_nat_less_exp)
  finally show ?thesis by (simp add: w_def)
qed

lemma unat_two_bytes: "unat (push_bit 8 (ucast (a :: u8)) OR ucast (b :: u8) :: u64) = 256 * unat a + unat b"
proof -
  let ?x = "push_bit 8 (ucast a) :: u64" and ?y = "ucast b :: u64"
  have ab: "unat a < 256" "unat b < 256"
    by (rule order_less_le_trans [OF unsigned_less], simp)+
  have "\<not> bit ?x n \<or> \<not> bit ?y n" for n
    unfolding bit_push_bit_iff bit_ucast_iff by (auto dest: bit_imp_le_length)
  then have "?x OR ?y = ?x + ?y" by (rule disjunctive_add [symmetric])
  moreover have x: "unat ?x = 256 * unat a"
    using ab(1)
    by (simp add: push_bit_eq_mult unat_word_ariths unsigned_ucast_eq take_bit_nat_eq_self)
  moreover have y: "unat ?y = unat b"
    using ab(2) by (simp add: unsigned_ucast_eq take_bit_nat_eq_self)
  moreover have "unat (?x + ?y) = unat ?x + unat ?y"
    using ab x y
    by (subst unat_add_lem [THEN iffD1]) simp_all
  ultimately show ?thesis by simp
qed

lemma unat_ucast_u8: "unat (ucast (x :: u8) :: u32) = unat x"
proof -
  have "unat x < 256" by (rule order_less_le_trans [OF unsigned_less]) simp
  then show ?thesis by (simp add: unsigned_ucast_eq take_bit_nat_eq_self)
qed

end
