(* ===== verification/Linked_List.thy ===== *)
theory Linked_List
  imports UCP_Prelude
begin

text \<open>
  \<open>linked_list.c\<close>: a circular doubly linked list with a sentinel (\<open>anchor\<close>) inside the
  \<open>LinkedList\<close> struct. A list is named by the address of its anchor; the anchor is an element
  of \<open>elems\<close> and \<open>members\<close> holds \<open>num_members\<close>. Every operation is the code's sequence of loads
  and stores; \<open>None\<close> is a load or store through an address that is not a live element.

  The representation predicate \<open>dll s L ps\<close> says that the ring anchored at \<open>L\<close> holds the
  elements and objects \<open>ps\<close>, in order. Each operation is shown to compute the list function
  of its documentation, to keep the predicate, and to leave everything outside of the ring
  alone.
\<close>

subsection \<open>The operations\<close>

definition LinkedListLength :: "'a mem_scheme \<Rightarrow> addr \<Rightarrow> u32 option" where
  "LinkedListLength s L = (case elems s L of None \<Rightarrow> None | Some _ \<Rightarrow> Some (members s L))"

definition LinkedListEmpty :: "'a mem_scheme \<Rightarrow> addr \<Rightarrow> bool option" where
  "LinkedListEmpty s L = do {
     a \<leftarrow> elems s L;
     Some (nxt a = L \<and> prv a = L)
   }"

definition LinkedListAppend :: "'a mem_scheme \<Rightarrow> addr \<Rightarrow> addr \<Rightarrow> (bool \<times> 'a mem_scheme) option" where
  "LinkedListAppend s L ob =
     (if L = NULL then Some (False, s)
      else case malloc_elem s of (new, s) \<Rightarrow> do {
        s \<leftarrow> set_obj new ob s;
        empty \<leftarrow> LinkedListEmpty s L;
        s \<leftarrow> (if empty then do {
               s \<leftarrow> set_nxt L new s;
               s \<leftarrow> set_prv L new s;
               s \<leftarrow> set_nxt new L s;
               set_prv new L s
             } else do {
               s \<leftarrow> set_nxt new L s;
               a \<leftarrow> elems s L;
               s \<leftarrow> set_prv new (prv a) s;
               a \<leftarrow> elems s L;
               s \<leftarrow> set_nxt (prv a) new s;
               set_prv L new s
             });
        Some (True, s\<lparr>members := (members s)(L := members s L + 1)\<rparr>)
      })"

definition LinkedListPrepend :: "'a mem_scheme \<Rightarrow> addr \<Rightarrow> addr \<Rightarrow> (bool \<times> 'a mem_scheme) option" where
  "LinkedListPrepend s L ob =
     (if L = NULL then Some (False, s)
      else case malloc_elem s of (new, s) \<Rightarrow> do {
        s \<leftarrow> set_obj new ob s;
        empty \<leftarrow> LinkedListEmpty s L;
        s \<leftarrow> (if empty then do {
               s \<leftarrow> set_nxt L new s;
               s \<leftarrow> set_prv L new s;
               s \<leftarrow> set_nxt new L s;
               set_prv new L s
             } else do {
               a \<leftarrow> elems s L;
               s \<leftarrow> set_nxt new (nxt a) s;
               s \<leftarrow> set_prv new L s;
               a \<leftarrow> elems s L;
               s \<leftarrow> set_prv (nxt a) new s;
               set_nxt L new s
             });
        Some (True, s\<lparr>members := (members s)(L := members s L + 1)\<rparr>)
      })"

definition LinkedListUnlink :: "'a mem_scheme \<Rightarrow> addr \<Rightarrow> addr \<Rightarrow> 'a mem_scheme option" where
  "LinkedListUnlink s L elem = do {
     empty \<leftarrow> LinkedListEmpty s L;
     if empty then Some s
     else do {
       e \<leftarrow> elems s elem;
       s \<leftarrow> set_nxt (prv e) (nxt e) s;
       e \<leftarrow> elems s elem;
       s \<leftarrow> set_prv (nxt e) (prv e) s;
       free_elem elem (s\<lparr>members := (members s)(L := members s L - 1)\<rparr>)
     }
   }"

definition LinkedListFirst :: "'a mem_scheme \<Rightarrow> addr \<Rightarrow> addr option" where
  "LinkedListFirst s L = do {
     empty \<leftarrow> LinkedListEmpty s L;
     if empty then Some NULL else do { a \<leftarrow> elems s L; Some (nxt a) }
   }"

definition LinkedListLast :: "'a mem_scheme \<Rightarrow> addr \<Rightarrow> addr option" where
  "LinkedListLast s L = do {
     empty \<leftarrow> LinkedListEmpty s L;
     if empty then Some NULL else do { a \<leftarrow> elems s L; Some (prv a) }
   }"

definition LinkedListNext :: "'a mem_scheme \<Rightarrow> addr \<Rightarrow> addr \<Rightarrow> addr option" where
  "LinkedListNext s L elem = do {
     e \<leftarrow> elems s elem;
     Some (if nxt e = L then NULL else nxt e)
   }"

definition LinkedListPrev :: "'a mem_scheme \<Rightarrow> addr \<Rightarrow> addr \<Rightarrow> addr option" where
  "LinkedListPrev s L elem = do {
     e \<leftarrow> elems s elem;
     Some (if prv e = L then NULL else prv e)
   }"

definition LinkedListInsertAfter ::
    "'a mem_scheme \<Rightarrow> addr \<Rightarrow> addr \<Rightarrow> addr \<Rightarrow> (bool \<times> 'a mem_scheme) option" where
  "LinkedListInsertAfter s L ob elem =
     (if elem = NULL then LinkedListAppend s L ob
      else case malloc_elem s of (new, s) \<Rightarrow>
        if new = NULL then Some (False, s)
        else do {
          s \<leftarrow> set_obj new ob s;
          e \<leftarrow> elems s elem;
          s \<leftarrow> set_nxt new (nxt e) s;
          s \<leftarrow> set_prv new elem s;
          e \<leftarrow> elems s elem;
          s \<leftarrow> set_prv (nxt e) new s;
          s \<leftarrow> set_nxt elem new s;
          Some (True, s\<lparr>members := (members s)(L := members s L + 1)\<rparr>)
        })"

definition LinkedListInsertBefore ::
    "'a mem_scheme \<Rightarrow> addr \<Rightarrow> addr \<Rightarrow> addr \<Rightarrow> (bool \<times> 'a mem_scheme) option" where
  "LinkedListInsertBefore s L ob elem =
     (if elem = NULL then LinkedListPrepend s L ob
      else case malloc_elem s of (new, s) \<Rightarrow>
        if new = NULL then Some (False, s)
        else do {
          s \<leftarrow> set_obj new ob s;
          s \<leftarrow> set_nxt new elem s;
          e \<leftarrow> elems s elem;
          s \<leftarrow> set_prv new (prv e) s;
          e \<leftarrow> elems s elem;
          s \<leftarrow> set_nxt (prv e) new s;
          s \<leftarrow> set_prv elem new s;
          Some (True, s\<lparr>members := (members s)(L := members s L + 1)\<rparr>)
        })"

text \<open>The loops of the file; a loop that never ends is \<open>None\<close>.\<close>

partial_function (option) UnlinkAll_loop :: "'a mem_scheme \<Rightarrow> addr \<Rightarrow> addr \<Rightarrow> 'a mem_scheme option" where
  "UnlinkAll_loop s L elem =
     (if elem = NULL then Some s
      else do {
        next_elem \<leftarrow> LinkedListNext s L elem;
        s \<leftarrow> LinkedListUnlink s L elem;
        UnlinkAll_loop s L next_elem
      })"

definition LinkedListUnlinkAll :: "'a mem_scheme \<Rightarrow> addr \<Rightarrow> 'a mem_scheme option" where
  "LinkedListUnlinkAll s L = do {
     elem \<leftarrow> LinkedListFirst s L;
     UnlinkAll_loop s L elem
   }"

partial_function (option) Find_loop :: "'a mem_scheme \<Rightarrow> addr \<Rightarrow> addr \<Rightarrow> addr \<Rightarrow> addr option" where
  "Find_loop s L ob elem =
     (if elem = NULL then Some NULL
      else do {
        e \<leftarrow> elems s elem;
        if obj e = ob then Some elem
        else do {
          n \<leftarrow> LinkedListNext s L elem;
          Find_loop s L ob n
        }
      })"

definition LinkedListFind :: "'a mem_scheme \<Rightarrow> addr \<Rightarrow> addr \<Rightarrow> addr option" where
  "LinkedListFind s L ob = do {
     empty \<leftarrow> LinkedListEmpty s L;
     if empty then Some NULL
     else do {
       elem \<leftarrow> LinkedListFirst s L;
       Find_loop s L ob elem
     }
   }"

definition LinkedListInit :: "'a mem_scheme \<Rightarrow> addr \<Rightarrow> (bool \<times> 'a mem_scheme) option" where
  "LinkedListInit s L = do {
     s \<leftarrow> set_obj L NULL s;
     s \<leftarrow> set_prv L L s;
     s \<leftarrow> set_nxt L L s;
     Some (True, s)
   }"

subsection \<open>Rings\<close>

definition nxts :: "(addr \<rightharpoonup> ll_elem) \<Rightarrow> addr \<rightharpoonup> addr" where
  "nxts h = (\<lambda>p. map_option nxt (h p))"

definition prvs :: "(addr \<rightharpoonup> ll_elem) \<Rightarrow> addr \<rightharpoonup> addr" where
  "prvs h = (\<lambda>p. map_option prv (h p))"

definition objs :: "(addr \<rightharpoonup> ll_elem) \<Rightarrow> addr \<rightharpoonup> addr" where
  "objs h = (\<lambda>p. map_option obj (h p))"

lemma nxts_upd [simp]: "nxts (h(p \<mapsto> e)) = (nxts h)(p \<mapsto> nxt e)" "nxts (h(p := None)) = (nxts h)(p := None)"
  by (auto simp: nxts_def)

lemma prvs_upd [simp]: "prvs (h(p \<mapsto> e)) = (prvs h)(p \<mapsto> prv e)" "prvs (h(p := None)) = (prvs h)(p := None)"
  by (auto simp: prvs_def)

lemma objs_upd [simp]: "objs (h(p \<mapsto> e)) = (objs h)(p \<mapsto> obj e)" "objs (h(p := None)) = (objs h)(p := None)"
  by (auto simp: objs_def)

lemma elem_views: "h p = Some e \<Longrightarrow> nxts h p = Some (nxt e) \<and> prvs h p = Some (prv e) \<and> objs h p = Some (obj e)"
  by (simp add: nxts_def prvs_def objs_def)

fun seg :: "(addr \<rightharpoonup> addr) \<Rightarrow> (addr \<rightharpoonup> addr) \<Rightarrow> addr \<Rightarrow> addr list \<Rightarrow> addr \<Rightarrow> bool" where
  "seg N P u [] v \<longleftrightarrow> N u = Some v \<and> P v = Some u"
| "seg N P u (x # xs) v \<longleftrightarrow> N u = Some x \<and> P x = Some u \<and> seg N P x xs v"

lemma seg_append: "seg N P u (xs @ y # ys) v \<longleftrightarrow> seg N P u xs y \<and> seg N P y ys v"
  by (induction xs arbitrary: u) auto

lemma seg_cong: "(\<And>w. w \<in> set (u # xs) \<Longrightarrow> N' w = N w) \<Longrightarrow> (\<And>w. w \<in> set (xs @ [v]) \<Longrightarrow> P' w = P w) \<Longrightarrow>
    seg N' P' u xs v = seg N P u xs v"
  by (induction xs arbitrary: u) auto

lemma seg_ends: "seg N P u xs v \<Longrightarrow> N u = Some (hd (xs @ [v])) \<and> P v = Some (last (u # xs))"
  by (induction xs arbitrary: u) auto

lemma seg_at: "seg N P u (xs @ y # ys) v \<Longrightarrow>
    N y = Some (hd (ys @ [v])) \<and> P y = Some (last (u # xs))
    \<and> N (last (u # xs)) = Some y \<and> P (hd (ys @ [v])) = Some y"
proof -
  assume "seg N P u (xs @ y # ys) v"
  then have l: "seg N P u xs y" and r: "seg N P y ys v" by (simp_all add: seg_append)
  have "N (last (u # xs)) = Some y" using l by (induction xs arbitrary: u) auto
  moreover have "P (hd (ys @ [v])) = Some y" using r by (cases ys) auto
  ultimately show ?thesis using seg_ends [OF l] seg_ends [OF r] by simp
qed

lemma seg_insert:
  assumes "seg N P u (xs @ ys) v" "distinct (u # xs @ ys)" "v \<notin> set (xs @ ys)"
    "n \<notin> set (u # v # xs @ ys)" "p = last (u # xs)" "q = hd (ys @ [v])"
    and N': "N' n = Some q" "N' p = Some n" "\<And>w. w \<noteq> n \<Longrightarrow> w \<noteq> p \<Longrightarrow> N' w = N w"
    and P': "P' n = Some p" "P' q = Some n" "\<And>w. w \<noteq> n \<Longrightarrow> w \<noteq> q \<Longrightarrow> P' w = P w"
  shows "seg N' P' u (xs @ n # ys) v"
  using assms(1-6)
proof (induction xs arbitrary: u)
  case Nil
  show ?case
  proof (cases ys)
    case Nil
    with Nil.prems N' P' show ?thesis by auto
  next
    case (Cons z zs)
    have "seg N' P' z zs v"
    proof (subst seg_cong [where N = N and P = P])
      fix w assume "w \<in> set (z # zs)"
      then have "w \<noteq> n" "w \<noteq> p" using Nil.prems Cons by auto
      then show "N' w = N w" by (rule N'(3))
    next
      fix w assume "w \<in> set (zs @ [v])"
      then have "w \<noteq> n" "w \<noteq> q" using Nil.prems Cons by auto
      then show "P' w = P w" by (rule P'(3))
    qed (use Nil.prems Cons in auto)
    with Nil.prems Cons N' P' show ?thesis by auto
  qed
next
  case (Cons x xs)
  from Cons.prems have q: "q \<in> insert v (set ys)" by (cases ys) auto
  from Cons.prems have p: "p \<in> set (x # xs)" using last_in_set [of "x # xs"] by simp
  have "u \<noteq> p" "x \<noteq> q" using Cons.prems p q by auto
  then have "N' u = N u" "P' x = P x"
    using Cons.prems N'(3) [of u] P'(3) [of x] by auto
  moreover have "seg N' P' x (xs @ n # ys) v"
    by (rule Cons.IH) (use Cons.prems in auto)
  ultimately show ?case using Cons.prems by simp
qed

lemma seg_remove:
  assumes "seg N P u (xs @ e # ys) v" "distinct (u # xs @ e # ys)" "v \<notin> set (xs @ e # ys)"
    "p = last (u # xs)" "q = hd (ys @ [v])"
    and N': "N' p = Some q" "\<And>w. w \<noteq> e \<Longrightarrow> w \<noteq> p \<Longrightarrow> N' w = N w"
    and P': "P' q = Some p" "\<And>w. w \<noteq> e \<Longrightarrow> w \<noteq> q \<Longrightarrow> P' w = P w"
  shows "seg N' P' u (xs @ ys) v"
  using assms(1-5)
proof (induction xs arbitrary: u)
  case Nil
  show ?case
  proof (cases ys)
    case Nil
    with Nil.prems N' P' show ?thesis by auto
  next
    case (Cons z zs)
    have "seg N' P' z zs v"
    proof (subst seg_cong [where N = N and P = P])
      fix w assume "w \<in> set (z # zs)"
      then have "w \<noteq> e" "w \<noteq> p" using Nil.prems Cons by auto
      then show "N' w = N w" by (rule N'(2))
    next
      fix w assume "w \<in> set (zs @ [v])"
      then have "w \<noteq> e" "w \<noteq> q" using Nil.prems Cons by auto
      then show "P' w = P w" by (rule P'(2))
    qed (use Nil.prems Cons in auto)
    with Nil.prems Cons N' P' show ?thesis by auto
  qed
next
  case (Cons x xs)
  from Cons.prems have q: "q \<in> insert v (set ys)" by (cases ys) auto
  from Cons.prems have p: "p \<in> set (x # xs)" using last_in_set [of "x # xs"] by simp
  have "u \<noteq> p" "x \<noteq> q" using Cons.prems p q by auto
  then have "N' u = N u" "P' x = P x"
    using Cons.prems N'(2) [of u] P'(2) [of x] by auto
  moreover have "seg N' P' x (xs @ ys) v"
    by (rule Cons.IH) (use Cons.prems in auto)
  ultimately show ?case using Cons.prems by simp
qed

subsection \<open>The representation predicate\<close>

text \<open>
  \<open>dll h L ps\<close>: in the heap \<open>h\<close> the ring anchored at \<open>L\<close> runs through the elements
  \<open>map fst ps\<close>, forwards by \<open>next\<close> and backwards by \<open>prev\<close>, and the element \<open>p\<close> of
  each pair \<open>(p, ob)\<close> carries the object \<open>ob\<close>.
\<close>

definition dll :: "(addr \<rightharpoonup> ll_elem) \<Rightarrow> addr \<Rightarrow> (addr \<times> addr) list \<Rightarrow> bool" where
  "dll h L ps \<longleftrightarrow> NULL \<notin> set (L # map fst ps) \<and> distinct (L # map fst ps)
     \<and> seg (nxts h) (prvs h) L (map fst ps) L \<and> list_all (\<lambda>x. objs h (fst x) = Some (snd x)) ps"

lemma carries_cong: "(\<And>p. p \<in> set (map fst ps) \<Longrightarrow> objs h' p = objs h p) \<Longrightarrow>
    list_all (\<lambda>x. objs h' (fst x) = Some (snd x)) ps = list_all (\<lambda>x. objs h (fst x) = Some (snd x)) ps"
  by (induction ps) auto

lemma dll_cong:
  assumes "\<And>p. p \<in> set (L # map fst ps) \<Longrightarrow> h' p = h p"
  shows "dll h' L ps = dll h L ps"
proof -
  have "seg (nxts h') (prvs h') L (map fst ps) L = seg (nxts h) (prvs h) L (map fst ps) L"
    by (rule seg_cong) (use assms in \<open>auto simp: nxts_def prvs_def\<close>)
  moreover have "list_all (\<lambda>x. objs h' (fst x) = Some (snd x)) ps = list_all (\<lambda>x. objs h (fst x) = Some (snd x)) ps"
    by (rule carries_cong) (use assms in \<open>auto simp: objs_def\<close>)
  ultimately show ?thesis by (simp only: dll_def)
qed

lemma dll_not_NULL: "dll h L ps \<Longrightarrow> L \<noteq> NULL"
  by (simp add: dll_def)

lemma dll_elem_not_NULL: "dll h L (ps @ (p, ob) # qs) \<Longrightarrow> p \<noteq> NULL \<and> p \<noteq> L"
  by (auto simp: dll_def)

lemma dll_anchor: "dll h L ps \<Longrightarrow> \<exists>a. h L = Some a \<and> nxt a = hd (map fst ps @ [L])
    \<and> prv a = last (L # map fst ps)"
  by (auto simp: dll_def nxts_def prvs_def dest!: seg_ends)

lemma dll_at: "dll h L (ps @ (p, ob) # qs) \<Longrightarrow>
    (\<exists>e. h p = Some e \<and> obj e = ob \<and> nxt e = hd (map fst qs @ [L]) \<and> prv e = last (L # map fst ps))"
  by (auto simp: dll_def nxts_def prvs_def objs_def dest!: seg_at)

lemma dll_dom: "dll h L ps \<Longrightarrow> p \<in> set (L # map fst ps) \<Longrightarrow> h p \<noteq> None"
  by (auto dest!: split_list dll_at dest: dll_anchor)

lemma dll_hd_neq: "dll h L (q # qs) \<Longrightarrow> hd (map fst (q # qs) @ [L]) \<noteq> L"
  by (auto simp: dll_def)

lemma dll_insert:
  assumes "dll h L (ps @ qs)" "h n = None" "n \<noteq> NULL"
    and "p = last (L # map fst ps)" "q = hd (map fst qs @ [L])"
    and N: "nxts h' n = Some q" "nxts h' p = Some n" "\<And>w. w \<noteq> n \<Longrightarrow> w \<noteq> p \<Longrightarrow> nxts h' w = nxts h w"
    and P: "prvs h' n = Some p" "prvs h' q = Some n" "\<And>w. w \<noteq> n \<Longrightarrow> w \<noteq> q \<Longrightarrow> prvs h' w = prvs h w"
    and O: "objs h' n = Some ob" "\<And>w. w \<noteq> n \<Longrightarrow> objs h' w = objs h w"
  shows "dll h' L (ps @ (n, ob) # qs)"
proof -
  have n: "n \<notin> set (L # map fst (ps @ qs))"
    using dll_dom [OF assms(1)] assms(2) by metis
  have "seg (nxts h') (prvs h') L (map fst ps @ n # map fst qs) L"
    by (rule seg_insert [where N = "nxts h" and P = "prvs h", OF _ _ _ _ assms(4,5) N P])
       (use assms(1) n in \<open>auto simp: dll_def\<close>)
  moreover have "list_all (\<lambda>x. objs h' (fst x) = Some (snd x)) (ps @ qs)
      = list_all (\<lambda>x. objs h (fst x) = Some (snd x)) (ps @ qs)"
    by (rule carries_cong) (metis O(2) n list.set_intros(2))
  ultimately show ?thesis
    using assms(1,3) n O(1) by (simp add: dll_def)
qed

lemma dll_remove:
  assumes "dll h L (ps @ (e, ob) # qs)"
    and "p = last (L # map fst ps)" "q = hd (map fst qs @ [L])"
    and N: "nxts h' p = Some q" "\<And>w. w \<noteq> e \<Longrightarrow> w \<noteq> p \<Longrightarrow> nxts h' w = nxts h w"
    and P: "prvs h' q = Some p" "\<And>w. w \<noteq> e \<Longrightarrow> w \<noteq> q \<Longrightarrow> prvs h' w = prvs h w"
    and O: "\<And>w. w \<noteq> e \<Longrightarrow> objs h' w = objs h w"
  shows "dll h' L (ps @ qs)"
proof -
  have e: "e \<notin> set (L # map fst (ps @ qs))"
    using assms(1) by (auto simp: dll_def)
  have "seg (nxts h') (prvs h') L (map fst ps @ map fst qs) L"
    by (rule seg_remove [where N = "nxts h" and P = "prvs h" and e = e, OF _ _ _ assms(2,3) N P])
       (use assms(1) in \<open>auto simp: dll_def\<close>)
  moreover have "list_all (\<lambda>x. objs h' (fst x) = Some (snd x)) (ps @ qs)
      = list_all (\<lambda>x. objs h (fst x) = Some (snd x)) (ps @ qs)"
    by (rule carries_cong) (metis O e list.set_intros(2))
  ultimately show ?thesis
    using assms(1) by (simp add: dll_def)
qed

subsection \<open>Queries\<close>

lemma Empty_dll [heap_simps]: "dll (elems s) L ps \<Longrightarrow> LinkedListEmpty s L = Some (ps = [])"
  by (frule dll_anchor) (cases ps; auto simp: LinkedListEmpty_def dll_def)

lemma First_dll [heap_simps]: "dll (elems s) L ps \<Longrightarrow>
    LinkedListFirst s L = Some (case ps of [] \<Rightarrow> NULL | (p, _) # _ \<Rightarrow> p)"
  by (frule dll_anchor) (auto simp: LinkedListFirst_def Empty_dll split: list.splits)

lemma Last_dll [heap_simps]: "dll (elems s) L ps \<Longrightarrow>
    LinkedListLast s L = Some (if ps = [] then NULL else fst (last ps))"
  by (frule dll_anchor) (auto simp: LinkedListLast_def Empty_dll last_map)

lemma Next_dll [heap_simps]: "dll (elems s) L (ps @ (p, ob) # qs) \<Longrightarrow>
    LinkedListNext s L p = Some (case qs of [] \<Rightarrow> NULL | (q, _) # _ \<Rightarrow> q)"
  by (frule dll_at) (auto simp: LinkedListNext_def dll_def split: list.splits)

lemma Prev_dll [heap_simps]: "dll (elems s) L (ps @ (p, ob) # qs) \<Longrightarrow>
    LinkedListPrev s L p = Some (if ps = [] then NULL else fst (last ps))"
  using dll_at [of "elems s" L ps p ob qs] last_in_set [of "map fst ps"]
  by (auto simp: LinkedListPrev_def dll_def last_map)

subsection \<open>Insertion and removal\<close>

text \<open>
  What an insertion or a removal may touch: \<open>ll_added s L A s'\<close> is the memory after one
  element was allocated and linked into the ring \<open>L\<close> whose addresses are \<open>A\<close>;
  \<open>ll_removed s L A e s'\<close> after the element \<open>e\<close> was taken out of it and freed.
\<close>

definition ll_added :: "'a mem_scheme \<Rightarrow> addr \<Rightarrow> addr set \<Rightarrow> 'a mem_scheme \<Rightarrow> bool" where
  "ll_added s L A s' \<longleftrightarrow> (\<exists>E. s' = s\<lparr>brk := Suc (brk s), avail := avail s - 1,
       elems := E, members := (members s)(L := members s L + 1)\<rparr>
     \<and> dom E = insert (brk s) (dom (elems s)) \<and> (\<forall>p. p \<notin> insert (brk s) A \<longrightarrow> E p = elems s p))"

definition ll_removed :: "'a mem_scheme \<Rightarrow> addr \<Rightarrow> addr set \<Rightarrow> addr \<Rightarrow> 'a mem_scheme \<Rightarrow> bool" where
  "ll_removed s L A e s' \<longleftrightarrow> (\<exists>E. s' = s\<lparr>elems := E, members := (members s)(L := members s L - 1)\<rparr>
     \<and> dom E = dom (elems s) - {e} \<and> (\<forall>p. p \<notin> insert e A \<longrightarrow> E p = elems s p))"

abbreviation addrs :: "addr \<Rightarrow> (addr \<times> addr) list \<Rightarrow> addr set" where
  "addrs L ps \<equiv> set (L # map fst ps)"

lemma ll_added_wf:
  assumes "wf_mem s" "ll_added s L A s'" shows "wf_mem s'"
proof -
  obtain E where "s' = s\<lparr>brk := Suc (brk s), avail := avail s - 1,
      elems := E, members := (members s)(L := members s L + 1)\<rparr>" "dom E = insert (brk s) (dom (elems s))"
    using assms(2) unfolding ll_added_def by blast
  with assms(1) show ?thesis by (auto simp add: wf_mem_def)
qed

lemma ll_removed_wf:
  assumes "wf_mem s" "ll_removed s L A e s'" shows "wf_mem s'"
proof -
  obtain E where "s' = s\<lparr>elems := E, members := (members s)(L := members s L - 1)\<rparr>"
      "dom E = dom (elems s) - {e}"
    using assms(2) unfolding ll_removed_def by blast
  with assms(1) show ?thesis by (auto simp add: wf_mem_def)
qed

lemma ll_added_frame: "ll_added s L A s' \<Longrightarrow> members s' L = members s L + 1"
    "ll_added s L A s' \<Longrightarrow> p \<noteq> brk s \<Longrightarrow> p \<notin> A \<Longrightarrow> elems s' p = elems s p"
  by (auto simp: ll_added_def)

lemma ll_removed_frame: "ll_removed s L A e s' \<Longrightarrow> members s' L = members s L - 1"
    "ll_removed s L A e s' \<Longrightarrow> p \<noteq> e \<Longrightarrow> p \<notin> A \<Longrightarrow> elems s' p = elems s p"
    "ll_removed s L A e s' \<Longrightarrow> elems s' e = None"
  by (auto simp: ll_removed_def)

lemma malloc_elem_Some: "0 < avail s \<Longrightarrow> wf_mem s \<Longrightarrow> malloc_elem s = (brk s,
    s\<lparr>brk := Suc (brk s), avail := avail s - 1,
      elems := (elems s)(brk s \<mapsto> \<lparr>obj = 0, nxt = 0, prv = 0\<rparr>)\<rparr>)"
  by (simp add: malloc_elem_def malloc_def wf_mem_def)

lemma malloc_elem_None: "avail s = 0 \<Longrightarrow> malloc_elem s = (NULL, s)"
  by (simp add: malloc_elem_def malloc_def)

text \<open>
  The two ends of the gap that an insertion fills, or of the one that a removal closes, as
  elements of the heap.
\<close>

lemma dll_gap:
  assumes "dll h L (ps @ qs)" "p = last (L # map fst ps)" "q = hd (map fst qs @ [L])"
  shows "\<exists>e f. h p = Some e \<and> h q = Some f \<and> nxt e = q \<and> prv f = p"
proof (cases qs)
  case Nil
  with assms show ?thesis using dll_anchor [OF assms(1)] 
    by (cases ps rule: rev_cases) (auto dest!: dll_at)
next
  case (Cons y ys)
  with assms obtain f where "h q = Some f" "prv f = p" by (cases y) (auto dest!: dll_at)
  moreover obtain e where "h p = Some e" "nxt e = q"
    using assms Cons dll_anchor [OF assms(1)] 
    by (cases ps rule: rev_cases) (auto dest!: dll_at)
  ultimately show ?thesis by blast
qed

definition fill_gap :: "addr \<Rightarrow> addr \<Rightarrow> addr \<Rightarrow> addr \<Rightarrow> (addr \<rightharpoonup> ll_elem) \<Rightarrow> addr \<rightharpoonup> ll_elem" where
  "fill_gap n ob p q h = (let e = the (h p); f = the (h q) in
     if p = q then h(p \<mapsto> e\<lparr>nxt := n, prv := n\<rparr>, n \<mapsto> \<lparr>obj = ob, nxt = q, prv = p\<rparr>)
     else h(n \<mapsto> \<lparr>obj = ob, nxt = q, prv = p\<rparr>, p \<mapsto> e\<lparr>nxt := n\<rparr>, q \<mapsto> f\<lparr>prv := n\<rparr>))"

lemma dll_fill_gap:
  assumes d: "dll h L (ps @ qs)" and n: "h n = None" "n \<noteq> NULL"
    and p: "p = last (L # map fst ps)" and q: "q = hd (map fst qs @ [L])"
  shows "dll (fill_gap n ob p q h) L (ps @ (n, ob) # qs)" (is "dll ?h L _")
    and "dom (fill_gap n ob p q h) = insert n (dom h)"
    and "\<And>w. w \<notin> insert n (addrs L (ps @ qs)) \<Longrightarrow> fill_gap n ob p q h w = h w"
proof -
  obtain e f where ef: "h p = Some e" "h q = Some f" using dll_gap [OF d p q] by blast
  then have ne: "n \<noteq> p" "n \<noteq> q" using n by auto
  have w: "?h w = (if w = n then Some \<lparr>obj = ob, nxt = q, prv = p\<rparr>
      else if p = q \<and> w = p then Some (e\<lparr>nxt := n, prv := n\<rparr>)
      else if w = p then Some (e\<lparr>nxt := n\<rparr>) else if w = q then Some (f\<lparr>prv := n\<rparr>) else h w)" for w
    using ne ef by (simp add: fill_gap_def)
  show "dll ?h L (ps @ (n, ob) # qs)"
    by (rule dll_insert [OF d n p q]) (use ne ef in \<open>auto simp: nxts_def prvs_def objs_def w\<close>)
  show "dom ?h = insert n (dom h)" using ef by (auto simp: dom_def w)
  have "p \<in> addrs L (ps @ qs)" using p by (cases ps rule: rev_cases) simp_all
  moreover have "q \<in> addrs L (ps @ qs)" using q by (cases qs) simp_all
  ultimately show "?h w = h w" if "w \<notin> insert n (addrs L (ps @ qs))" for w
    using that w [of w] by auto
qed

text \<open>The common end of every insertion: the heap it leaves is the gap filled by the new element.\<close>

lemma ll_addedI:
  assumes "dll (elems s) L (ps @ qs)" "wf_mem s"
    and "p = last (L # map fst ps)" "q = hd (map fst qs @ [L])"
    and "s' = s\<lparr>brk := Suc (brk s), avail := avail s - 1, elems := fill_gap (brk s) ob p q (elems s),
       members := (members s)(L := members s L + 1)\<rparr>"
  shows "ll_added s L (addrs L (ps @ qs)) s' \<and> dll (elems s') L (ps @ (brk s, ob) # qs)"
proof -
  have n: "elems s (brk s) = None" "brk s \<noteq> NULL"
    using assms(2) by (auto simp: wf_mem_fresh wf_mem_def)
  show ?thesis
    using dll_fill_gap [OF assms(1) n assms(3,4)] assms(5) unfolding ll_added_def
    by (intro conjI exI [of _ "fill_gap (brk s) ob p q (elems s)"] allI impI) simp_all
qed

lemma dll_ends_neq: "dll h L ps \<Longrightarrow> ps \<noteq> [] \<Longrightarrow> fst (last ps) \<noteq> L \<and> fst (hd ps) \<noteq> L"
  using last_in_set [of "map fst ps"] hd_in_set [of "map fst ps"]
  by (auto simp: dll_def last_map hd_map)

lemmas ll_exec = malloc_elem_Some set_obj_def set_nxt_def set_prv_def LinkedListEmpty_def fill_gap_def

lemma Append_dll:
  assumes "wf_mem s" "dll (elems s) L ps" "0 < avail s"
  shows "\<exists>s'. LinkedListAppend s L ob = Some (True, s') \<and> ll_added s L (addrs L ps) s'
    \<and> dll (elems s') L (ps @ [(brk s, ob)])"
proof -
  let ?n = "brk s" and ?p = "last (L # map fst ps)"
  have d: "dll (elems s) L (ps @ [])" using assms(2) by simp
  obtain e f where ef: "elems s ?p = Some e" "elems s L = Some f" "nxt e = L" "prv f = ?p"
    using dll_gap [OF d refl refl] by auto
  have ne: "?n \<noteq> ?p" "?n \<noteq> L" "L \<noteq> NULL"
    using wf_mem_fresh [OF assms(1)] ef assms(2) by (auto simp: dll_not_NULL)
  have "?p \<noteq> L" if "ps \<noteq> []" using dll_ends_neq [OF assms(2) that] that by (simp add: last_map)
  then have "LinkedListAppend s L ob = Some (True, s\<lparr>brk := Suc ?n, avail := avail s - 1,
      elems := fill_gap ?n ob ?p L (elems s), members := (members s)(L := members s L + 1)\<rparr>)"
    using assms ne ef by (cases "ps = []") (auto simp: LinkedListAppend_def ll_exec)
  then show ?thesis using ll_addedI [OF d assms(1) refl _ refl] by simp
qed

lemma Prepend_dll:
  assumes "wf_mem s" "dll (elems s) L ps" "0 < avail s"
  shows "\<exists>s'. LinkedListPrepend s L ob = Some (True, s') \<and> ll_added s L (addrs L ps) s'
    \<and> dll (elems s') L ((brk s, ob) # ps)"
proof -
  let ?n = "brk s" and ?q = "hd (map fst ps @ [L])"
  have d: "dll (elems s) L ([] @ ps)" using assms(2) by simp
  obtain e f where ef: "elems s L = Some e" "elems s ?q = Some f" "nxt e = ?q" "prv f = L"
    using dll_gap [OF d refl refl] by auto
  have ne: "?n \<noteq> ?q" "?n \<noteq> L" "L \<noteq> NULL"
    using wf_mem_fresh [OF assms(1)] ef assms(2) by (auto simp: dll_not_NULL)
  have "?q \<noteq> L" if "ps \<noteq> []" using dll_ends_neq [OF assms(2) that] that by (simp add: hd_map hd_append)
  then have "LinkedListPrepend s L ob = Some (True, s\<lparr>brk := Suc ?n, avail := avail s - 1,
      elems := fill_gap ?n ob L ?q (elems s), members := (members s)(L := members s L + 1)\<rparr>)"
    using assms ne ef
    by (cases "ps = []") (auto simp: LinkedListPrepend_def ll_exec fun_upd_twist)
  then show ?thesis using ll_addedI [OF d assms(1) _ refl refl] by simp
qed

lemma dll_ends_in: "last (L # map fst ps) \<in> addrs L (ps @ qs)" "hd (map fst qs @ [L]) \<in> addrs L (ps @ qs)"
proof -
  show "last (L # map fst ps) \<in> addrs L (ps @ qs)" by (cases ps rule: rev_cases) simp_all
  show "hd (map fst qs @ [L]) \<in> addrs L (ps @ qs)" by (cases qs) simp_all
qed

lemma dll_ends_neq_at:
  assumes "dll h L (ps @ (x, ob) # qs)"
  shows "last (L # map fst ps) \<noteq> x" "hd (map fst qs @ [L]) \<noteq> x"
proof -
  have "x \<notin> addrs L (ps @ qs)" using assms by (auto simp: dll_def)
  then show "last (L # map fst ps) \<noteq> x" "hd (map fst qs @ [L]) \<noteq> x"
    using dll_ends_in by metis+
qed

lemma InsertAfter_dll:
  assumes "wf_mem s" "dll (elems s) L (ps @ (p, x) # qs)" "0 < avail s"
  shows "\<exists>s'. LinkedListInsertAfter s L ob p = Some (True, s') \<and> ll_added s L (addrs L (ps @ (p, x) # qs)) s'
    \<and> dll (elems s') L (ps @ (p, x) # (brk s, ob) # qs)"
proof -
  let ?n = "brk s" and ?q = "hd (map fst qs @ [L])"
  have d: "dll (elems s) L ((ps @ [(p, x)]) @ qs)" using assms(2) by simp
  obtain e f where ef: "elems s p = Some e" "elems s ?q = Some f" "nxt e = ?q" "prv f = p"
    using dll_gap [OF d refl refl] by auto
  have ne: "?n \<noteq> ?q" "?n \<noteq> p" "p \<noteq> NULL" "p \<noteq> ?q" "?n \<noteq> NULL"
    using wf_mem_fresh [OF assms(1)] ef assms(1) dll_ends_neq_at [OF assms(2)] dll_elem_not_NULL [OF assms(2)]
    by (auto simp: wf_mem_def)
  then have "LinkedListInsertAfter s L ob p = Some (True, s\<lparr>brk := Suc ?n, avail := avail s - 1,
      elems := fill_gap ?n ob p ?q (elems s), members := (members s)(L := members s L + 1)\<rparr>)"
    using assms ef by (auto simp: LinkedListInsertAfter_def ll_exec fun_upd_twist)
  then show ?thesis using ll_addedI [OF d assms(1) _ refl refl, of p] by simp
qed

lemma InsertBefore_dll:
  assumes "wf_mem s" "dll (elems s) L (ps @ (q, x) # qs)" "0 < avail s"
  shows "\<exists>s'. LinkedListInsertBefore s L ob q = Some (True, s') \<and> ll_added s L (addrs L (ps @ (q, x) # qs)) s'
    \<and> dll (elems s') L (ps @ (brk s, ob) # (q, x) # qs)"
proof -
  let ?n = "brk s" and ?p = "last (L # map fst ps)"
  obtain e f where ef: "elems s ?p = Some e" "elems s q = Some f" "nxt e = q" "prv f = ?p"
    using dll_gap [OF assms(2) refl refl] by auto
  have ne: "?n \<noteq> ?p" "?n \<noteq> q" "q \<noteq> NULL" "?p \<noteq> q" "?n \<noteq> NULL"
    using wf_mem_fresh [OF assms(1)] ef assms(1) dll_ends_neq_at [OF assms(2)] dll_elem_not_NULL [OF assms(2)]
    by (auto simp: wf_mem_def)
  then have "LinkedListInsertBefore s L ob q = Some (True, s\<lparr>brk := Suc ?n, avail := avail s - 1,
      elems := fill_gap ?n ob ?p q (elems s), members := (members s)(L := members s L + 1)\<rparr>)"
    using assms ef by (auto simp: LinkedListInsertBefore_def ll_exec fun_upd_twist)
  then show ?thesis using ll_addedI [OF assms(2,1) refl _ refl, of q] by simp
qed

lemma dll_close_gap:
  assumes d: "dll h L (ps @ (x, ob) # qs)"
    and p: "p = last (L # map fst ps)" and q: "q = hd (map fst qs @ [L])"
    and ef: "h p = Some e" "h q = Some f"
    and hx: "h' x = None"
    and hp: "h' p = Some (if p = q then e\<lparr>nxt := q, prv := p\<rparr> else e\<lparr>nxt := q\<rparr>)"
    and hq: "h' q = Some (if p = q then e\<lparr>nxt := q, prv := p\<rparr> else f\<lparr>prv := p\<rparr>)"
    and other: "\<And>w. w \<noteq> x \<Longrightarrow> w \<noteq> p \<Longrightarrow> w \<noteq> q \<Longrightarrow> h' w = h w"
  shows "dll h' L (ps @ qs)" "dom h' = dom h - {x}"
    and "\<And>w. w \<notin> addrs L (ps @ (x, ob) # qs) \<Longrightarrow> h' w = h w"
proof -
  have ne: "p \<noteq> x" "q \<noteq> x" using dll_ends_neq_at [OF d] p q by simp_all
  have views: "map_option obj (h' v) = map_option obj (h v)"
    "v \<noteq> p \<Longrightarrow> map_option nxt (h' v) = map_option nxt (h v)"
    "v \<noteq> q \<Longrightarrow> map_option prv (h' v) = map_option prv (h v)"
    "h' v \<noteq> None \<longleftrightarrow> h v \<noteq> None" if "v \<noteq> x" for v
    using other [OF that] hp hq ef by (cases "v = p"; cases "v = q"; simp)+
  show "dll h' L (ps @ qs)"
  proof (rule dll_remove [OF d p q])
    show "nxts h' p = Some q" "prvs h' q = Some p" using hp hq by (simp_all add: nxts_def prvs_def)
  qed (simp_all add: nxts_def prvs_def objs_def views)
  show "dom h' = dom h - {x}" 
  proof (rule set_eqI)
    show "v \<in> dom h' \<longleftrightarrow> v \<in> dom h - {x}" for v
      using hx views(4) [of v] by (cases "v = x") (auto simp: dom_def)
  qed
  have "p \<in> addrs L (ps @ (x, ob) # qs)" "q \<in> addrs L (ps @ (x, ob) # qs)"
    using dll_ends_in(1) [of L ps "(x, ob) # qs"] dll_ends_in(2) [of qs L ps] p q by auto
  moreover have "x \<in> addrs L (ps @ (x, ob) # qs)" by simp
  ultimately show "h' v = h v" if "v \<notin> addrs L (ps @ (x, ob) # qs)" for v
    using that by (intro other) blast+
qed

lemma Unlink_dll:
  assumes "dll (elems s) L (ps @ (x, ob) # qs)"
  shows "\<exists>s'. LinkedListUnlink s L x = Some s' \<and> ll_removed s L (addrs L (ps @ (x, ob) # qs)) x s'
    \<and> dll (elems s') L (ps @ qs)"
proof -
  define p q where pq: "p = last (L # map fst ps)" "q = hd (map fst qs @ [L])"
  obtain c where c: "elems s x = Some c" "nxt c = q" "prv c = p"
    using dll_at [OF assms] pq by auto
  have d: "dll (elems s) L ((ps @ [(x, ob)]) @ qs)" using assms by simp
  obtain e where e: "elems s p = Some e" using dll_gap [OF assms refl refl] pq by auto
  obtain f where f: "elems s q = Some f" using dll_gap [OF d refl refl] pq by auto
  have ne: "p \<noteq> x" "q \<noteq> x" using dll_ends_neq_at [OF assms] pq by simp_all
  define E where "E = ((elems s)(p \<mapsto> e\<lparr>nxt := q\<rparr>, q \<mapsto> (if p = q then e\<lparr>nxt := q, prv := p\<rparr> else f\<lparr>prv := p\<rparr>)))(x := None)"
  have "LinkedListUnlink s L x = Some (s\<lparr>elems := E, members := (members s)(L := members s L - 1)\<rparr>)"
    using Empty_dll [OF assms] c e f ne
    by (simp add: LinkedListUnlink_def set_nxt_def set_prv_def free_elem_def E_def)
  moreover have E: "E x = None" "E p = Some (if p = q then e\<lparr>nxt := q, prv := p\<rparr> else e\<lparr>nxt := q\<rparr>)"
      "E q = Some (if p = q then e\<lparr>nxt := q, prv := p\<rparr> else f\<lparr>prv := p\<rparr>)"
      "\<And>w. w \<noteq> x \<Longrightarrow> w \<noteq> p \<Longrightarrow> w \<noteq> q \<Longrightarrow> E w = elems s w"
    using ne by (simp_all add: E_def)
  ultimately show ?thesis
    using dll_close_gap [OF assms pq e f E] unfolding ll_removed_def
    by (intro exI conjI) auto
qed

subsection \<open>Loops\<close>

lemma UnlinkAll_loop_dll:
  "wf_mem s \<Longrightarrow> dll (elems s) L ps \<Longrightarrow> \<exists>E. UnlinkAll_loop s L (case ps of [] \<Rightarrow> NULL | (p, _) # _ \<Rightarrow> p)
       = Some (s\<lparr>elems := E, members := (members s)(L := members s L - of_nat (length ps))\<rparr>)
     \<and> dll E L [] \<and> dom E = dom (elems s) - fst ` set ps
     \<and> (\<forall>p. p \<notin> addrs L ps \<longrightarrow> E p = elems s p)"
proof (induction ps arbitrary: s)
  case Nil
  then show ?case by (intro exI [of _ "elems s"]) (simp add: UnlinkAll_loop.simps)
next
  case (Cons y ps)
  obtain x ob where y: "y = (x, ob)" by (cases y)
  have d: "dll (elems s) L ([] @ (x, ob) # ps)" using Cons.prems y by simp
  obtain s1 where s1: "LinkedListUnlink s L x = Some s1" "ll_removed s L (addrs L ((x, ob) # ps)) x s1"
      "dll (elems s1) L ps"
    using Unlink_dll [OF d] by auto
  have wf1: "wf_mem s1" using ll_removed_wf [OF Cons.prems(1) s1(2)] .
  from Cons.IH [OF wf1 s1(3)] obtain E' where E':
      "UnlinkAll_loop s1 L (case ps of [] \<Rightarrow> NULL | (p, _) # _ \<Rightarrow> p)
        = Some (s1\<lparr>elems := E', members := (members s1)(L := members s1 L - of_nat (length ps))\<rparr>)"
      "dll E' L []" "dom E' = dom (elems s1) - fst ` set ps"
      "\<forall>p. p \<notin> addrs L ps \<longrightarrow> E' p = elems s1 p" by blast
  obtain E where E: "s1 = s\<lparr>elems := E, members := (members s)(L := members s L - 1)\<rparr>"
      "dom E = dom (elems s) - {x}" "\<forall>p. p \<notin> insert x (addrs L ((x, ob) # ps)) \<longrightarrow> E p = elems s p"
    using s1(2) unfolding ll_removed_def by blast
  have "x \<noteq> NULL" using d by (simp add: dll_def)
  then have "UnlinkAll_loop s L (case y # ps of [] \<Rightarrow> NULL | (p, _) # _ \<Rightarrow> p)
      = Some (s\<lparr>elems := E', members := (members s)(L := members s L - of_nat (length (y # ps)))\<rparr>)"
    using Next_dll [OF d] s1(1) E'(1) E(1) y by (subst UnlinkAll_loop.simps) (simp add: algebra_simps)
  moreover have "dom E' = dom (elems s) - fst ` set (y # ps)"
    using E'(3) E(1,2) y by (simp add: Diff_insert2 [symmetric])
  moreover have "\<forall>p. p \<notin> addrs L (y # ps) \<longrightarrow> E' p = elems s p"
    using E'(4) E(1,3) y by simp
  ultimately show ?case using E'(2) by blast
qed

lemma UnlinkAll_dll:
  assumes "wf_mem s" "dll (elems s) L ps"
  shows "\<exists>E. LinkedListUnlinkAll s L
      = Some (s\<lparr>elems := E, members := (members s)(L := members s L - of_nat (length ps))\<rparr>)
    \<and> dll E L [] \<and> dom E = dom (elems s) - fst ` set ps
    \<and> (\<forall>p. p \<notin> addrs L ps \<longrightarrow> E p = elems s p)"
  using UnlinkAll_loop_dll [OF assms] First_dll [OF assms(2)]
  by (simp add: LinkedListUnlinkAll_def)

lemma Init_dll: "elems s L = Some a \<Longrightarrow> L \<noteq> NULL \<Longrightarrow>
    \<exists>E. LinkedListInit s L = Some (True, s\<lparr>elems := E\<rparr>) \<and> dll E L []
      \<and> dom E = dom (elems s) \<and> (\<forall>p. p \<noteq> L \<longrightarrow> E p = elems s p)"
  by (cases a, rule exI [of _ "(elems s)(L \<mapsto> \<lparr>obj = NULL, nxt = L, prv = L\<rparr>)"])
     (auto simp: LinkedListInit_def set_obj_def set_nxt_def set_prv_def dll_def nxts_def prvs_def)

subsection \<open>The interface the other components use\<close>

text \<open>
  A read-only traversal \<open>for (e = First(l); e != NULL; e = Next(l, e))\<close> that stops at the
  first element for which its body returns. \<open>ll_search\<close> is its value on the list of pairs;
  the locale states what a traversal needs of the container and proves the loop rule once.
\<close>

fun ll_search :: "(addr \<Rightarrow> addr \<Rightarrow> 'r option) \<Rightarrow> 'r \<Rightarrow> (addr \<times> addr) list \<Rightarrow> 'r" where
  "ll_search body d [] = d"
| "ll_search body d ((p, ob) # qs) = (case body p ob of Some r \<Rightarrow> r | None \<Rightarrow> ll_search body d qs)"

locale object_list =
  fixes rep :: "'s \<Rightarrow> addr \<Rightarrow> (addr \<times> addr) list \<Rightarrow> bool"
    and first :: "'s \<Rightarrow> addr \<Rightarrow> addr option"
    and succ :: "'s \<Rightarrow> addr \<Rightarrow> addr \<Rightarrow> addr option"
  assumes first_law: "rep s L ps \<Longrightarrow> first s L = Some (case ps of [] \<Rightarrow> NULL | (p, _) # _ \<Rightarrow> p)"
    and succ_law: "rep s L (ps @ (p, ob) # qs) \<Longrightarrow>
      succ s L p = Some (case qs of [] \<Rightarrow> NULL | (q, _) # _ \<Rightarrow> q)"
    and live_law: "rep s L (ps @ (p, ob) # qs) \<Longrightarrow> p \<noteq> NULL"
begin

lemma traverse_from:
  assumes "rep s L (ps @ qs)" "loop NULL = Some d"
    and "\<And>p ob. (p, ob) \<in> set qs \<Longrightarrow> loop p = (case body p ob of Some r \<Rightarrow> Some r
      | None \<Rightarrow> (case succ s L p of None \<Rightarrow> None | Some n \<Rightarrow> loop n))"
  shows "loop (case qs of [] \<Rightarrow> NULL | (q, _) # _ \<Rightarrow> q) = Some (ll_search body d qs)"
  using assms(1,3)
proof (induction qs arbitrary: ps)
  case Nil
  then show ?case using assms(2) by simp
next
  case (Cons y qs)
  obtain p ob where y: "y = (p, ob)" by (cases y)
  have "rep s L ((ps @ [y]) @ qs)" using Cons.prems by simp
  then have "loop (case qs of [] \<Rightarrow> NULL | (q, _) # _ \<Rightarrow> q) = Some (ll_search body d qs)"
    by (rule Cons.IH) (use Cons.prems(2) in simp)
  then show ?case
    using Cons.prems(2) [of p ob] succ_law [of s L ps p ob qs] Cons.prems(1) y
    by (simp split: option.splits)
qed

lemma traverse:
  assumes "rep s L ps" "loop NULL = Some d"
    and "\<And>p ob. (p, ob) \<in> set ps \<Longrightarrow> loop p = (case body p ob of Some r \<Rightarrow> Some r
      | None \<Rightarrow> (case succ s L p of None \<Rightarrow> None | Some n \<Rightarrow> loop n))"
  shows "(case first s L of None \<Rightarrow> None | Some e \<Rightarrow> loop e) = Some (ll_search body d ps)"
  using traverse_from [where ps = "[]" and qs = ps, simplified, OF assms] first_law [OF assms(1)]
  by simp

end

interpretation ll: object_list "\<lambda>s. dll (elems s)" LinkedListFirst LinkedListNext
  by unfold_locales (auto simp: First_dll Next_dll dest: dll_elem_not_NULL)

lemma ll_search_find: "ll_search (\<lambda>p x. if x = ob then Some p else None) NULL ps
    = (case find (\<lambda>x. snd x = ob) ps of None \<Rightarrow> NULL | Some (p, _) \<Rightarrow> p)"
  by (induction ps) (auto split: option.splits)

lemma Find_dll: 
  assumes "dll (elems s) L ps"
  shows "LinkedListFind s L ob
    = Some (case find (\<lambda>x. snd x = ob) ps of None \<Rightarrow> NULL | Some (p, _) \<Rightarrow> p)"
proof (cases "ps = []")
  case True
  then show ?thesis using Empty_dll [OF assms] by (simp add: LinkedListFind_def)
next
  case False
  have "(case LinkedListFirst s L of None \<Rightarrow> None | Some e \<Rightarrow> Find_loop s L ob e)
      = Some (ll_search (\<lambda>p x. if x = ob then Some p else None) NULL ps)"
  proof (rule ll.traverse [OF assms])
    show "Find_loop s L ob NULL = Some NULL" by (simp add: Find_loop.simps)
    fix p x assume "(p, x) \<in> set ps"
    then obtain qs rs where "ps = qs @ (p, x) # rs" by (auto dest: split_list)
    with assms have d: "dll (elems s) L (qs @ (p, x) # rs)" by simp
    then show "Find_loop s L ob p = (case (if x = ob then Some p else None) of Some r \<Rightarrow> Some r
        | None \<Rightarrow> (case LinkedListNext s L p of None \<Rightarrow> None | Some n \<Rightarrow> Find_loop s L ob n))"
      using dll_at [OF d] dll_elem_not_NULL [OF d]
      by (subst Find_loop.simps) (auto split: option.splits bind_splits)
  qed
  then show ?thesis
    using Empty_dll [OF assms] False First_dll [OF assms]
    by (simp add: LinkedListFind_def ll_search_find)
qed

subsection \<open>Properties\<close>

text \<open>A memory with the empty list at address 1, and one with the list of the objects 70, 80.\<close>

definition mem_empty_list :: mem where
  "mem_empty_list = \<lparr>elems = [1 \<mapsto> \<lparr>obj = 0, nxt = 1, prv = 1\<rparr>], members = (\<lambda>_. 0), brk = 2, avail = 9\<rparr>"

definition mem_two_list :: mem where
  "mem_two_list = \<lparr>elems = [1 \<mapsto> \<lparr>obj = 0, nxt = 2, prv = 3\<rparr>,
     2 \<mapsto> \<lparr>obj = 70, nxt = 3, prv = 1\<rparr>, 3 \<mapsto> \<lparr>obj = 80, nxt = 1, prv = 2\<rparr>],
     members = (\<lambda>_. 2), brk = 4, avail = 9\<rparr>"

lemma mem_empty_list_ok: "wf_mem mem_empty_list" "dll (elems mem_empty_list) 1 []" "0 < avail mem_empty_list"
  by (simp_all add: mem_empty_list_def wf_mem_def dll_def nxts_def prvs_def)

lemma mem_two_list_ok: "wf_mem mem_two_list" "dll (elems mem_two_list) 1 [(2, 70), (3, 80)]" "0 < avail mem_two_list"
  by (simp_all add: mem_two_list_def wf_mem_def dll_def nxts_def prvs_def objs_def)

text \<open>C21: \<open>LinkedListAppend\<close> and \<open>LinkedListPrepend\<close>, on any list, the empty one included: the new
  element becomes the last, respectively the first, of the ring with the given object, the
  count grows by one, no element outside of the ring changes, and memory stays well formed.\<close>

theorem LinkedList_append_prepend_correct:
  assumes "wf_mem s" "dll (elems s) L ps" "0 < avail s"
  shows "\<exists>s1 s2. LinkedListAppend s L ob = Some (True, s1) \<and> dll (elems s1) L (ps @ [(brk s, ob)])
    \<and> LinkedListPrepend s L ob = Some (True, s2) \<and> dll (elems s2) L ((brk s, ob) # ps)
    \<and> wf_mem s1 \<and> wf_mem s2 \<and> members s1 L = members s L + 1 \<and> members s2 L = members s L + 1
    \<and> (\<forall>p. p \<notin> insert (brk s) (addrs L ps) \<longrightarrow> elems s1 p = elems s p \<and> elems s2 p = elems s p)"
proof -
  obtain s1 where "LinkedListAppend s L ob = Some (True, s1)" "ll_added s L (addrs L ps) s1"
      "dll (elems s1) L (ps @ [(brk s, ob)])"
    using Append_dll [OF assms] by blast
  moreover obtain s2 where "LinkedListPrepend s L ob = Some (True, s2)" "ll_added s L (addrs L ps) s2"
      "dll (elems s2) L ((brk s, ob) # ps)"
    using Prepend_dll [OF assms] by blast
  ultimately show ?thesis using assms(1)
    by (intro exI [of _ s1] exI [of _ s2]) (simp add: ll_added_wf ll_added_frame)
qed

theorem LinkedList_append_prepend_correct_witness:
  "\<exists>s1 s2. LinkedListAppend mem_two_list 1 90 = Some (True, s1) \<and> dll (elems s1) 1 [(2, 70), (3, 80), (4, 90)]
    \<and> LinkedListPrepend mem_two_list 1 90 = Some (True, s2) \<and> dll (elems s2) 1 [(4, 90), (2, 70), (3, 80)]"
  using LinkedList_append_prepend_correct [OF mem_two_list_ok, of 90]
  by (auto simp: mem_two_list_def)

text \<open>\<open>LinkedListInsertAfter\<close> and \<open>LinkedListInsertBefore\<close> put the object right after, respectively
  right before, the element given, wherever it stands in the ring; nothing outside of the ring changes.\<close>

theorem LinkedList_insert_correct:
  assumes "wf_mem s" "dll (elems s) L (ps @ (p, x) # qs)" "0 < avail s"
  shows "\<exists>s1 s2. LinkedListInsertAfter s L ob p = Some (True, s1)
    \<and> dll (elems s1) L (ps @ (p, x) # (brk s, ob) # qs)
    \<and> LinkedListInsertBefore s L ob p = Some (True, s2)
    \<and> dll (elems s2) L (ps @ (brk s, ob) # (p, x) # qs)
    \<and> wf_mem s1 \<and> wf_mem s2 \<and> members s1 L = members s L + 1 \<and> members s2 L = members s L + 1
    \<and> (\<forall>w. w \<notin> insert (brk s) (addrs L (ps @ (p, x) # qs)) \<longrightarrow> elems s1 w = elems s w \<and> elems s2 w = elems s w)"
proof -
  obtain s1 where "LinkedListInsertAfter s L ob p = Some (True, s1)"
      "ll_added s L (addrs L (ps @ (p, x) # qs)) s1" "dll (elems s1) L (ps @ (p, x) # (brk s, ob) # qs)"
    using InsertAfter_dll [OF assms] by blast
  moreover obtain s2 where "LinkedListInsertBefore s L ob p = Some (True, s2)"
      "ll_added s L (addrs L (ps @ (p, x) # qs)) s2" "dll (elems s2) L (ps @ (brk s, ob) # (p, x) # qs)"
    using InsertBefore_dll [OF assms] by blast
  ultimately show ?thesis using assms(1)
    by (intro exI [of _ s1] exI [of _ s2])
       (simp add: ll_added_wf ll_added_frame del: list.set)
qed

theorem LinkedList_insert_correct_witness:
  "\<exists>s1 s2. LinkedListInsertAfter mem_two_list 1 90 2 = Some (True, s1) \<and> dll (elems s1) 1 [(2, 70), (4, 90), (3, 80)]
    \<and> LinkedListInsertBefore mem_two_list 1 90 2 = Some (True, s2) \<and> dll (elems s2) 1 [(4, 90), (2, 70), (3, 80)]"
  using LinkedList_insert_correct [of mem_two_list 1 "[]" 2 70 "[(3, 80)]" 90] mem_two_list_ok
  by (auto simp: mem_two_list_def)

text \<open>C20: \<open>LinkedListUnlink\<close> of an element of the ring takes exactly that element out, in place, frees
  it, lowers the count by one, and changes nothing outside of the ring.\<close>

theorem LinkedListUnlink_correct:
  assumes "wf_mem s" "dll (elems s) L (ps @ (x, ob) # qs)"
  shows "\<exists>s'. LinkedListUnlink s L x = Some s' \<and> dll (elems s') L (ps @ qs) \<and> elems s' x = None
    \<and> wf_mem s' \<and> members s' L = members s L - 1
    \<and> (\<forall>w. w \<notin> addrs L (ps @ (x, ob) # qs) \<longrightarrow> elems s' w = elems s w)"
proof -
  obtain s' where s': "LinkedListUnlink s L x = Some s'" "dll (elems s') L (ps @ qs)"
      "ll_removed s L (addrs L (ps @ (x, ob) # qs)) x s'"
    using Unlink_dll [OF assms(2)] by blast
  have "elems s' w = elems s w" if "w \<notin> addrs L (ps @ (x, ob) # qs)" for w
    by (rule ll_removed_frame(2) [OF s'(3)]) (use that in auto)
  then show ?thesis
    using s' ll_removed_wf [OF assms(1) s'(3)] ll_removed_frame(1,3) [OF s'(3)] by blast
qed

theorem LinkedListUnlink_correct_witness:
  "\<exists>s'. LinkedListUnlink mem_two_list 1 2 = Some s' \<and> dll (elems s') 1 [(3, 80)] \<and> elems s' 2 = None"
  using LinkedListUnlink_correct [of mem_two_list 1 "[]" 2 70 "[(3, 80)]"] mem_two_list_ok by auto

text \<open>the loop of \<open>LinkedListUnlinkAll\<close> ends, leaves an empty ring, frees exactly the elements of
  the ring (never the anchor), subtracts their number from the count, and frees no object.\<close>

theorem LinkedListUnlinkAll_correct:
  assumes "wf_mem s" "dll (elems s) L ps"
  shows "\<exists>s'. LinkedListUnlinkAll s L = Some s' \<and> dll (elems s') L []
    \<and> dom (elems s') = dom (elems s) - set (map fst ps)
    \<and> members s' = (members s)(L := members s L - of_nat (length ps))
    \<and> (\<forall>p. p \<notin> addrs L ps \<longrightarrow> elems s' p = elems s p)"
  using UnlinkAll_dll [OF assms] by auto

theorem LinkedListUnlinkAll_correct_witness:
  "\<exists>s'. LinkedListUnlinkAll mem_two_list 1 = Some s' \<and> dll (elems s') 1 [] \<and> members s' 1 = 0"
  using LinkedListUnlinkAll_correct [OF mem_two_list_ok(1,2)] by (auto simp: mem_two_list_def)

text \<open>\<open>LinkedListFind\<close> returns on every list, with the first element that carries the object, or
  NULL when no element does.\<close>

theorem LinkedListFind_correct:
  assumes "dll (elems s) L ps"
  shows "\<exists>e. LinkedListFind s L ob = Some e
    \<and> (if \<exists>p. (p, ob) \<in> set ps
       then \<exists>qs rs. ps = qs @ (e, ob) # rs \<and> ob \<notin> snd ` set qs else e = NULL)"
proof (cases "\<exists>p. (p, ob) \<in> set ps")
  case True
  then obtain qs p rs where ps: "ps = qs @ (p, ob) # rs" "ob \<notin> snd ` set qs"
    using split_list_first_prop [of ps "\<lambda>x. snd x = ob"] by (force simp: image_iff)
  then have "find (\<lambda>x. snd x = ob) ps = Some (p, ob)"
    by (auto simp: find_Some_iff nth_append intro!: exI [of _ "length qs"])
  with ps show ?thesis using True by (auto simp: Find_dll [OF assms])
next
  case False
  then have "find (\<lambda>x. snd x = ob) ps = None" by (force simp: find_None_iff)
  with False show ?thesis by (simp add: Find_dll [OF assms])
qed

theorem LinkedListFind_correct_witness:
  "\<exists>e. LinkedListFind mem_two_list 1 80 = Some e
    \<and> (\<exists>qs rs. [(2, 70), (3, 80)] = qs @ (e, 80 :: addr) # rs \<and> 80 \<notin> snd ` set qs)"
  using LinkedListFind_correct [OF mem_two_list_ok(2), of 80] by auto

text \<open>the code checks \<open>malloc\<close> in the two insertions only. When memory is exhausted,
  \<open>LinkedListInsertAfter\<close> and \<open>LinkedListInsertBefore\<close> return FALSE and change nothing, while
  \<open>LinkedListAppend\<close> and \<open>LinkedListPrepend\<close> store through the null pointer.\<close>

theorem LinkedList_out_of_memory:
  assumes "avail s = 0" "wf_mem s" "L \<noteq> NULL" "p \<noteq> NULL"
  shows "LinkedListInsertAfter s L ob p = Some (False, s) \<and> LinkedListInsertBefore s L ob p = Some (False, s)
    \<and> LinkedListAppend s L ob = None \<and> LinkedListPrepend s L ob = None"
  using assms wf_mem_NULL [OF assms(2)]
  by (simp add: LinkedListInsertAfter_def LinkedListInsertBefore_def LinkedListAppend_def
      LinkedListPrepend_def malloc_elem_None set_obj_def)

theorem LinkedList_out_of_memory_witness:
  "LinkedListAppend (mem_two_list\<lparr>avail := 0\<rparr>) 1 90 = None
   \<and> LinkedListInsertAfter (mem_two_list\<lparr>avail := 0\<rparr>) 1 90 2 = Some (False, mem_two_list\<lparr>avail := 0\<rparr>)"
  using LinkedList_out_of_memory [of "mem_two_list\<lparr>avail := 0\<rparr>" 1 2 90] mem_two_list_ok(1)
  by (simp add: mem_two_list_def wf_mem_def)

end
