(* ===== verification/Ranges.thy ===== *)
theory Ranges
  imports UCP_Prelude
begin

text \<open>
  The contract of the sequencer: lists of ranges of 32-bit sequence numbers and the set of
  numbers they cover. \<open>ranges_add\<close>, \<open>ranges_merge\<close> and \<open>ranges_missing\<close> are what the
  loops of \<open>sequencer.c\<close> do to the list of ranges, wrap-around included; below they are related
  to sets, on lists that are sorted, disjoint and free of the last number \<open>UINT32_MAX\<close>.
\<close>

type_synonym range = "u32 \<times> u32"

definition covers :: "range \<Rightarrow> u32 \<Rightarrow> bool" where
  "covers r n \<longleftrightarrow> fst r \<le> n \<and> n \<le> snd r"

definition ranges_check :: "range list \<Rightarrow> u32 \<Rightarrow> bool" where
  "ranges_check rs n \<longleftrightarrow> list_ex (\<lambda>r. covers r n) rs"

fun ranges_add_from :: "range list \<Rightarrow> u32 \<Rightarrow> range list \<Rightarrow> bool \<times> range list" where
  "ranges_add_from pre n [] = (False, pre)"
| "ranges_add_from pre n ((f, l) # rs) =
     (if l + 1 = n then
        (True, pre @ (case rs of [] \<Rightarrow> [(f, n)]
          | (f2, l2) # rs2 \<Rightarrow> if f2 - 1 = n then (f, l2) # rs2 else (f, n) # rs))
      else if f - 1 = n then
        (True, if pre \<noteq> [] \<and> snd (last pre) + 1 = n then butlast pre @ (fst (last pre), l) # rs
               else pre @ (n, l) # rs)
      else case rs of
        [] \<Rightarrow> if l < n then (True, pre @ [(f, l), (n, n)]) else ranges_add_from (pre @ [(f, l)]) n rs
      | (f2, l2) # _ \<Rightarrow> if l < n \<and> n < f2 then (True, pre @ (f, l) # (n, n) # rs)
          else ranges_add_from (pre @ [(f, l)]) n rs)"

definition ranges_add :: "u32 \<Rightarrow> range list \<Rightarrow> bool \<times> range list" where
  "ranges_add n rs = (if ranges_check rs n then (False, rs)
     else if rs = [] then (True, [(n, n)]) else ranges_add_from [] n rs)"

fun ranges_merge :: "range list \<Rightarrow> range list" where
  "ranges_merge [] = []"
| "ranges_merge [r] = [r]"
| "ranges_merge ((f, l) # (f2, l2) # rs) =
     (if l + 1 = f2 then (f, l2) # ranges_merge rs else (f, l) # ranges_merge ((f2, l2) # rs))"

definition ranges_missing :: "range list \<Rightarrow> u32 \<Rightarrow> u32 list" where
  "ranges_missing rs m = filter (\<lambda>n. \<not> ranges_check rs n) (map of_nat [0..<unat m])"

subsection \<open>Well-formed range lists and the set they cover\<close>

definition seqs :: "range list \<Rightarrow> u32 set" where
  "seqs rs = {n. ranges_check rs n}"

definition ranges_ok :: "range list \<Rightarrow> bool" where
  "ranges_ok rs \<longleftrightarrow> sorted_wrt (\<lambda>a b. snd a < fst b) rs \<and> (\<forall>r \<in> set rs. fst r \<le> snd r \<and> snd r \<noteq> - 1)"

lemma seqs_Nil [simp]: "seqs [] = {}"
  by (simp add: seqs_def ranges_check_def)

lemma seqs_Cons [simp]: "seqs (r # rs) = {fst r..snd r} \<union> seqs rs"
  by (auto simp: seqs_def ranges_check_def covers_def)

lemma seqs_append [simp]: "seqs (rs @ rs') = seqs rs \<union> seqs rs'"
  by (auto simp: seqs_def ranges_check_def)

lemma ranges_check_iff: "ranges_check rs n \<longleftrightarrow> n \<in> seqs rs"
  by (simp add: seqs_def)

lemma in_seqs: "n \<in> seqs rs \<longleftrightarrow> (\<exists>r \<in> set rs. fst r \<le> n \<and> n \<le> snd r)"
  by (auto simp: seqs_def ranges_check_def covers_def list_ex_iff)

lemma ranges_ok_Nil [simp]: "ranges_ok []"
  by (simp add: ranges_ok_def)

lemma ranges_ok_Cons: "ranges_ok (r # rs) \<longleftrightarrow>
    fst r \<le> snd r \<and> snd r \<noteq> - 1 \<and> (\<forall>r' \<in> set rs. snd r < fst r') \<and> ranges_ok rs"
  by (auto simp: ranges_ok_def)

lemma ranges_ok_append: "ranges_ok (rs @ rs') \<longleftrightarrow>
    ranges_ok rs \<and> ranges_ok rs' \<and> (\<forall>r \<in> set rs. \<forall>r' \<in> set rs'. snd r < fst r')"
  by (auto simp: ranges_ok_def sorted_wrt_append)

lemma ranges_ok_no_max: "ranges_ok rs \<Longrightarrow> - 1 \<notin> seqs rs"
  by (auto simp: in_seqs ranges_ok_def word_order.extremum_unique)

subsection \<open>Successors of 32-bit numbers\<close>

lemma unat_succ: "l \<noteq> - 1 \<Longrightarrow> unat (l + 1) = Suc (unat (l :: u32))"
  using unatSuc [of l] by (simp add: add.commute eq_neg_iff_add_eq_0)

lemma succ_eq: "l \<noteq> - 1 \<Longrightarrow> l + 1 = n \<longleftrightarrow> unat n = Suc (unat (l :: u32))"
  using unat_succ [of l] by (auto simp: word_unat_eq_iff)

lemma pred_eq: "f \<noteq> 0 \<Longrightarrow> f - 1 = n \<longleftrightarrow> unat f = Suc (unat (n :: u32))"
  by unat_arith

lemma pred_eq_iff: "n \<noteq> - 1 \<Longrightarrow> f - 1 = n \<longleftrightarrow> unat f = Suc (unat (n :: u32))"
  using pred_eq [of f n] by (cases "f = 0") auto

lemmas word_nat = word_less_nat_alt word_le_nat_alt

lemma pred_neq: "f \<le> l \<Longrightarrow> l < n \<Longrightarrow> n \<noteq> - 1 \<Longrightarrow> f - 1 \<noteq> (n :: u32)"
  by (simp add: pred_eq_iff word_nat)

lemma below_next: "l \<noteq> - 1 \<Longrightarrow> l + 1 = n \<Longrightarrow> l < f \<Longrightarrow> n \<noteq> f \<Longrightarrow> n < (f :: u32)"
  using word_unat_eq_iff [of n f] by (auto simp: succ_eq word_nat)

lemma less_succ: "l \<noteq> - 1 \<Longrightarrow> l + 1 = n \<Longrightarrow> l < (n :: u32)"
  by (auto simp: succ_eq word_nat)

lemma Icc_join: "l \<noteq> - 1 \<Longrightarrow> l + 1 = f2 \<Longrightarrow> f \<le> l \<Longrightarrow> f2 \<le> l2 \<Longrightarrow>
    {f..l2} = {f..l} \<union> {f2..(l2 :: u32)}"
  by (auto simp: succ_eq) (auto simp: word_nat)

lemma Icc_snoc: "l \<noteq> - 1 \<Longrightarrow> l + 1 = n \<Longrightarrow> f \<le> l \<Longrightarrow> {f..n} = insert n {f..(l :: u32)}"
  using Icc_join [of l n f n] by auto

lemma Icc_cons: "n \<noteq> - 1 \<Longrightarrow> n + 1 = f \<Longrightarrow> f \<le> l \<Longrightarrow> {n..l} = insert n {f..(l :: u32)}"
  using Icc_join [of n f n l] by auto

subsection \<open>Adding a number\<close>

text \<open>A number that fills the gap between two ranges.\<close>

lemma Icc_fill:
  assumes "l \<noteq> - 1" "l + 1 = n" "f \<le> l" "n \<noteq> - 1" "n + 1 = f2" "n < f2" "f2 \<le> l2"
  shows "{f..l2} = insert n ({f..l} \<union> {f2..l2 :: u32})"
  using Icc_join [OF assms(4) _ order_refl assms(7)] Icc_join [OF assms(1,2,3), of l2] assms(5-7) by auto

lemma ranges_add_from_above:
  assumes "ranges_ok (pre @ (f, l) # rs)" "l < n" "n \<notin> seqs (pre @ (f, l) # rs)" "n \<noteq> - 1"
  shows "\<exists>rs'. ranges_add_from pre n ((f, l) # rs) = (True, rs') \<and> ranges_ok rs'
    \<and> seqs rs' = insert n (seqs (pre @ (f, l) # rs))"
  using assms(1-3)
proof (induction rs arbitrary: pre f l)
  case Nil
  then have l: "l \<noteq> - 1" "f \<le> l" by (auto simp: ranges_ok_append ranges_ok_Cons)
  have fn: "f - 1 \<noteq> n" by (rule pred_neq [OF l(2) Nil.prems(2) assms(4)])
  show ?case
  proof (cases "l + 1 = n")
    case True
    then show ?thesis using Nil l assms(4) Icc_snoc [OF l(1) True l(2)]
      by (auto simp: ranges_ok_append ranges_ok_Cons)
  next
    case False
    then show ?thesis using Nil l fn assms(4)
      by (auto simp: ranges_ok_append ranges_ok_Cons)
  qed
next
  case (Cons r rs)
  obtain f2 l2 where r: "r = (f2, l2)" by (cases r)
  with Cons.prems assms(4) have l: "l \<noteq> - 1" "f \<le> l" "l < f2" "f2 \<le> l2" "l2 \<noteq> - 1"
    by (auto simp: ranges_ok_append ranges_ok_Cons)
  have fn: "f - 1 \<noteq> n" by (rule pred_neq [OF l(2) Cons.prems(2) assms(4)])
  note ok = Cons.prems(1) [unfolded r ranges_ok_append ranges_ok_Cons]
  show ?case
  proof (cases "l + 1 = n")
    case True
    have n: "n < f2" using True l Cons.prems(3) r by (auto intro: below_next)
    show ?thesis
    proof (cases "f2 - 1 = n")
      case True
      then have "{f..l2} = insert n ({f..l} \<union> {f2..l2})" using Icc_fill [OF l(1) \<open>l + 1 = n\<close> l(2) assms(4) _ n l(4)] by auto
      moreover have "ranges_ok (pre @ (f, l2) # rs)" using ok l n by (auto simp: ranges_ok_append ranges_ok_Cons)
      ultimately show ?thesis using True \<open>l + 1 = n\<close> r by auto
    next
      case False
      have "ranges_ok (pre @ (f, n) # r # rs)"
        using ok l n r less_succ [OF l(1) True] assms(4) by (auto simp: ranges_ok_append ranges_ok_Cons)
      then show ?thesis using False True r Icc_snoc [OF l(1) True l(2)] by auto
    qed
  next
    case False
    show ?thesis
    proof (cases "n < f2")
      case True
      have "ranges_ok (pre @ (f, l) # (n, n) # r # rs)"
        using ok True r l assms(4) Cons.prems(2) by (auto simp: ranges_ok_append ranges_ok_Cons)
      then show ?thesis using True False r l fn Cons.prems(2) by auto
    next
      case ge: False
      then have "l2 < n" using Cons.prems(3) r by auto
      with Cons.IH [of "pre @ [(f, l)]" f2 l2] Cons.prems r ge False l fn show ?thesis by auto
    qed
  qed
qed

lemma ranges_add_from_below:
  assumes "\<forall>r \<in> set rs. n < fst r \<and> fst r \<le> snd r \<and> snd r \<noteq> - 1 \<and> fst r - 1 \<noteq> n"
  shows "ranges_add_from pre n rs = (False, pre @ rs)"
  using assms
proof (induction rs arbitrary: pre)
  case Nil
  then show ?case by simp
next
  case (Cons r rs)
  obtain f l where r: "r = (f, l)" by (cases r)
  have "l + 1 \<noteq> n" using Cons.prems r less_succ [of l n] by auto
  moreover have "\<not> l < n" using Cons.prems r by auto
  moreover have "f - 1 \<noteq> n" using Cons.prems r by auto
  moreover have "ranges_add_from (pre @ [(f, l)]) n rs = (False, pre @ r # rs)"
    using Cons r by simp
  ultimately show ?case
    unfolding r by (subst ranges_add_from.simps(2)) (auto simp del: ranges_add_from.simps split: list.split)
qed

lemma ranges_add_result:
  assumes "ranges_ok rs" "n \<noteq> - 1"
  shows "\<exists>rs'. ranges_add n rs = (n \<notin> seqs rs \<and> (rs = [] \<or> \<not> n + 1 < fst (hd rs)), rs') \<and> ranges_ok rs'
    \<and> (if n \<notin> seqs rs \<and> (rs = [] \<or> \<not> n + 1 < fst (hd rs)) then seqs rs' = insert n (seqs rs) else rs' = rs)"
proof (cases "n \<in> seqs rs \<or> rs = []")
  case True
  then show ?thesis using assms by (auto simp: ranges_add_def ranges_check_iff ranges_ok_Cons)
next
  case False
  then obtain f l rs1 where rs: "rs = (f, l) # rs1" by (cases rs) auto
  with assms have ok: "f \<le> l" "l \<noteq> - 1" "\<forall>r \<in> set rs1. l < fst r" "ranges_ok rs1"
    by (auto simp: ranges_ok_Cons)
  have start: "ranges_add n rs = ranges_add_from [] n rs"
    using False by (simp add: ranges_add_def ranges_check_iff)
  consider "l < n" | "n < f" "f - 1 = n" | "n < f" "f - 1 \<noteq> n" using False rs by fastforce
  then show ?thesis
  proof cases
    case 1
    then have "\<not> n + 1 < f" using ok(1) unat_succ [OF assms(2)] by (simp add: word_nat)
    with 1 show ?thesis
      using ranges_add_from_above [of "[]" f l rs1 n] assms False rs start by auto
  next
    case 2
    then have nf: "n + 1 = f" by auto
    have "l + 1 \<noteq> n" using 2 ok less_succ [of l n] by auto
    moreover have "n \<le> l" using 2 ok by simp
    moreover have "{n..l} = insert n {f..l}" by (rule Icc_cons [OF assms(2) nf ok(1)])
    ultimately show ?thesis using 2 ok nf rs False start by (auto simp: ranges_ok_Cons)
  next
    case 3
    have "n + 1 \<noteq> f" using 3 by auto
    then have nf: "n + 1 < f" using 3 below_next [OF assms(2), of "n + 1" f] by auto
    have "fst r - 1 \<noteq> n" if "r \<in> set rs1" for r
      using that ok 3(1) assms(2) by (auto simp: pred_eq_iff word_nat)
    then have "ranges_add_from [] n rs = (False, [] @ rs)"
      using 3 ok rs by (intro ranges_add_from_below) (auto simp: ranges_ok_def)
    with nf rs start assms(1) show ?thesis by auto
  qed
qed

subsection \<open>Merging adjacent ranges\<close>

lemma ranges_merge_props:
  "ranges_ok rs \<Longrightarrow> ranges_ok (ranges_merge rs) \<and> seqs (ranges_merge rs) = seqs rs
     \<and> (\<forall>m. (\<forall>r \<in> set rs. m < fst r) \<longrightarrow> (\<forall>r \<in> set (ranges_merge rs). m < fst r))"
proof (induction rs rule: ranges_merge.induct)
  case (3 f l f2 l2 rs)
  then have ok: "f \<le> l" "l \<noteq> - 1" "l < f2" "\<forall>r \<in> set rs. l < fst r" "ranges_ok ((f2, l2) # rs)"
      "f2 \<le> l2" "l2 \<noteq> - 1" "\<forall>r \<in> set rs. l2 < fst r" "ranges_ok rs"
    by (auto simp: ranges_ok_Cons)
  show ?case
  proof (cases "l + 1 = f2")
    case True
    from "3.IH"(1) [OF True ok(9)] Icc_join [OF ok(2) True ok(1) ok(6)] True ok show ?thesis
      by (auto simp: ranges_ok_Cons)
  next
    case False
    from "3.IH"(2) [OF False ok(5)] False ok show ?thesis
      by (auto simp: ranges_ok_Cons)
  qed
qed (auto simp: ranges_ok_Cons)

lemma length_ranges_merge: "length (ranges_merge rs) \<le> length rs"
  by (induction rs rule: ranges_merge.induct) auto

definition ranges_done :: "u32 \<Rightarrow> range list \<Rightarrow> bool" where
  "ranges_done e rs \<longleftrightarrow> ranges_merge rs = [(0, e)]"

lemma ranges_done_seqs: "ranges_ok rs \<Longrightarrow> ranges_done e rs \<Longrightarrow> seqs rs = {0..e}"
  using ranges_merge_props [of rs] by (auto simp: ranges_done_def)

lemma interval_head_joined:
  assumes "ranges_ok ((f, l) # (f2, l2) # rs)" "seqs ((f, l) # (f2, l2) # rs) = {0..e}"
  shows "l + 1 = f2"
proof -
  have ok: "l \<noteq> - 1" "l < f2" "f2 \<le> l2" "\<forall>r \<in> set rs. l2 < fst r"
    using assms(1) by (auto simp: ranges_ok_Cons)
  have "f2 \<in> {0..e}" using ok unfolding assms(2) [symmetric] by auto
  moreover have "l + 1 \<le> f2" using ok unat_succ [OF ok(1)] by (simp add: word_nat)
  ultimately have "l + 1 \<in> seqs ((f, l) # (f2, l2) # rs)" unfolding assms(2) by auto
  moreover have "\<not> l + 1 \<le> l" using unat_succ [OF ok(1)] by (simp add: word_nat)
  moreover obtain r where r: "r \<in> set ((f, l) # (f2, l2) # rs)" "fst r \<le> l + 1" "l + 1 \<le> snd r"
    using \<open>l + 1 \<in> _\<close> unfolding in_seqs by blast
  ultimately have "r \<in> set ((f2, l2) # rs)" by auto
  then have "f2 \<le> l + 1" using ok r(2) by fastforce
  with \<open>l + 1 \<le> f2\<close> show ?thesis by simp
qed

text \<open>
  One pass joins every other pair at best, so completion may take several passes; a list that
  covers an initial interval is down to one range after fewer passes than it has ranges.
\<close>

lemma ranges_merge_iterate:
  "ranges_ok rs \<Longrightarrow> seqs rs = {0..e} \<Longrightarrow> length rs \<le> Suc k \<Longrightarrow> (ranges_merge ^^ k) rs = [(0, e)]"
proof (induction k arbitrary: rs)
  case 0
  moreover have "rs \<noteq> []" using 0 by auto
  ultimately obtain f l where rs: "rs = [(f, l)]" by (cases rs) auto
  then have "f \<le> l" "{f..l} = {0..e}" using 0 by (auto simp: ranges_ok_Cons)
  then show ?case using rs by simp
next
  case (Suc k)
  have "length (ranges_merge rs) \<le> Suc k"
  proof (cases rs rule: ranges_merge.cases)
    case (3 f l f2 l2 rs')
    then have "l + 1 = f2" using interval_head_joined [of f l f2 l2 rs' e] Suc.prems by simp
    then show ?thesis using 3 Suc.prems(3) length_ranges_merge [of rs'] by simp
  qed (use Suc.prems in auto)
  then have "(ranges_merge ^^ k) (ranges_merge rs) = [(0, e)]"
    using ranges_merge_props [OF Suc.prems(1)] Suc.prems(2) by (intro Suc.IH) auto
  then show ?case by (simp add: funpow_swap1)
qed

subsection \<open>Missing numbers\<close>

lemma set_ranges_missing: "set (ranges_missing rs m) = {n. n < m \<and> n \<notin> seqs rs}"
proof -
  have "n \<in> of_nat ` {0..<unat m} \<longleftrightarrow> n < m" for n
  proof
    assume "n < m"
    then have "unat n \<in> {0..<unat m}" by (simp add: word_nat)
    then have "of_nat (unat n) \<in> (of_nat ` {0..<unat m} :: u32 set)" by (rule imageI)
    then show "n \<in> of_nat ` {0..<unat m}" by simp
  next
    assume "n \<in> of_nat ` {0..<unat m}"
    then obtain k where k: "n = of_nat k" "k < unat m" by auto
    moreover have "k < 2 ^ LENGTH(32)" using k(2) unsigned_less [of m] by (rule order_less_trans)
    ultimately have "unat n = k" by (metis of_nat_inverse)
    with k show "n < m" by (simp add: word_nat)
  qed
  then show ?thesis by (auto simp: ranges_missing_def ranges_check_iff)
qed

lemma ranges_missing_ascending: "sorted_wrt (<) (ranges_missing rs m)"
proof -
  have "k < 2 ^ LENGTH(32)" if "k < unat m" for k
    using that unsigned_less [of m] by (rule order_less_trans)
  then have u: "k < unat m \<Longrightarrow> unat (of_nat k :: u32) = k" for k by (simp add: of_nat_inverse)
  have "sorted_wrt (<) (map of_nat [0..<unat m] :: u32 list)"
    unfolding sorted_wrt_map
    by (rule sorted_wrt_mono_rel [OF _ sorted_wrt_upt]) (auto simp: u word_nat)
  then show ?thesis by (simp add: ranges_missing_def sorted_wrt_filter)
qed

lemma ranges_ok_length: "ranges_ok rs \<Longrightarrow> length rs < 2 ^ 32"
proof -
  assume ok: "ranges_ok rs"
  then have "distinct (map fst rs)"
    by (induction rs) (fastforce simp: ranges_ok_Cons)+
  then have "length rs = card (set (map fst rs))"
    using distinct_card [of "map fst rs"] by (simp only: length_map)
  also have "\<dots> \<le> card (UNIV - {- 1 :: u32})"
    using ok by (intro card_mono) (auto simp: ranges_ok_def word_order.extremum_unique)
  also have "\<dots> < 2 ^ 32" by (simp add: card_Diff_singleton card_word)
  finally show ?thesis .
qed

lemma ranges_first: "ranges_ok rs \<Longrightarrow> m \<in> seqs rs \<Longrightarrow> \<forall>x \<in> seqs rs. m \<le> x \<Longrightarrow> fst (hd rs) = m"
proof (cases rs)
  case (Cons r rs')
  assume ok: "ranges_ok rs" and m: "m \<in> seqs rs" "\<forall>x \<in> seqs rs. m \<le> x"
  have "fst r \<in> seqs rs" using ok Cons by (simp add: ranges_ok_Cons)
  then have "m \<le> fst r" using m(2) by blast
  moreover obtain r' where "r' \<in> set rs" "fst r' \<le> m" using m(1) in_seqs by blast
  then have "fst r \<le> m" using ok Cons by (force simp: ranges_ok_Cons)
  ultimately show ?thesis using Cons by simp
qed simp

subsection \<open>The interface of a set of sequence numbers\<close>

text \<open>
  What the sequencing thread relies on: \<open>add\<close> and \<open>check\<close> of a sequencer act on its ranges,
  and an addition allocates at most two blocks (\<open>room\<close> is the number of allocations left).
\<close>

fun add_all :: "('s \<Rightarrow> 'q \<Rightarrow> u32 \<Rightarrow> bool \<Rightarrow> (bool \<times> 'q \<times> 's) option) \<Rightarrow> 's \<Rightarrow> 'q \<Rightarrow> u32 list \<Rightarrow> ('q \<times> 's) option" where
  "add_all add s q [] = Some (q, s)"
| "add_all add s q (n # ns) = do {
     (_, q, s) \<leftarrow> add s q n False;
     add_all add s q ns
   }"

locale sequence_set =
  fixes rep :: "'s \<Rightarrow> 'q \<Rightarrow> range list \<Rightarrow> bool"
    and room :: "'s \<Rightarrow> nat"
    and add :: "'s \<Rightarrow> 'q \<Rightarrow> u32 \<Rightarrow> bool \<Rightarrow> (bool \<times> 'q \<times> 's) option"
    and check :: "'s \<Rightarrow> 'q \<Rightarrow> u32 \<Rightarrow> bool option"
  assumes add_law: "rep s q rs \<Longrightarrow> 1 < room s \<Longrightarrow> \<exists>q' s'. add s q n b = Some (fst (ranges_add n rs), q', s')
      \<and> rep s' q' (snd (ranges_add n rs)) \<and> room s - 2 \<le> room s'"
    and check_law: "rep s q rs \<Longrightarrow> check s q n = Some (ranges_check rs n)"
begin

lemma add_set:
  assumes "rep s q rs" "ranges_ok rs" "1 < room s" "n \<noteq> - 1" "rs = [] \<or> \<not> n + 1 < fst (hd rs)"
  shows "\<exists>q' s' rs'. add s q n b = Some (n \<notin> seqs rs, q', s') \<and> rep s' q' rs' \<and> ranges_ok rs'
    \<and> seqs rs' = insert n (seqs rs) \<and> room s - 2 \<le> room s'"
proof -
  obtain rs' where rs': "ranges_add n rs = (n \<notin> seqs rs, rs')" "ranges_ok rs'"
      "seqs rs' = insert n (seqs rs)"
    using ranges_add_result [OF assms(2,4)] assms(5) by (auto simp: insert_absorb split: if_splits)
  from add_law [OF assms(1,3), of n b] rs' show ?thesis by auto
qed

lemma add_all_set:
  assumes "rep s q rs" "ranges_ok rs" "m \<in> seqs rs" "\<forall>x \<in> seqs rs. m \<le> x"
    "\<forall>n \<in> set ns. m \<le> n \<and> n \<noteq> - 1" "2 * length ns \<le> room s"
  shows "\<exists>q' s' rs'. add_all add s q ns = Some (q', s') \<and> rep s' q' rs' \<and> ranges_ok rs'
    \<and> seqs rs' = seqs rs \<union> set ns \<and> room s - 2 * length ns \<le> room s'"
  using assms
proof (induction ns arbitrary: s q rs)
  case (Cons n ns)
  have "n \<noteq> - 1" "m \<le> n" using Cons.prems(5) by auto
  then have "\<not> n + 1 < fst (hd rs)"
    using ranges_first [OF Cons.prems(2-4)] unat_succ [of n] by (simp add: word_nat)
  then obtain q1 s1 rs1 where s1: "add s q n False = Some (n \<notin> seqs rs, q1, s1)" "rep s1 q1 rs1" "ranges_ok rs1"
      "seqs rs1 = insert n (seqs rs)" "room s - 2 \<le> room s1"
    using add_set [OF Cons.prems(1,2), of n False] \<open>n \<noteq> - 1\<close> Cons.prems(6) by auto
  have mem: "m \<in> seqs rs1" and min: "\<forall>x \<in> seqs rs1. m \<le> x" using Cons.prems(3,4) s1(4) \<open>m \<le> n\<close> by auto
  have later: "\<forall>n \<in> set ns. m \<le> n \<and> n \<noteq> - 1" using Cons.prems(5) by simp
  have room: "2 * length ns \<le> room s1" using Cons.prems(6) s1(5) by simp
  obtain q' s' rs' where "add_all add s1 q1 ns = Some (q', s')" "rep s' q' rs'" "ranges_ok rs'"
      "seqs rs' = seqs rs1 \<union> set ns" "room s1 - 2 * length ns \<le> room s'"
    using Cons.IH [OF s1(2,3) mem min later room] by blast
  with s1 show ?case by auto
qed auto

text \<open>Whatever the numbers are, the representation is kept.\<close>

lemma add_all_rep:
  "rep s q rs \<Longrightarrow> 2 * length ns \<le> room s \<Longrightarrow> \<exists>q' s' rs'. add_all add s q ns = Some (q', s') \<and> rep s' q' rs'"
proof (induction ns arbitrary: s q rs)
  case (Cons n ns)
  then obtain q1 s1 where s1: "add s q n False = Some (fst (ranges_add n rs), q1, s1)"
      "rep s1 q1 (snd (ranges_add n rs))" "room s - 2 \<le> room s1"
    using add_law [OF Cons.prems(1), of n False] by auto
  have "2 * length ns \<le> room s1" using Cons.prems(2) s1(3) by simp
  from Cons.IH [OF s1(2) this] s1(1) show ?case by auto
qed auto

text \<open>From the empty set, in any order that starts with the smallest number.\<close>

lemma add_all_fresh:
  assumes "rep s q []" "\<forall>n \<in> set (m # ns). m \<le> n \<and> n \<noteq> - 1" "2 * length (m # ns) \<le> room s"
  shows "\<exists>q' s' rs'. add_all add s q (m # ns) = Some (q', s') \<and> rep s' q' rs' \<and> ranges_ok rs'
    \<and> seqs rs' = set (m # ns) \<and> (\<forall>n. check s' q' n = Some (n \<in> set (m # ns)))
    \<and> room s - 2 * length (m # ns) \<le> room s'"
proof -
  obtain q1 s1 rs1 where s1: "add s q m False = Some (True, q1, s1)" "rep s1 q1 rs1" "ranges_ok rs1"
      "seqs rs1 = {m}" "room s - 2 \<le> room s1"
    using add_set [OF assms(1), of m False] assms(2,3) by auto
  have room: "2 * length ns \<le> room s1" using assms(3) s1(5) by simp
  obtain q' s' rs' where "add_all add s1 q1 ns = Some (q', s')" "rep s' q' rs'" "ranges_ok rs'"
      "seqs rs' = insert m (set ns)" "room s1 - 2 * length ns \<le> room s'"
    using add_all_set [OF s1(2,3), of m ns] assms(2) s1(4) room by auto
  with s1 show ?thesis by (auto simp: check_law ranges_check_iff)
qed

end

end
