(* ===== verification/Sequencer.thy ===== *)
theory Sequencer
  imports Linked_List Ranges
begin

text \<open>
  \<open>sequencer.h\<close> and \<open>sequencer.c\<close>: the set of sequence numbers that have arrived, kept as a
  linked list of ranges \<open>first..last\<close>. The operations work on memory: list elements in \<open>elems\<close>,
  \<open>sequencer_item_t\<close> objects in \<open>items\<close>. The second half of the theory says what they
  compute: on a list of ranges (\<open>ranges_*\<close>), and on the set of sequence numbers.
\<close>

subsection \<open>State\<close>

record sequencer_item =
  firstSeqNo :: u32
  lastSeqNo :: u32

record seq_mem = mem +
  items :: "addr \<rightharpoonup> sequencer_item"

text \<open>\<open>sequencer_t\<close>; its embedded list is named by the address of its anchor.\<close>

record sequencer =
  seq :: addr
  maxSeqNo :: u32
  expectedLastSeqNo :: u32

definition set_firstSeqNo :: "addr \<Rightarrow> u32 \<Rightarrow> seq_mem \<Rightarrow> seq_mem option" where
  "set_firstSeqNo p v s = (case items s p of None \<Rightarrow> None
     | Some i \<Rightarrow> Some (s\<lparr>items := (items s)(p \<mapsto> i\<lparr>firstSeqNo := v\<rparr>)\<rparr>))"

definition set_lastSeqNo :: "addr \<Rightarrow> u32 \<Rightarrow> seq_mem \<Rightarrow> seq_mem option" where
  "set_lastSeqNo p v s = (case items s p of None \<Rightarrow> None
     | Some i \<Rightarrow> Some (s\<lparr>items := (items s)(p \<mapsto> i\<lparr>lastSeqNo := v\<rparr>)\<rparr>))"

definition free_item :: "addr \<Rightarrow> seq_mem \<Rightarrow> seq_mem option" where
  "free_item p s = (if p = NULL then Some s else if items s p = None then None
     else Some (s\<lparr>items := (items s)(p := None)\<rparr>))"

subsection \<open>The operations of sequencer.c\<close>

definition sequencer_init :: "seq_mem \<Rightarrow> (sequencer option \<times> seq_mem) option" where
  "sequencer_init s = (case malloc_elem s of (p, s) \<Rightarrow>
     if p = NULL then Some (None, s)
     else do {
       let s = s\<lparr>members := (members s)(p := 0)\<rparr>;
       (_, s) \<leftarrow> LinkedListInit s p;
       Some (Some \<lparr>seq = p, maxSeqNo = 0, expectedLastSeqNo = -1\<rparr>, s)
     })"

definition create_sequencer_range :: "u32 \<Rightarrow> u32 \<Rightarrow> seq_mem \<Rightarrow> addr \<times> seq_mem" where
  "create_sequencer_range first_seq last_seq s = (case malloc s of (p, s) \<Rightarrow>
     (p, if p = NULL then s
         else s\<lparr>items := (items s)(p \<mapsto> \<lparr>firstSeqNo = first_seq, lastSeqNo = last_seq\<rparr>)\<rparr>))"

partial_function (option) check_loop :: "seq_mem \<Rightarrow> addr \<Rightarrow> u32 \<Rightarrow> addr \<Rightarrow> bool option" where
  "check_loop s L seqNo elem =
     (if elem = NULL then Some False
      else do {
        e \<leftarrow> elems s elem;
        item \<leftarrow> items s (obj e);
        if firstSeqNo item \<le> seqNo \<and> seqNo \<le> lastSeqNo item then Some True
        else do {
          n \<leftarrow> LinkedListNext s L elem;
          check_loop s L seqNo n
        }
      })"

definition sequencer_check :: "seq_mem \<Rightarrow> sequencer \<Rightarrow> u32 \<Rightarrow> bool option" where
  "sequencer_check s q seqNo = do {
     elem \<leftarrow> LinkedListFirst s (seq q);
     check_loop s (seq q) seqNo elem
   }"

text \<open>The loop of \<open>sequencer_add\<close>, one iteration per element.\<close>

partial_function (option) add_loop :: "seq_mem \<Rightarrow> addr \<Rightarrow> u32 \<Rightarrow> addr \<Rightarrow> (bool \<times> seq_mem) option" where
  "add_loop s L seqNo elem =
     (if elem = NULL then Some (False, s)
      else do {
        e \<leftarrow> elems s elem;
        item \<leftarrow> items s (obj e);
        if lastSeqNo item + 1 = seqNo then do {
          s \<leftarrow> set_lastSeqNo (obj e) seqNo s;
          nextElem \<leftarrow> LinkedListNext s L elem;
          if nextElem \<noteq> NULL then do {
            ne \<leftarrow> elems s nextElem;
            nextItem \<leftarrow> items s (obj ne);
            item \<leftarrow> items s (obj e);
            if firstSeqNo nextItem - 1 = lastSeqNo item then do {
              s \<leftarrow> set_lastSeqNo (obj e) (lastSeqNo nextItem) s;
              s \<leftarrow> LinkedListUnlink s L nextElem;
              s \<leftarrow> free_item (obj ne) s;
              Some (True, s)
            } else Some (True, s)
          } else Some (True, s)
        }
        else if firstSeqNo item - 1 = seqNo then do {
          s \<leftarrow> set_firstSeqNo (obj e) seqNo s;
          prevElem \<leftarrow> LinkedListPrev s L elem;
          if prevElem \<noteq> NULL then do {
            pe \<leftarrow> elems s prevElem;
            prevItem \<leftarrow> items s (obj pe);
            item \<leftarrow> items s (obj e);
            if lastSeqNo prevItem + 1 = firstSeqNo item then do {
              s \<leftarrow> set_firstSeqNo (obj e) (firstSeqNo prevItem) s;
              s \<leftarrow> LinkedListUnlink s L prevElem;
              s \<leftarrow> free_item (obj pe) s;
              Some (True, s)
            } else Some (True, s)
          } else Some (True, s)
        }
        else do {
          nextElem \<leftarrow> LinkedListNext s L elem;
          if nextElem \<noteq> NULL then do {
            ne \<leftarrow> elems s nextElem;
            nextItem \<leftarrow> items s (obj ne);
            if lastSeqNo item < seqNo \<and> seqNo < firstSeqNo nextItem then
              (case create_sequencer_range seqNo seqNo s of (new, s) \<Rightarrow> do {
                (_, s) \<leftarrow> LinkedListInsertBefore s L new nextElem;
                Some (True, s)
              })
            else do {
              n \<leftarrow> LinkedListNext s L elem;
              add_loop s L seqNo n
            }
          } else if lastSeqNo item < seqNo then
            (case create_sequencer_range seqNo seqNo s of (new, s) \<Rightarrow> do {
              (_, s) \<leftarrow> LinkedListAppend s L new;
              Some (True, s)
            })
          else do {
            n \<leftarrow> LinkedListNext s L elem;
            add_loop s L seqNo n
          }
        }
      })"

definition sequencer_add ::
    "seq_mem \<Rightarrow> sequencer \<Rightarrow> u32 \<Rightarrow> bool \<Rightarrow> (bool \<times> sequencer \<times> seq_mem) option" where
  "sequencer_add s q seqNo isLast = do {
     let q = (if isLast then q\<lparr>expectedLastSeqNo := seqNo, maxSeqNo := seqNo\<rparr>
              else if maxSeqNo q < seqNo then q\<lparr>maxSeqNo := seqNo\<rparr> else q);
     present \<leftarrow> sequencer_check s q seqNo;
     if present then Some (False, q, s)
     else do {
       empty \<leftarrow> LinkedListEmpty s (seq q);
       if empty then
         (case create_sequencer_range seqNo seqNo s of (new, s) \<Rightarrow> do {
           (_, s) \<leftarrow> LinkedListAppend s (seq q) new;
           Some (True, q, s)
         })
       else do {
         elem \<leftarrow> LinkedListFirst s (seq q);
         (r, s) \<leftarrow> add_loop s (seq q) seqNo elem;
         Some (r, q, s)
       }
     }
   }"

partial_function (option) complete_loop :: "seq_mem \<Rightarrow> addr \<Rightarrow> addr \<Rightarrow> seq_mem option" where
  "complete_loop s L elem =
     (if elem = NULL then Some s
      else do {
        e \<leftarrow> elems s elem;
        item \<leftarrow> items s (obj e);
        next_elem \<leftarrow> LinkedListNext s L elem;
        s \<leftarrow> (if next_elem \<noteq> NULL then do {
               ne \<leftarrow> elems s next_elem;
               next_item \<leftarrow> items s (obj ne);
               if lastSeqNo item + 1 = firstSeqNo next_item then do {
                 s \<leftarrow> set_lastSeqNo (obj e) (lastSeqNo next_item) s;
                 s \<leftarrow> LinkedListUnlink s L next_elem;
                 free_item (obj ne) s
               } else Some s
             } else Some s);
        n \<leftarrow> LinkedListNext s L elem;
        complete_loop s L n
      })"

definition sequencer_complete :: "seq_mem \<Rightarrow> sequencer \<Rightarrow> (bool \<times> seq_mem) option" where
  "sequencer_complete s q = do {
     empty \<leftarrow> LinkedListEmpty s (seq q);
     if empty then Some (False, s)
     else do {
       elem \<leftarrow> LinkedListFirst s (seq q);
       s \<leftarrow> complete_loop s (seq q) elem;
       len \<leftarrow> LinkedListLength s (seq q);
       if len = 1 then do {
         elem \<leftarrow> LinkedListFirst s (seq q);
         e \<leftarrow> elems s elem;
         item \<leftarrow> items s (obj e);
         Some (firstSeqNo item = 0 \<and> lastSeqNo item = expectedLastSeqNo q, s)
       } else Some (False, s)
     }
   }"

text \<open>The callback of \<open>sequencer_iterate_missing_segments\<close> is a function on its context.\<close>

partial_function (option) missing_loop ::
    "seq_mem \<Rightarrow> sequencer \<Rightarrow> (u32 \<Rightarrow> 'c \<Rightarrow> 'c) \<Rightarrow> u32 \<Rightarrow> 'c \<Rightarrow> 'c option" where
  "missing_loop s q callback req_seq_no ctx =
     (if req_seq_no < maxSeqNo q then do {
        present \<leftarrow> sequencer_check s q req_seq_no;
        let ctx = (if \<not> present then callback req_seq_no ctx else ctx);
        missing_loop s q callback (req_seq_no + 1) ctx
      } else Some ctx)"

definition sequencer_iterate_missing_segments ::
    "seq_mem \<Rightarrow> sequencer \<Rightarrow> (u32 \<Rightarrow> 'c \<Rightarrow> 'c) \<Rightarrow> 'c \<Rightarrow> 'c option" where
  "sequencer_iterate_missing_segments s q callback ctx = do {
     empty \<leftarrow> LinkedListEmpty s (seq q);
     if empty then Some ctx else missing_loop s q callback 0 ctx
   }"

partial_function (option) destroy_loop :: "seq_mem \<Rightarrow> addr \<Rightarrow> addr \<Rightarrow> seq_mem option" where
  "destroy_loop s L elem =
     (if elem = NULL then Some s
      else do {
        e \<leftarrow> elems s elem;
        s \<leftarrow> free_item (obj e) s;
        n \<leftarrow> LinkedListNext s L elem;
        destroy_loop s L n
      })"

definition sequencer_destroy :: "seq_mem \<Rightarrow> sequencer \<Rightarrow> seq_mem option" where
  "sequencer_destroy s q = do {
     elem \<leftarrow> LinkedListFirst s (seq q);
     s \<leftarrow> destroy_loop s (seq q) elem;
     s \<leftarrow> LinkedListUnlinkAll s (seq q);
     free_elem (seq q) s
   }"

subsection \<open>Representation\<close>

text \<open>
  \<open>srep F s L ps rs\<close>: the ring at \<open>L\<close> holds the elements and items \<open>ps\<close>, no item twice, the
  items are the ranges \<open>rs\<close>, the count is right, memory is well formed, and every element and
  item that does not belong to the list is the one of the frame \<open>F\<close>. An operation that keeps
  \<open>srep F\<close> therefore neither touches foreign memory nor leaks or frees a block of its own too much.
\<close>

type_synonym frame = "(addr \<rightharpoonup> ll_elem) \<times> (addr \<rightharpoonup> sequencer_item)"

definition holds :: "(addr \<rightharpoonup> sequencer_item) \<Rightarrow> (addr \<times> addr) list \<Rightarrow> range list \<Rightarrow> bool" where
  "holds I = list_all2 (\<lambda>p r. I (snd p) = Some \<lparr>firstSeqNo = fst r, lastSeqNo = snd r\<rparr>)"

definition outside :: "(addr \<rightharpoonup> 'b) \<Rightarrow> (addr \<rightharpoonup> 'b) \<Rightarrow> addr set \<Rightarrow> bool" where
  "outside F h A \<longleftrightarrow> (\<forall>p. if p \<in> A then F p = None else h p = F p)"

definition srep :: "frame \<Rightarrow> seq_mem \<Rightarrow> addr \<Rightarrow> (addr \<times> addr) list \<Rightarrow> range list \<Rightarrow> bool" where
  "srep F s L ps rs \<longleftrightarrow> dll (elems s) L ps \<and> distinct (map snd ps) \<and> holds (items s) ps rs
     \<and> members s L = of_nat (length ps) \<and> wf_mem s \<and> dom (items s) \<subseteq> {0<..<brk s}
     \<and> outside (fst F) (elems s) (addrs L ps) \<and> outside (snd F) (items s) (set (map snd ps))"

lemma holds_other: "ob \<notin> snd ` set ps \<Longrightarrow> holds (I(ob := x)) ps rs = holds I ps rs"
proof -
  assume "ob \<notin> snd ` set ps"
  then have "p \<in> set ps \<Longrightarrow> (I(ob := x)) (snd p) = I (snd p)" for p by auto
  then show ?thesis unfolding holds_def by (intro list.rel_cong) (auto simp: list_all2_same)
qed

lemma holds_append: "length ps = length rs \<Longrightarrow> holds I (ps @ qs) (rs @ rs') = (holds I ps rs \<and> holds I qs rs')"
  by (simp add: holds_def list_all2_append)

lemma holds_Cons: "holds I (p # ps) rs \<longleftrightarrow>
    (\<exists>f l rs'. rs = (f, l) # rs' \<and> I (snd p) = Some \<lparr>firstSeqNo = f, lastSeqNo = l\<rparr> \<and> holds I ps rs')"
  by (auto simp: holds_def list_all2_Cons1)

lemma holds_Nil [simp]: "holds I [] rs \<longleftrightarrow> rs = []"
  by (simp add: holds_def)

lemma holds_length: "holds I ps rs \<Longrightarrow> length ps = length rs"
  by (simp add: holds_def list_all2_lengthD)

lemma holds_in_dom: "holds I ps rs \<Longrightarrow> (p, ob) \<in> set ps \<Longrightarrow> I ob \<noteq> None"
  by (induction ps arbitrary: rs) (auto simp: holds_Cons)

lemma srep_dll: "srep F s L ps rs \<Longrightarrow> dll (elems s) L ps"
  by (simp add: srep_def)

lemma srep_length: "srep F s L ps rs \<Longrightarrow> length ps = length rs"
  by (auto simp: srep_def dest: holds_length)

lemma wf_mem_items [simp]: "wf_mem (s\<lparr>items := I\<rparr>) = wf_mem (s :: seq_mem)"
  by (simp add: wf_mem_def)

lemma outside_upd: "p \<in> A \<Longrightarrow> outside F (h(p := x)) A = outside F h A"
  by (auto simp: outside_def)

lemma outside_remove: "outside F h A \<Longrightarrow> p \<in> A \<Longrightarrow> E p = None \<Longrightarrow> \<forall>w. w \<notin> insert p A \<longrightarrow> E w = h w \<Longrightarrow>
    outside F E (A - {p})"
  unfolding outside_def by (metis Diff_iff insert_iff singletonD)

lemma outside_add: "outside F h A \<Longrightarrow> h p = None \<Longrightarrow> p \<notin> A \<Longrightarrow> \<forall>w. w \<notin> insert p A \<longrightarrow> E w = h w \<Longrightarrow>
    outside F E (insert p A)"
  unfolding outside_def by (metis insert_iff)

lemma srep_at:
  assumes "srep F s L (ps @ (p, ob) # qs) (rs @ (f, l) # rs')" "length ps = length rs"
  shows "p \<noteq> NULL \<and> (\<exists>e. elems s p = Some e \<and> obj e = ob) \<and> items s ob = Some \<lparr>firstSeqNo = f, lastSeqNo = l\<rparr>
    \<and> ob \<noteq> NULL"
proof -
  have d: "dll (elems s) L (ps @ (p, ob) # qs)" and h: "holds (items s) ((p, ob) # qs) ((f, l) # rs')"
    using assms by (simp_all add: srep_def holds_append)
  then have i: "items s ob = Some \<lparr>firstSeqNo = f, lastSeqNo = l\<rparr>" by (auto simp: holds_Cons)
  moreover have "ob \<noteq> NULL" using i assms(1) by (auto simp: srep_def)
  ultimately show ?thesis using dll_at [OF d] dll_elem_not_NULL [OF d] by blast
qed

lemma srep_set:
  assumes "srep F s L (ps @ (p, ob) # qs) (rs @ (f, l) # rs')" "length ps = length rs"
  shows "\<exists>s'. set_lastSeqNo ob v s = Some s' \<and> srep F s' L (ps @ (p, ob) # qs) (rs @ (f, v) # rs') \<and> avail s' = avail s"
    "\<exists>s'. set_firstSeqNo ob v s = Some s' \<and> srep F s' L (ps @ (p, ob) # qs) (rs @ (v, l) # rs') \<and> avail s' = avail s"
  using srep_at [OF assms] assms
  by (auto simp: set_lastSeqNo_def set_firstSeqNo_def srep_def holds_append holds_Cons holds_other outside_upd)

lemma srep_unlink:
  assumes "srep F s L (ps @ (p, ob) # qs) (rs @ r # rs')" "length ps = length rs"
  shows "\<exists>s1 s2. LinkedListUnlink s L p = Some s1 \<and> free_item ob s1 = Some s2 \<and> srep F s2 L (ps @ qs) (rs @ rs')
    \<and> avail s2 = avail s"
proof -
  obtain f l where r: "r = (f, l)" by (cases r)
  have ob: "items s ob = Some \<lparr>firstSeqNo = f, lastSeqNo = l\<rparr>" "ob \<noteq> NULL"
    using srep_at [of F s L ps p ob qs rs f l rs'] assms r by auto
  have d: "dll (elems s) L (ps @ (p, ob) # qs)" "wf_mem s" using assms(1) by (simp_all add: srep_def)
  have dist: "distinct (L # map fst (ps @ (p, ob) # qs))" using d(1) by (simp add: dll_def)
  obtain s1 where s1: "LinkedListUnlink s L p = Some s1" "dll (elems s1) L (ps @ qs)"
      "ll_removed s L (addrs L (ps @ (p, ob) # qs)) p s1"
    using Unlink_dll [OF d(1)] by blast
  then obtain E where E: "s1 = s\<lparr>elems := E, members := (members s)(L := members s L - 1)\<rparr>"
      "dom E = dom (elems s) - {p}" "\<forall>w. w \<notin> insert p (addrs L (ps @ (p, ob) # qs)) \<longrightarrow> E w = elems s w"
    unfolding ll_removed_def by blast
  define s2 where "s2 = s1\<lparr>items := (items s1)(ob := None)\<rparr>"
  have fr: "free_item ob s1 = Some s2" using ob E by (simp add: free_item_def s2_def)
  have "wf_mem s1" by (rule ll_removed_wf [OF d(2) s1(3)])
  moreover have "outside (fst F) E (addrs L (ps @ (p, ob) # qs) - {p})"
    by (rule outside_remove [OF _ _ _ E(3)]) (use assms(1) E(2) in \<open>auto simp: srep_def\<close>)
  moreover have "addrs L (ps @ (p, ob) # qs) - {p} = addrs L (ps @ qs)" using dist by auto
  moreover have "outside (snd F) ((items s)(ob := None)) (set (map snd (ps @ (p, ob) # qs)) - {ob})"
    by (rule outside_remove [of _ "items s"]) (use assms(1) in \<open>auto simp: srep_def\<close>)
  moreover have "set (map snd (ps @ (p, ob) # qs)) - {ob} = set (map snd (ps @ qs))"
    using assms(1) by (auto simp: srep_def)
  moreover have "holds ((items s)(ob := None)) (ps @ qs) (rs @ rs')" "distinct (map snd (ps @ qs))"
    using assms r by (auto simp: srep_def holds_append holds_Cons holds_other)
  moreover have "dom ((items s)(ob := None)) \<subseteq> {0<..<brk s}" "members s L - 1 = of_nat (length (ps @ qs))"
    using assms(1) by (auto simp: srep_def)
  ultimately have "srep F s2 L (ps @ qs) (rs @ rs')"
    using s1(2) by (simp add: srep_def s2_def E(1) del: list.set map_append length_append)
  moreover have "avail s2 = avail s" by (simp add: s2_def E(1))
  ultimately show ?thesis using s1(1) fr by blast
qed

text \<open>A new item in a new element: what \<open>create_sequencer_range\<close> and an insertion make together.\<close>

lemma create_range_Some: "0 < avail s \<Longrightarrow> 0 < brk s \<Longrightarrow> create_sequencer_range f l s = (brk s,
    s\<lparr>brk := Suc (brk s), avail := avail s - 1, items := (items s)(brk s \<mapsto> \<lparr>firstSeqNo = f, lastSeqNo = l\<rparr>)\<rparr>)"
  by (simp add: create_sequencer_range_def malloc_def)

lemma srep_added:
  assumes "srep F s L (ps @ qs) (rs @ rs')" "length ps = length rs" "1 < avail s"
    and s0: "s0 = s\<lparr>brk := Suc (brk s), avail := avail s - 1,
      items := (items s)(brk s \<mapsto> \<lparr>firstSeqNo = f, lastSeqNo = l\<rparr>)\<rparr>"
    and s1: "ll_added s0 L (addrs L (ps @ qs)) s1" "dll (elems s1) L (ps @ (brk s0, brk s) # qs)"
  shows "srep F s1 L (ps @ (brk s0, brk s) # qs) (rs @ (f, l) # rs') \<and> avail s1 = avail s - 2"
proof -
  note r = assms(1) [unfolded srep_def]
  have fresh: "items s (brk s) = None" "elems s (brk s0) = None"
    using r by (auto simp: s0 wf_mem_def)
  have ob: "brk s \<notin> set (map snd (ps @ qs))"
    using holds_in_dom [of "items s" "ps @ qs" "rs @ rs'"] r fresh(1) by fastforce
  have el: "brk s0 \<notin> addrs L (ps @ qs)"
    using dll_dom [of "elems s" L "ps @ qs" "brk s0"] r fresh(2) by blast
  have "wf_mem s0" using r by (auto simp: s0 wf_mem_def)
  then have wf: "wf_mem s1" by (rule ll_added_wf [OF _ s1(1)])
  obtain E where E: "s1 = s0\<lparr>brk := Suc (brk s0), avail := avail s0 - 1,
      elems := E, members := (members s0)(L := members s0 L + 1)\<rparr>"
      "dom E = insert (brk s0) (dom (elems s0))" "\<forall>p. p \<notin> insert (brk s0) (addrs L (ps @ qs)) \<longrightarrow> E p = elems s0 p"
    using s1(1) unfolding ll_added_def by blast
  have "outside (fst F) E (insert (brk s0) (addrs L (ps @ qs)))"
    by (rule outside_add [of _ "elems s"]) (use r E(3) fresh(2) el in \<open>auto simp: s0\<close>)
  moreover have "insert (brk s0) (addrs L (ps @ qs)) = addrs L (ps @ (brk s0, brk s) # qs)" by auto
  moreover have "outside (snd F) (items s1) (insert (brk s) (set (map snd (ps @ qs))))"
    by (rule outside_add [of _ "items s"]) (use r fresh(1) ob in \<open>auto simp: E(1) s0\<close>)
  moreover have "dom (items s1) \<subseteq> {0<..<brk s1}" using r by (auto simp: E(1) s0 wf_mem_def)
  ultimately show ?thesis
    using r s1(2) fresh(1) ob wf assms(2)
    by (auto simp: srep_def E(1) s0 holds_append holds_Cons holds_other)
qed

lemma srep_avail: "srep F s L ps rs \<Longrightarrow> 0 < brk s" 
  by (simp add: srep_def wf_mem_def)

lemma srep_insert_before:
  assumes "srep F s L (ps @ (q, x) # qs) (rs @ rs')" "length ps = length rs" "1 < avail s"
  shows "\<exists>new s0 s1 ps'. create_sequencer_range f l s = (new, s0)
    \<and> LinkedListInsertBefore s0 L new q = Some (True, s1)
    \<and> srep F s1 L ps' (rs @ (f, l) # rs') \<and> avail s1 = avail s - 2"
proof -
  define s0 where "s0 = s\<lparr>brk := Suc (brk s), avail := avail s - 1,
      items := (items s)(brk s \<mapsto> \<lparr>firstSeqNo = f, lastSeqNo = l\<rparr>)\<rparr>"
  have "wf_mem s0" "dll (elems s0) L (ps @ (q, x) # qs)" "0 < avail s0"
    using assms(1,3) by (auto simp: s0_def srep_def wf_mem_def)
  from InsertBefore_dll [OF this, of "brk s"] srep_added [OF assms s0_def]
    create_range_Some [of s f l] srep_avail [OF assms(1)] assms(3)
  show ?thesis unfolding s0_def [symmetric] by force
qed

lemma srep_append:
  assumes "srep F s L ps rs" "1 < avail s"
  shows "\<exists>new s0 s1 ps'. create_sequencer_range f l s = (new, s0)
    \<and> LinkedListAppend s0 L new = Some (True, s1)
    \<and> srep F s1 L ps' (rs @ [(f, l)]) \<and> avail s1 = avail s - 2"
proof -
  define s0 where "s0 = s\<lparr>brk := Suc (brk s), avail := avail s - 1,
      items := (items s)(brk s \<mapsto> \<lparr>firstSeqNo = f, lastSeqNo = l\<rparr>)\<rparr>"
  have "wf_mem s0" "dll (elems s0) L ps" "0 < avail s0"
    using assms(1,2) by (auto simp: s0_def srep_def wf_mem_def)
  from Append_dll [OF this, of "brk s"] srep_added [of F s L ps "[]" rs "[]", OF _ _ assms(2) s0_def]
    create_range_Some [of s f l] srep_avail [OF assms(1)] assms srep_length [OF assms(1)]
  show ?thesis unfolding s0_def [symmetric] by force
qed

subsection \<open>The operations compute the range functions\<close>

lemma holds_search: "holds I ps rs \<Longrightarrow>
    ll_search (\<lambda>p ob. case I ob of None \<Rightarrow> None
      | Some i \<Rightarrow> if firstSeqNo i \<le> n \<and> n \<le> lastSeqNo i then Some True else None) False ps
    = ranges_check rs n"
  by (induction ps arbitrary: rs) (auto simp: holds_Cons ranges_check_def covers_def split: if_splits)

lemma sequencer_check_ranges: 
  assumes "srep F s (seq q) ps rs"
  shows "sequencer_check s q n = Some (ranges_check rs n)"
proof -
  note d = srep_dll [OF assms] and len = srep_length [OF assms]
  have "(case LinkedListFirst s (seq q) of None \<Rightarrow> None | Some e \<Rightarrow> check_loop s (seq q) n e)
      = Some (ll_search (\<lambda>p ob. case items s ob of None \<Rightarrow> None
          | Some i \<Rightarrow> if firstSeqNo i \<le> n \<and> n \<le> lastSeqNo i then Some True else None) False ps)"
  proof (rule ll.traverse [OF d])
    show "check_loop s (seq q) n NULL = Some False" by (simp add: check_loop.simps)
    fix p ob assume "(p, ob) \<in> set ps"
    then obtain ps1 ps2 where ps: "ps = ps1 @ (p, ob) # ps2" by (auto dest: split_list)
    define k where "k = length ps1"
    have "rs = take k rs @ rs ! k # drop (Suc k) rs" "length ps1 = length (take k rs)"
      using len ps by (simp_all add: k_def id_take_nth_drop)
    with srep_at [of F s "seq q" ps1 p ob ps2 "take k rs" "fst (rs ! k)" "snd (rs ! k)" "drop (Suc k) rs"] assms ps
    show "check_loop s (seq q) n p = (case (case items s ob of None \<Rightarrow> None
          | Some i \<Rightarrow> if firstSeqNo i \<le> n \<and> n \<le> lastSeqNo i then Some True else None) of Some r \<Rightarrow> Some r
        | None \<Rightarrow> (case LinkedListNext s (seq q) p of None \<Rightarrow> None | Some m \<Rightarrow> check_loop s (seq q) n m))"
      by (subst check_loop.simps) (auto split: option.splits bind_splits)
  qed
  then show ?thesis
    using assms First_dll [OF d]
    by (simp add: sequencer_check_def holds_search srep_def)
qed

text \<open>One iteration of \<open>sequencer_add\<close>, by the branch it takes.\<close>

lemma add_loop_extend_last:
  assumes r: "srep F s L (ps @ (p, ob) # qs) (pre @ (f, l) # rs)" and len: "length ps = length pre"
    and n: "l + 1 = n"
  shows "\<exists>s' ps'. add_loop s L n p = Some (True, s') \<and> srep F s' L ps'
      (pre @ (case rs of [] \<Rightarrow> [(f, n)] | (f2, l2) # rs2 \<Rightarrow> if f2 - 1 = n then (f, l2) # rs2 else (f, n) # rs))
    \<and> avail s' = avail s"
proof -
  obtain e where at: "p \<noteq> NULL" "elems s p = Some e" "obj e = ob" "items s ob = Some \<lparr>firstSeqNo = f, lastSeqNo = l\<rparr>"
    using srep_at [OF r len] by blast
  obtain s1 where s1: "set_lastSeqNo ob n s = Some s1" "srep F s1 L (ps @ (p, ob) # qs) (pre @ (f, n) # rs)"
      "avail s1 = avail s"
    using srep_set(1) [OF r len] by blast
  note nx = Next_dll [OF srep_dll [OF s1(2)]]
  have lqs: "length qs = length rs" using srep_length [OF r] len by simp
  show ?thesis
  proof (cases rs)
    case Nil
    then have "add_loop s L n p = Some (True, s1)"
      using at s1(1) nx n lqs by (subst add_loop.simps) simp
    with Nil s1 show ?thesis by auto
  next
    case (Cons r2 rs2)
    obtain f2 l2 where r2: "r2 = (f2, l2)" by (cases r2)
    obtain q ob2 qs2 where qs: "qs = (q, ob2) # qs2" using lqs Cons by (cases qs) auto
    have at1: "items s1 ob = Some \<lparr>firstSeqNo = f, lastSeqNo = n\<rparr>"
      using srep_at [OF s1(2) len] by blast
    obtain e2 where at2: "q \<noteq> NULL" "elems s1 q = Some e2" "obj e2 = ob2"
        "items s1 ob2 = Some \<lparr>firstSeqNo = f2, lastSeqNo = l2\<rparr>"
      using srep_at [of F s1 L "ps @ [(p, ob)]" q ob2 qs2 "pre @ [(f, n)]" f2 l2 rs2] s1(2) len Cons r2 qs by auto
    show ?thesis
    proof (cases "f2 - 1 = n")
      case True
      obtain s2 where s2: "set_lastSeqNo ob l2 s1 = Some s2" "avail s2 = avail s1"
          "srep F s2 L (ps @ (p, ob) # qs) (pre @ (f, l2) # rs)"
        using srep_set(1) [OF s1(2) len] by blast
      then obtain s3 s4 where s3: "LinkedListUnlink s2 L q = Some s3" "free_item ob2 s3 = Some s4"
          "srep F s4 L ((ps @ [(p, ob)]) @ qs2) ((pre @ [(f, l2)]) @ rs2)" "avail s4 = avail s2"
        using srep_unlink [of F s2 L "ps @ [(p, ob)]" q ob2 qs2 "pre @ [(f, l2)]" r2 rs2] len qs Cons by auto
      have "add_loop s L n p = Some (True, s4)"
        using at s1(1) nx n qs at1 at2 s2(1) s3(1,2) True by (subst add_loop.simps) simp
      with True s3 s2 s1 show ?thesis using Cons r2 by auto
    next
      case False
      have "add_loop s L n p = Some (True, s1)"
        using at s1(1) nx n qs at1 at2 False by (subst add_loop.simps) simp
      with False s1 show ?thesis using Cons r2 by auto
    qed
  qed
qed

lemma add_loop_extend_first:
  assumes r: "srep F s L (ps @ (p, ob) # qs) (pre @ (f, l) # rs)" and len: "length ps = length pre"
    and n: "l + 1 \<noteq> n" "f - 1 = n"
  shows "\<exists>s' ps'. add_loop s L n p = Some (True, s') \<and> srep F s' L ps'
      (if pre \<noteq> [] \<and> snd (last pre) + 1 = n then butlast pre @ (fst (last pre), l) # rs else pre @ (n, l) # rs)
    \<and> avail s' = avail s"
proof -
  obtain e where at: "p \<noteq> NULL" "elems s p = Some e" "obj e = ob" "items s ob = Some \<lparr>firstSeqNo = f, lastSeqNo = l\<rparr>"
    using srep_at [OF r len] by blast
  obtain s1 where s1: "set_firstSeqNo ob n s = Some s1" "srep F s1 L (ps @ (p, ob) # qs) (pre @ (n, l) # rs)"
      "avail s1 = avail s"
    using srep_set(2) [OF r len] by blast
  note pv = Prev_dll [OF srep_dll [OF s1(2)]]
  have step: "f - 1 \<noteq> l + 1" using n by auto
  show ?thesis
  proof (cases pre rule: rev_cases)
    case Nil
    then have "add_loop s L n p = Some (True, s1)"
      using at s1(1) pv n step len by (subst add_loop.simps) auto
    with Nil s1 show ?thesis by auto
  next
    case (snoc pre0 r0)
    obtain f0 l0 where r0: "r0 = (f0, l0)" by (cases r0)
    obtain q ob0 ps0 where ps: "ps = ps0 @ [(q, ob0)]" using len snoc by (cases ps rule: rev_cases) auto
    have len0: "length ps0 = length pre0" using len ps snoc by simp
    have at1: "items s1 ob = Some \<lparr>firstSeqNo = n, lastSeqNo = l\<rparr>"
      using srep_at [OF s1(2) len] by blast
    obtain e2 where at2: "q \<noteq> NULL" "elems s1 q = Some e2" "obj e2 = ob0"
        "items s1 ob0 = Some \<lparr>firstSeqNo = f0, lastSeqNo = l0\<rparr>"
      using srep_at [of F s1 L ps0 q ob0 "(p, ob) # qs" pre0 f0 l0 "(n, l) # rs"] s1(2) len0 snoc r0 ps by auto
    show ?thesis
    proof (cases "l0 + 1 = n")
      case True
      obtain s2 where s2: "set_firstSeqNo ob f0 s1 = Some s2" "avail s2 = avail s1"
          "srep F s2 L (ps @ (p, ob) # qs) (pre @ (f0, l) # rs)"
        using srep_set(2) [OF s1(2) len] by blast
      then obtain s3 s4 where s3: "LinkedListUnlink s2 L q = Some s3" "free_item ob0 s3 = Some s4"
          "srep F s4 L (ps0 @ (p, ob) # qs) (pre0 @ (f0, l) # rs)" "avail s4 = avail s2"
        using srep_unlink [of F s2 L ps0 q ob0 "(p, ob) # qs" pre0 r0 "(f0, l) # rs"] len0 ps snoc by auto
      have "add_loop s L n p = Some (True, s4)"
        using at s1(1) pv n step ps at1 at2 s2(1) s3(1,2) True by (subst add_loop.simps) auto
      with True s3 s2 s1 show ?thesis using snoc r0 by auto
    next
      case False
      have "add_loop s L n p = Some (True, s1)"
        using at s1(1) pv n step ps at1 at2 False by (subst add_loop.simps) auto
      with False s1 show ?thesis using snoc r0 by auto
    qed
  qed
qed

text \<open>A number that touches no range: after the last one, or between two.\<close>

lemma add_loop_end:
  assumes "srep F s L (ps @ (p, ob) # qs) (pre @ [(f, l)])" "length ps = length pre" "1 < avail s" "l + 1 \<noteq> n" "f - 1 \<noteq> n"
  shows "\<exists>s' ps'. add_loop s L n p = Some (l < n, s')
    \<and> srep F s' L ps' (pre @ (f, l) # (if l < n then [(n, n)] else [])) \<and> avail s - 2 \<le> avail s'"
proof -
  have qs: "qs = []" using srep_length [OF assms(1)] assms(2) by simp
  obtain e where at: "p \<noteq> NULL" "elems s p = Some e" "obj e = ob" "items s ob = Some \<lparr>firstSeqNo = f, lastSeqNo = l\<rparr>"
    using srep_at [OF assms(1,2)] by blast
  note nx = Next_dll [OF srep_dll [OF assms(1)]]
  show ?thesis
  proof (cases "l < n")
    case True
    obtain new s0 s1 ps' where "create_sequencer_range n n s = (new, s0)" "LinkedListAppend s0 L new = Some (True, s1)"
        "srep F s1 L ps' ((pre @ [(f, l)]) @ [(n, n)])" "avail s1 = avail s - 2"
      using srep_append [OF assms(1,3), of n n] by auto
    moreover from this True have "add_loop s L n p = Some (True, s1)"
      using at assms(4,5) nx qs by (subst add_loop.simps) simp
    ultimately show ?thesis using True by auto
  next
    case False
    then have "add_loop s L n p = Some (False, s)"
      using at assms(4,5) nx qs by (subst add_loop.simps) (simp add: add_loop.simps [of s L n NULL])
    with False assms(1) show ?thesis by auto
  qed
qed

lemma add_loop_between:
  assumes "srep F s L (ps @ (p, ob) # (q, ob2) # qs) (pre @ (f, l) # (f2, l2) # rs)" "length ps = length pre" "1 < avail s"
    and "l + 1 \<noteq> n" "f - 1 \<noteq> n"
  shows "if l < n \<and> n < f2 then \<exists>s' ps'. add_loop s L n p = Some (True, s')
      \<and> srep F s' L ps' (pre @ (f, l) # (n, n) # (f2, l2) # rs) \<and> avail s - 2 \<le> avail s'
    else add_loop s L n p = add_loop s L n q"
proof -
  obtain e where at: "p \<noteq> NULL" "elems s p = Some e" "obj e = ob" "items s ob = Some \<lparr>firstSeqNo = f, lastSeqNo = l\<rparr>"
    using srep_at [OF assms(1,2)] by blast
  have r': "srep F s L ((ps @ [(p, ob)]) @ (q, ob2) # qs) ((pre @ [(f, l)]) @ (f2, l2) # rs)" using assms(1) by simp
  have len': "length (ps @ [(p, ob)]) = length (pre @ [(f, l)])" using assms(2) by simp
  obtain e2 where at2: "q \<noteq> NULL" "elems s q = Some e2" "obj e2 = ob2" "items s ob2 = Some \<lparr>firstSeqNo = f2, lastSeqNo = l2\<rparr>"
    using srep_at [OF r' len'] by blast
  note nx = Next_dll [OF srep_dll [OF assms(1)]]
  show ?thesis
  proof (cases "l < n \<and> n < f2")
    case True
    obtain new s0 s1 ps' where "create_sequencer_range n n s = (new, s0)"
        "LinkedListInsertBefore s0 L new q = Some (True, s1)"
        "srep F s1 L ps' ((pre @ [(f, l)]) @ (n, n) # (f2, l2) # rs)" "avail s1 = avail s - 2"
      using srep_insert_before [OF r' len' assms(3), of n n] by auto
    moreover from this True have "add_loop s L n p = Some (True, s1)"
      using at at2 assms(4,5) nx by (subst add_loop.simps) simp
    ultimately show ?thesis using True by auto
  next
    case False
    then have "add_loop s L n p = add_loop s L n q" using at at2 assms(4,5) nx by (subst add_loop.simps) auto
    with False show ?thesis by auto
  qed
qed

lemma add_loop_ranges:
  assumes "srep F s L (ps @ (p, ob) # qs) (pre @ (f, l) # rs)" "length ps = length pre" "1 < avail s"
  shows "\<exists>s' ps'. add_loop s L n p = Some (fst (ranges_add_from pre n ((f, l) # rs)), s')
    \<and> srep F s' L ps' (snd (ranges_add_from pre n ((f, l) # rs))) \<and> avail s - 2 \<le> avail s'"
  using assms
proof (induction rs arbitrary: ps p ob qs pre f l)
  case Nil
  consider "l + 1 = n" | "l + 1 \<noteq> n" "f - 1 = n" | "l + 1 \<noteq> n" "f - 1 \<noteq> n" by blast
  then show ?case
  proof cases
    case 1
    with add_loop_extend_last [OF Nil(1,2) 1] show ?thesis by auto
  next
    case 2
    with add_loop_extend_first [OF Nil(1,2) 2] show ?thesis by auto
  next
    case 3
    with add_loop_end [OF Nil 3] show ?thesis by auto
  qed
next
  case (Cons r rs)
  obtain f2 l2 where r: "r = (f2, l2)" by (cases r)
  have "length qs = Suc (length rs)" using srep_length [OF Cons.prems(1)] Cons.prems(2) by simp
  then obtain q ob2 qs2 where qs: "qs = (q, ob2) # qs2" by (cases qs) auto
  consider "l + 1 = n" | "l + 1 \<noteq> n" "f - 1 = n" | "l + 1 \<noteq> n" "f - 1 \<noteq> n" by blast
  then show ?case
  proof cases
    case 1
    with add_loop_extend_last [OF Cons.prems(1,2) 1] r show ?thesis by auto
  next
    case 2
    with add_loop_extend_first [OF Cons.prems(1,2) 2] show ?thesis by auto
  next
    case 3
    note b = add_loop_between [OF Cons.prems(1) [unfolded r qs] Cons.prems(2,3) 3]
    show ?thesis
    proof (cases "l < n \<and> n < f2")
      case True
      then show ?thesis using b 3 r by auto
    next
      case False
      have "srep F s L ((ps @ [(p, ob)]) @ (q, ob2) # qs2) ((pre @ [(f, l)]) @ (f2, l2) # rs)"
        using Cons.prems(1) r qs by simp
      moreover have "ranges_add_from pre n ((f, l) # r # rs) = ranges_add_from (pre @ [(f, l)]) n (r # rs)"
        using 3 False r by (subst ranges_add_from.simps(2)) (auto simp del: ranges_add_from.simps)
      ultimately show ?thesis using Cons.IH [of "ps @ [(p, ob)]"] b False Cons.prems(2,3) r by simp
    qed
  qed
qed

definition sequencer_mark :: "sequencer \<Rightarrow> u32 \<Rightarrow> bool \<Rightarrow> sequencer" where
  "sequencer_mark q seqNo isLast =
     (if isLast then q\<lparr>expectedLastSeqNo := seqNo, maxSeqNo := seqNo\<rparr>
      else if maxSeqNo q < seqNo then q\<lparr>maxSeqNo := seqNo\<rparr> else q)"

lemma seq_sequencer_mark [simp]: "seq (sequencer_mark q n b) = seq q"
  by (simp add: sequencer_mark_def)

lemma sequencer_add_ranges:
  assumes r: "srep F s (seq q) ps rs" and a: "1 < avail s"
  shows "\<exists>s' ps'. sequencer_add s q n b = Some (fst (ranges_add n rs), sequencer_mark q n b, s')
    \<and> srep F s' (seq q) ps' (snd (ranges_add n rs)) \<and> avail s - 2 \<le> avail s'"
proof -
  note d = srep_dll [OF r] and len = srep_length [OF r]
  have chk: "sequencer_check s q' n = Some (ranges_check rs n)" if "seq q' = seq q" for q'
    using sequencer_check_ranges r that by metis
  have add: "sequencer_add s q n b = (if ranges_check rs n then Some (False, sequencer_mark q n b, s)
     else if rs = [] then (case create_sequencer_range n n s of (new, s) \<Rightarrow> do {
           (_, s) \<leftarrow> LinkedListAppend s (seq q) new;
           Some (True, sequencer_mark q n b, s)
         })
     else do {
        (r, s) \<leftarrow> add_loop s (seq q) n (fst (hd ps));
        Some (r, sequencer_mark q n b, s)
     })"
    using Empty_dll [OF d] First_dll [OF d] len
    unfolding sequencer_add_def sequencer_mark_def [symmetric] Let_def
    by (auto simp: chk split: list.splits)
  consider "ranges_check rs n" | "\<not> ranges_check rs n" "rs = []" | r1 rs1 where "\<not> ranges_check rs n" "rs = r1 # rs1"
    by (cases rs) auto
  then show ?thesis
  proof cases
    case 1
    with add r show ?thesis by (auto simp: ranges_add_def)
  next
    case 2
    with add srep_append [OF r a, of n n] show ?thesis by (auto simp: ranges_add_def)
  next
    case 3
    obtain f l where r1: "r1 = (f, l)" by (cases r1)
    obtain p ob qs where ps: "ps = (p, ob) # qs" using len 3 by (cases ps) auto
    have r0: "srep F s (seq q) ([] @ (p, ob) # qs) ([] @ (f, l) # rs1)" using r ps 3 r1 by simp
    from add_loop_ranges [OF r0 _ a, of n] add 3 r1 ps show ?thesis
      by (auto simp: ranges_add_def simp del: ranges_add_from.simps)
  qed
qed

text \<open>One round that finds two ranges next to each other.\<close>

lemma complete_loop_merges:
  assumes r: "srep F s L (ps @ (p, ob) # (q, ob2) # qs) (pre @ (f, l) # (f2, l2) # rs)" and len: "length ps = length pre"
    and adj: "l + 1 = f2"
  shows "\<exists>s'. complete_loop s L p = complete_loop s' L (case qs of [] \<Rightarrow> NULL | (q, _) # _ \<Rightarrow> q)
    \<and> srep F s' L (ps @ (p, ob) # qs) (pre @ (f, l2) # rs) \<and> avail s' = avail s"
proof -
  obtain e where at: "p \<noteq> NULL" "elems s p = Some e" "obj e = ob" "items s ob = Some \<lparr>firstSeqNo = f, lastSeqNo = l\<rparr>"
    using srep_at [OF r len] by blast
  have r': "srep F s L ((ps @ [(p, ob)]) @ (q, ob2) # qs) ((pre @ [(f, l)]) @ (f2, l2) # rs)" using r by simp
  have len': "length (ps @ [(p, ob)]) = length (pre @ [(f, l)])" using len by simp
  obtain e2 where at2: "q \<noteq> NULL" "elems s q = Some e2" "obj e2 = ob2" "items s ob2 = Some \<lparr>firstSeqNo = f2, lastSeqNo = l2\<rparr>"
    using srep_at [OF r' len'] by blast
  obtain s1 where s1: "set_lastSeqNo ob l2 s = Some s1" "srep F s1 L (ps @ (p, ob) # (q, ob2) # qs) (pre @ (f, l2) # (f2, l2) # rs)"
      "avail s1 = avail s"
    using srep_set(1) [OF r len] by blast
  then obtain s2 s3 where s3: "LinkedListUnlink s1 L q = Some s2" "free_item ob2 s2 = Some s3"
      "srep F s3 L ((ps @ [(p, ob)]) @ qs) ((pre @ [(f, l2)]) @ rs)" "avail s3 = avail s1"
    using srep_unlink [of F s1 L "ps @ [(p, ob)]" q ob2 qs "pre @ [(f, l2)]" "(f2, l2)" rs] len by auto
  then have r3: "srep F s3 L (ps @ (p, ob) # qs) (pre @ (f, l2) # rs)" by simp
  have "complete_loop s L p = complete_loop s3 L (case qs of [] \<Rightarrow> NULL | (q, _) # _ \<Rightarrow> q)"
    using at at2 adj s1(1) s3(1,2) Next_dll [OF srep_dll [OF r]] Next_dll [OF srep_dll [OF r3]]
    by (subst complete_loop.simps) simp
  then show ?thesis using r3 s1(3) s3(4) by auto
qed

lemma complete_loop_ranges:
  assumes "srep F s L (ps @ qs) (pre @ rs)" "length ps = length pre"
  shows "\<exists>s' ps'. complete_loop s L (case qs of [] \<Rightarrow> NULL | (q, _) # _ \<Rightarrow> q) = Some s'
    \<and> srep F s' L ps' (pre @ ranges_merge rs) \<and> avail s' = avail s"
  using assms
proof (induction rs arbitrary: s ps qs pre rule: ranges_merge.induct)
  case 1
  then have "qs = []" using srep_length [of F s L] by fastforce
  then show ?case using "1.prems"(1) by (auto simp: complete_loop.simps)
next
  case (2 r)
  obtain p ob where qs: "qs = [(p, ob)]" using srep_length [OF "2.prems"(1)] "2.prems"(2) by (cases qs) auto
  obtain f l where r: "r = (f, l)" by (cases r)
  obtain e where at: "p \<noteq> NULL" "elems s p = Some e" "obj e = ob" "items s ob = Some \<lparr>firstSeqNo = f, lastSeqNo = l\<rparr>"
    using srep_at [OF "2.prems" [unfolded qs r]] by blast
  then have "complete_loop s L p = Some s"
    using Next_dll [OF srep_dll [OF "2.prems"(1) [unfolded qs]]] by (subst complete_loop.simps) (simp add: complete_loop.simps [of _ _ NULL])
  then show ?case using "2.prems"(1) qs by auto
next
  case (3 f l f2 l2 rs)
  obtain p ob q ob2 qs2 where qs: "qs = (p, ob) # (q, ob2) # qs2"
    using srep_length [OF "3.prems"(1)] "3.prems"(2) by (cases qs; cases "tl qs") auto
  note r = "3.prems"(1) [unfolded qs]
  have r': "srep F s L ((ps @ [(p, ob)]) @ (q, ob2) # qs2) ((pre @ [(f, l)]) @ (f2, l2) # rs)" using r by simp
  have len': "length (ps @ [(p, ob)]) = length (pre @ [(f, l)])" "length (ps @ [(p, ob)]) = length (pre @ [(f, l2)])"
    using "3.prems"(2) by simp_all
  show ?case
  proof (cases "l + 1 = f2")
    case True
    obtain s3 where s3: "complete_loop s L p = complete_loop s3 L (case qs2 of [] \<Rightarrow> NULL | (q, _) # _ \<Rightarrow> q)"
        "srep F s3 L ((ps @ [(p, ob)]) @ qs2) ((pre @ [(f, l2)]) @ rs)" "avail s3 = avail s"
      using complete_loop_merges [OF r "3.prems"(2) True] by auto
    from "3.IH"(1) [OF True s3(2) len'(2)] show ?thesis using True qs s3(1,3) by auto
  next
    case False
    obtain e where at: "p \<noteq> NULL" "elems s p = Some e" "obj e = ob" "items s ob = Some \<lparr>firstSeqNo = f, lastSeqNo = l\<rparr>"
      using srep_at [OF r "3.prems"(2)] by blast
    obtain e2 where at2: "q \<noteq> NULL" "elems s q = Some e2" "obj e2 = ob2" "items s ob2 = Some \<lparr>firstSeqNo = f2, lastSeqNo = l2\<rparr>"
      using srep_at [OF r' len'(1)] by blast
    have "complete_loop s L p = complete_loop s L q"
      using at at2 Next_dll [OF srep_dll [OF r]] False by (subst complete_loop.simps) simp
    with "3.IH"(2) [OF False r' len'(1)] show ?thesis using False qs by auto
  qed
qed

lemma sequencer_complete_ranges:
  assumes r: "srep F s (seq q) ps rs" and ok: "ranges_ok rs"
  shows "\<exists>s' ps'. sequencer_complete s q = Some (ranges_done (expectedLastSeqNo q) rs, s')
    \<and> srep F s' (seq q) ps' (ranges_merge rs) \<and> avail s' = avail s"
proof (cases rs)
  case Nil
  then show ?thesis
    using r Empty_dll [OF srep_dll [OF r]] srep_length [OF r] by (auto simp: sequencer_complete_def ranges_done_def)
next
  case (Cons r1 rs1)
  obtain f l where r1: "r1 = (f, l)" by (cases r1)
  obtain p ob qs where ps: "ps = (p, ob) # qs" using srep_length [OF r] Cons by (cases ps) auto
  have r0: "srep F s (seq q) ([] @ (p, ob) # qs) ([] @ (f, l) # rs1)" using r ps Cons r1 by simp
  obtain s' ps' where s': "complete_loop s (seq q) p = Some s'" "srep F s' (seq q) ps' (ranges_merge rs)"
      "avail s' = avail s"
    using complete_loop_ranges [OF r0] Cons r1 by auto
  note d' = srep_dll [OF s'(2)] and len' = srep_length [OF s'(2)]
  have run: "LinkedListEmpty s (seq q) = Some False" "LinkedListFirst s (seq q) = Some p"
    using Empty_dll [OF srep_dll [OF r]] First_dll [OF srep_dll [OF r]] ps by simp_all
  have len: "LinkedListLength s' (seq q) = Some (of_nat (length (ranges_merge rs)))"
    using s'(2) len' dll_dom [OF d', of "seq q"] by (auto simp: LinkedListLength_def srep_def)
  have small: "length (ranges_merge rs) < 2 ^ LENGTH(32)"
    using ranges_ok_length [OF ok] length_ranges_merge [of rs] by simp
  have "(of_nat (length (ranges_merge rs)) = (1 :: u32)) = (length (ranges_merge rs) = 1)"
    using small of_nat_inverse [OF refl small] by (metis of_nat_1 unsigned_1)
  then have one: "(of_nat (length (ranges_merge rs)) = (1 :: u32)) = (\<exists>f l. ranges_merge rs = [(f, l)])"
    by (auto simp: length_Suc_conv)
  show ?thesis
  proof (cases "\<exists>f l. ranges_merge rs = [(f, l)]")
    case True
    then obtain f' l' where m: "ranges_merge rs = [(f', l')]" by blast
    obtain p' ob' where ps': "ps' = [(p', ob')]" using len' m by (cases ps') auto
    obtain e where "elems s' p' = Some e" "obj e = ob'" "items s' ob' = Some \<lparr>firstSeqNo = f', lastSeqNo = l'\<rparr>"
      using srep_at [of F s' "seq q" "[]" p' ob' "[]" "[]" f' l' "[]"] s'(2) m ps' by auto
    then show ?thesis using run s' len First_dll [OF d'] ps' m
      by (auto simp: sequencer_complete_def ranges_done_def)
  next
    case False
    then show ?thesis using run s' len one
      by (auto simp: sequencer_complete_def ranges_done_def)
  qed
qed

lemma missing_loop_ranges:
  assumes "srep F s (seq q) ps rs"
  shows "missing_loop s q cb k ctx
    = Some (fold cb (filter (\<lambda>n. \<not> ranges_check rs n) (map of_nat [unat k..<unat (maxSeqNo q)])) ctx)"
proof (induction "unat (maxSeqNo q) - unat k" arbitrary: k ctx rule: less_induct)
  case less
  show ?case
  proof (cases "k < maxSeqNo q")
    case True
    then have "k \<noteq> - 1" by auto
    then have k: "unat k < unat (maxSeqNo q)" "unat (k + 1) = Suc (unat k)"
      using True by (simp_all add: unat_succ word_less_nat_alt)
    have IH: "missing_loop s q cb (k + 1) c
      = Some (fold cb (filter (\<lambda>n. \<not> ranges_check rs n) (map of_nat [Suc (unat k)..<unat (maxSeqNo q)])) c)" for c
      using less.hyps [of "k + 1" c] k by simp
    show ?thesis using True k(1)
      by (subst missing_loop.simps) (simp add: sequencer_check_ranges [OF assms] IH upt_conv_Cons)
  qed (subst missing_loop.simps, simp add: word_less_nat_alt)
qed

lemma sequencer_iterate_missing_ranges:
  assumes "srep F s (seq q) ps rs"
  shows "sequencer_iterate_missing_segments s q cb ctx
    = Some (if rs = [] then ctx else fold cb (ranges_missing rs (maxSeqNo q)) ctx)"
  using Empty_dll [OF srep_dll [OF assms]] srep_length [OF assms] missing_loop_ranges [OF assms, of cb 0 ctx]
  by (auto simp: sequencer_iterate_missing_segments_def ranges_missing_def)

lemma destroy_loop_items:
  "dll (elems s) L (ps @ qs) \<Longrightarrow> distinct (map snd qs) \<Longrightarrow> set (map snd qs) \<subseteq> dom (items s) \<Longrightarrow>
    items s NULL = None \<Longrightarrow>
    destroy_loop s L (case qs of [] \<Rightarrow> NULL | (q, _) # _ \<Rightarrow> q)
      = Some (s\<lparr>items := items s |` (- set (map snd qs))\<rparr>)"
proof (induction qs arbitrary: s ps)
  case Nil
  then show ?case by (subst destroy_loop.simps) (simp add: restrict_map_def)
next
  case (Cons y qs)
  obtain p ob where y: "y = (p, ob)" by (cases y)
  obtain e where e: "elems s p = Some e" "obj e = ob" "p \<noteq> NULL"
    using dll_at [of "elems s" L ps p ob qs] dll_elem_not_NULL [of "elems s" L ps p ob qs] Cons.prems(1) y by auto
  define s1 where "s1 = s\<lparr>items := (items s)(ob := None)\<rparr>"
  have "items s ob \<noteq> None" using Cons.prems(3) y by auto
  moreover from this have "ob \<noteq> NULL" using Cons.prems(4) by metis
  ultimately have fr: "free_item ob s = Some s1" by (simp add: free_item_def s1_def)
  have d1: "set (map snd qs) \<subseteq> dom (items s1)"
    unfolding s1_def using Cons.prems(2,3) y by (simp add: subset_Diff_insert del: fun_upd_apply)
  have "dll (elems s1) L ((ps @ [y]) @ qs)" using Cons.prems(1) by (simp add: s1_def)
  then have "destroy_loop s1 L (case qs of [] \<Rightarrow> NULL | (q, _) # _ \<Rightarrow> q)
      = Some (s1\<lparr>items := items s1 |` (- set (map snd qs))\<rparr>)"
    by (rule Cons.IH [OF _ _ d1]) (use Cons.prems y in \<open>simp_all add: s1_def\<close>)
  moreover have "items s1 |` (- set (map snd qs)) = items s |` (- set (map snd (y # qs)))"
    by (auto simp: s1_def y restrict_map_def)
  moreover have "LinkedListNext s1 L p = Some (case qs of [] \<Rightarrow> NULL | (q, _) # _ \<Rightarrow> q)"
    using Next_dll [of s1 L ps p ob qs] Cons.prems(1) y by (simp add: s1_def)
  ultimately show ?case using e fr y
    by (subst destroy_loop.simps) (simp add: s1_def)
qed

lemma sequencer_destroy_frame:
  assumes "srep F s (seq q) ps rs"
  shows "\<exists>s'. sequencer_destroy s q = Some s' \<and> elems s' = fst F \<and> items s' = snd F"
proof -
  note r = assms [unfolded srep_def] and d = srep_dll [OF assms]
  have "set (map snd ps) \<subseteq> dom (items s)" using r holds_in_dom by fastforce
  moreover have "items s NULL = None" using r by (cases "items s NULL") auto
  ultimately have loop: "destroy_loop s (seq q) (case ps of [] \<Rightarrow> NULL | (p, _) # _ \<Rightarrow> p)
      = Some (s\<lparr>items := items s |` (- set (map snd ps))\<rparr>)"
    using destroy_loop_items [of s "seq q" "[]" ps] r by auto
  define s1 where "s1 = s\<lparr>items := items s |` (- set (map snd ps))\<rparr>"
  have "wf_mem s1" "dll (elems s1) (seq q) ps" using r by (simp_all add: s1_def)
  from UnlinkAll_dll [OF this] obtain E where E: "LinkedListUnlinkAll s1 (seq q)
        = Some (s1\<lparr>elems := E, members := (members s1)(seq q := members s1 (seq q) - of_nat (length ps))\<rparr>)"
      "dll E (seq q) []" "dom E = dom (elems s1) - fst ` set ps" "\<forall>p. p \<notin> addrs (seq q) ps \<longrightarrow> E p = elems s1 p"
    by blast
  have "E(seq q := None) = fst F"
  proof
    fix p
    consider "p = seq q" | "p \<in> fst ` set ps" | "p \<notin> addrs (seq q) ps" by auto
    then show "(E(seq q := None)) p = fst F p"
      using E(3,4) r by cases (auto simp: outside_def s1_def split: if_splits)
  qed
  moreover have "items s1 = snd F" using r by (auto simp: s1_def outside_def restrict_map_def fun_eq_iff split: if_splits)
  moreover have "E (seq q) \<noteq> None" using dll_dom [OF E(2), of "seq q"] by simp
  ultimately show ?thesis
    using First_dll [OF d] loop [folded s1_def] E(1) by (simp add: sequencer_destroy_def free_elem_def)
qed

lemma sequencer_init_srep:
  assumes "wf_mem s" "dom (items s) \<subseteq> {0<..<brk s}" "0 < avail s"
  shows "\<exists>s'. sequencer_init s = Some (Some \<lparr>seq = brk s, maxSeqNo = 0, expectedLastSeqNo = - 1\<rparr>, s')
    \<and> srep (elems s, items s) s' (brk s) [] [] \<and> avail s' = avail s - 1"
proof -
  define s1 where "s1 = s\<lparr>brk := Suc (brk s), avail := avail s - 1,
      elems := (elems s)(brk s \<mapsto> \<lparr>obj = 0, nxt = 0, prv = 0\<rparr>), members := (members s)(brk s := 0)\<rparr>"
  have b: "brk s \<noteq> NULL" "elems s (brk s) = None" using assms(1) by (auto simp: wf_mem_def)
  have "elems s1 (brk s) = Some \<lparr>obj = 0, nxt = 0, prv = 0\<rparr>" by (simp add: s1_def)
  from Init_dll [OF this b(1)] obtain E where E: "LinkedListInit s1 (brk s) = Some (True, s1\<lparr>elems := E\<rparr>)"
      "dll E (brk s) []" "dom E = dom (elems s1)" "\<forall>p. p \<noteq> brk s \<longrightarrow> E p = elems s1 p" by blast
  then have "sequencer_init s
      = Some (Some \<lparr>seq = brk s, maxSeqNo = 0, expectedLastSeqNo = - 1\<rparr>, s1\<lparr>elems := E\<rparr>)"
    using assms(1,3) b by (simp add: sequencer_init_def malloc_elem_Some s1_def)
  moreover have "srep (elems s, items s) (s1\<lparr>elems := E\<rparr>) (brk s) [] []"
    using E(2-4) assms b(2) unfolding srep_def by (auto simp: s1_def wf_mem_def outside_def)
  ultimately show ?thesis by (auto simp: s1_def)
qed

interpretation sq: sequence_set "\<lambda>s (q :: sequencer) rs. \<exists>ps. srep F s (seq q) ps rs" avail sequencer_add sequencer_check
  for F
proof unfold_locales
  fix s :: seq_mem and q :: sequencer and rs n b
  assume "\<exists>ps. srep F s (seq q) ps rs" "1 < avail s"
  then show "\<exists>q' s'. sequencer_add s q n b = Some (fst (ranges_add n rs), q', s')
      \<and> (\<exists>ps. srep F s' (seq q') ps (snd (ranges_add n rs))) \<and> avail s - 2 \<le> avail s'"
    using sequencer_add_ranges [of F s q _ rs n b] by fastforce
next
  fix s :: seq_mem and q :: sequencer and rs n
  assume "\<exists>ps. srep F s (seq q) ps rs"
  then show "sequencer_check s q n = Some (ranges_check rs n)"
    using sequencer_check_ranges by blast
qed

lemma sequencer_add_mark: "sequencer_add s q n b = Some (r, q', s') \<Longrightarrow> q' = sequencer_mark q n b"
  by (auto simp: sequencer_add_def sequencer_mark_def [symmetric] Let_def split: bind_splits if_splits prod.splits)

lemma add_all_mark: "add_all sequencer_add s q ns = Some (q', s') \<Longrightarrow>
    seq q' = seq q \<and> maxSeqNo q' = fold max ns (maxSeqNo q) \<and> expectedLastSeqNo q' = expectedLastSeqNo q"
proof (induction ns arbitrary: s q)
  case (Cons n ns)
  then obtain r q1 s1 where s1: "sequencer_add s q n False = Some (r, q1, s1)" "add_all sequencer_add s1 q1 ns = Some (q', s')"
    by (auto split: bind_splits prod.splits)
  from Cons.IH [OF s1(2)] sequencer_add_mark [OF s1(1)] show ?case
    by (auto simp: sequencer_mark_def max_def split: if_splits)
qed simp

text \<open>The server polls \<open>sequencer_complete\<close> until it holds; here at most \<open>k\<close> times in a row.\<close>

fun complete_within :: "nat \<Rightarrow> seq_mem \<Rightarrow> sequencer \<Rightarrow> (bool \<times> seq_mem) option" where
  "complete_within 0 s q = Some (False, s)"
| "complete_within (Suc k) s q = do {
     (b, s) \<leftarrow> sequencer_complete s q;
     if b then Some (True, s) else complete_within k s q
   }"

lemma complete_within_ranges:
  "srep F s (seq q) ps rs \<Longrightarrow> ranges_ok rs \<Longrightarrow> \<exists>b s' ps' rs'. complete_within k s q = Some (b, s')
     \<and> srep F s' (seq q) ps' rs' \<and> ranges_ok rs' \<and> seqs rs' = seqs rs
     \<and> (b \<longrightarrow> seqs rs = {0..expectedLastSeqNo q})
     \<and> ((\<exists>j < k. (ranges_merge ^^ Suc j) rs = [(0, expectedLastSeqNo q)]) \<longrightarrow> b)"
proof (induction k arbitrary: s ps rs)
  case 0
  then show ?case by auto
next
  case (Suc k)
  obtain s1 ps1 where s1: "sequencer_complete s q = Some (ranges_done (expectedLastSeqNo q) rs, s1)"
      "srep F s1 (seq q) ps1 (ranges_merge rs)"
    using sequencer_complete_ranges [OF Suc.prems] by blast
  note m = ranges_merge_props [OF Suc.prems(2)]
  show ?case
  proof (cases "ranges_done (expectedLastSeqNo q) rs")
    case True
    with s1 m ranges_done_seqs [OF Suc.prems(2) True] show ?thesis by auto
  next
    case False
    have "(\<exists>j < Suc k. (ranges_merge ^^ Suc j) rs = [(0, expectedLastSeqNo q)]) \<Longrightarrow>
        (\<exists>j < k. (ranges_merge ^^ Suc j) (ranges_merge rs) = [(0, expectedLastSeqNo q)])"
      using False by (metis funpow.simps(1) funpow.simps(2) funpow_swap1 id_apply comp_apply less_Suc_eq_0_disj ranges_done_def)
    moreover obtain b s' ps' rs' where "complete_within k s1 q = Some (b, s')"
      "srep F s' (seq q) ps' rs'" "ranges_ok rs'" "seqs rs' = seqs (ranges_merge rs)"
      "b \<longrightarrow> seqs (ranges_merge rs) = {0..expectedLastSeqNo q}"
      "(\<exists>j < k. (ranges_merge ^^ Suc j) (ranges_merge rs) = [(0, expectedLastSeqNo q)]) \<longrightarrow> b"
      using Suc.IH [OF s1(2)] m by blast
    ultimately show ?thesis using s1 m False by auto
  qed
qed

subsection \<open>Properties\<close>

text \<open>A sequencer in memory with the ranges 0..1 and 3..4, the highest number being 4.\<close>

definition mem_two_ranges :: seq_mem where
  "mem_two_ranges = \<lparr>elems = [1 \<mapsto> \<lparr>obj = 0, nxt = 3, prv = 5\<rparr>, 3 \<mapsto> \<lparr>obj = 2, nxt = 5, prv = 1\<rparr>,
     5 \<mapsto> \<lparr>obj = 4, nxt = 1, prv = 3\<rparr>], members = (\<lambda>_. 2), brk = 6, avail = 9,
     items = [2 \<mapsto> \<lparr>firstSeqNo = 0, lastSeqNo = 1\<rparr>, 4 \<mapsto> \<lparr>firstSeqNo = 3, lastSeqNo = 4\<rparr>]\<rparr>"

definition two_ranges :: sequencer where
  "two_ranges = \<lparr>seq = 1, maxSeqNo = 4, expectedLastSeqNo = 4\<rparr>"

lemma mem_two_ranges_ok:
  "srep (Map.empty, Map.empty) mem_two_ranges (seq two_ranges) [(3, 2), (5, 4)] [(0, 1), (3, 4)]"
  "ranges_ok [(0, 1), (3, 4)]" "1 < avail mem_two_ranges"
  by (auto simp: srep_def mem_two_ranges_def two_ranges_def dll_def nxts_def prvs_def objs_def holds_Cons
      wf_mem_def outside_def ranges_ok_Cons)

text \<open>C10: \<open>sequencer_add\<close> on a well-formed sequencer: it returns TRUE exactly when the number was not
  present and does not lie below the first range with a gap (or there is no range), then the set grows by
  that number; otherwise nothing changes. The ranges stay sorted and disjoint, no block of memory
  leaks or is touched elsewhere, and the highest and expected numbers follow the \<open>isLast\<close> flag.\<close>

theorem sequencer_add_correct:
  assumes "srep F s (seq q) ps rs" "ranges_ok rs" "1 < avail s" "n \<noteq> - 1"
  shows "\<exists>r q' s' ps' rs'. sequencer_add s q n isLast = Some (r, q', s') \<and> seq q' = seq q
    \<and> srep F s' (seq q) ps' rs' \<and> ranges_ok rs'
    \<and> (r \<longleftrightarrow> n \<notin> seqs rs \<and> (rs = [] \<or> \<not> n + 1 < fst (hd rs)))
    \<and> seqs rs' = (if r then insert n (seqs rs) else seqs rs)
    \<and> maxSeqNo q' = (if isLast then n else max (maxSeqNo q) n)
    \<and> expectedLastSeqNo q' = (if isLast then n else expectedLastSeqNo q)"
proof -
  obtain s' ps' where s': "sequencer_add s q n isLast = Some (fst (ranges_add n rs), sequencer_mark q n isLast, s')"
      "srep F s' (seq q) ps' (snd (ranges_add n rs))"
    using sequencer_add_ranges [OF assms(1,3)] by blast
  have mark: "maxSeqNo (sequencer_mark q n isLast) = (if isLast then n else max (maxSeqNo q) n)"
      "expectedLastSeqNo (sequencer_mark q n isLast) = (if isLast then n else expectedLastSeqNo q)"
    by (auto simp: sequencer_mark_def max_def)
  let ?r = "n \<notin> seqs rs \<and> (rs = [] \<or> \<not> n + 1 < fst (hd rs))"
  obtain rs' where rs': "ranges_add n rs = (?r, rs')" "ranges_ok rs'"
      "if ?r then seqs rs' = insert n (seqs rs) else rs' = rs"
    using ranges_add_result [OF assms(2,4)] by blast
  have "seqs rs' = (if ?r then insert n (seqs rs) else seqs rs)" using rs'(3) by (cases ?r) auto
  with s' mark rs'(1,2) show ?thesis
    by (intro exI [of _ ?r] exI [of _ "sequencer_mark q n isLast"] exI [of _ s'] exI [of _ ps'] exI [of _ rs'])
       (simp del: de_Morgan_disj)
qed

theorem sequencer_add_correct_witness:
  "\<exists>q' s' ps' rs'. sequencer_add mem_two_ranges two_ranges 2 False = Some (True, q', s')
    \<and> srep (Map.empty, Map.empty) s' (seq two_ranges) ps' rs' \<and> seqs rs' = insert 2 ({0..1} \<union> {3..4})"
  using sequencer_add_correct [OF mem_two_ranges_ok, of 2 False] by (force simp: word_le_nat_alt)

text \<open>C15: a new sequencer that is given numbers in any order, with any repetitions, the smallest one first,
  holds exactly these numbers: every later \<open>sequencer_check\<close> returns membership, the ranges are
  sorted and disjoint, and the highest number is their maximum.\<close>

theorem sequencer_any_order:
  assumes "srep F s (seq q) ps []" "maxSeqNo q = 0" "\<forall>n \<in> set (m # ns). m \<le> n \<and> n \<noteq> - 1"
    "2 * length (m # ns) \<le> avail s"
  shows "\<exists>q' s' ps' rs'. add_all sequencer_add s q (m # ns) = Some (q', s')
    \<and> srep F s' (seq q) ps' rs' \<and> ranges_ok rs' \<and> seqs rs' = set (m # ns)
    \<and> (\<forall>n. sequencer_check s' q' n = Some (n \<in> set (m # ns)))
    \<and> maxSeqNo q' = Max (set (m # ns)) \<and> expectedLastSeqNo q' = expectedLastSeqNo q"
proof -
  obtain q' s' rs' where r: "add_all sequencer_add s q (m # ns) = Some (q', s')" "\<exists>ps. srep F s' (seq q') ps rs'"
      "ranges_ok rs'" "seqs rs' = set (m # ns)" "\<forall>n. sequencer_check s' q' n = Some (n \<in> set (m # ns))"
    using sq.add_all_fresh [of F s q m ns] assms by blast
  have "fold max ns m = Max (set (m # ns))" using Max.set_eq_fold [of m ns] by simp
  then have "fold max (m # ns) (maxSeqNo q) = Max (set (m # ns))" using assms(2) by (simp add: max_def)
  with r add_all_mark [OF r(1)] show ?thesis by auto
qed

theorem sequencer_any_order_witness:
  "\<exists>q s q' s'. sequencer_init \<lparr>elems = Map.empty, members = (\<lambda>_. 0), brk = 1, avail = 20, items = Map.empty\<rparr>
      = Some (Some q, s) \<and> add_all sequencer_add s q [0, 7, 3, 3, 2] = Some (q', s')
    \<and> sequencer_check s' q' 3 = Some True \<and> sequencer_check s' q' 4 = Some False \<and> maxSeqNo q' = 7"
proof -
  let ?s = "\<lparr>elems = Map.empty, members = (\<lambda>_. 0), brk = 1, avail = 20, items = Map.empty\<rparr> :: seq_mem"
  obtain s where s: "sequencer_init ?s = Some (Some \<lparr>seq = 1, maxSeqNo = 0, expectedLastSeqNo = - 1\<rparr>, s)"
      "srep (Map.empty, Map.empty) s 1 [] []" "avail s = 19"
    using sequencer_init_srep [of ?s] by (auto simp: wf_mem_def)
  from sequencer_any_order [of "(Map.empty, Map.empty)" s "\<lparr>seq = 1, maxSeqNo = 0, expectedLastSeqNo = - 1\<rparr>" "[]" 0
      "[7, 3, 3, 2]"] s show ?thesis by (auto simp: max_def)
qed

text \<open>C17: \<open>sequencer_complete\<close> joins adjacent ranges without changing the set and returns TRUE only if the
  set is exactly \<open>0..expectedLastSeqNo\<close>; calling it again and again returns TRUE within as many
  calls as there are ranges if the set is that interval. Both are about the \<open>expectedLastSeqNo\<close> that the
  sequencer has, whatever the true last number is.\<close>

theorem sequencer_complete_correct:
  assumes "srep F s (seq q) ps rs" "ranges_ok rs"
  shows "\<exists>b s' ps' rs'. complete_within k s q = Some (b, s') \<and> srep F s' (seq q) ps' rs'
    \<and> ranges_ok rs' \<and> seqs rs' = seqs rs
    \<and> (b \<longrightarrow> seqs rs = {0..expectedLastSeqNo q})
    \<and> (seqs rs = {0..expectedLastSeqNo q} \<and> length rs \<le> k \<longrightarrow> b)"
proof -
  let ?e = "expectedLastSeqNo q"
  have "\<exists>j < k. (ranges_merge ^^ Suc j) rs = [(0, ?e)]" if c: "seqs rs = {0..?e}" "length rs \<le> k"
  proof -
    have "rs \<noteq> []" using c(1) by auto
    then have "length rs - 1 < k" using c(2) by (cases rs) auto
    moreover have "(ranges_merge ^^ (length rs - 1)) rs = [(0, ?e)]"
      by (rule ranges_merge_iterate [OF assms(2) c(1)]) simp
    then have "(ranges_merge ^^ Suc (length rs - 1)) rs = [(0, ?e)]" by simp
    ultimately show ?thesis by blast
  qed
  then show ?thesis using complete_within_ranges [OF assms, of k] by blast
qed

theorem sequencer_complete_correct_witness:
  "\<exists>s'. complete_within 2 (mem_two_ranges\<lparr>items := [2 \<mapsto> \<lparr>firstSeqNo = 0, lastSeqNo = 2\<rparr>,
       4 \<mapsto> \<lparr>firstSeqNo = 3, lastSeqNo = 4\<rparr>]\<rparr>) two_ranges = Some (True, s')"
proof -
  let ?s = "mem_two_ranges\<lparr>items := [2 \<mapsto> \<lparr>firstSeqNo = 0, lastSeqNo = 2\<rparr>, 4 \<mapsto> \<lparr>firstSeqNo = 3, lastSeqNo = 4\<rparr>]\<rparr>"
  have "srep (Map.empty, Map.empty) ?s (seq two_ranges) [(3, 2), (5, 4)] [(0, 2), (3, 4)]"
    by (auto simp: srep_def mem_two_ranges_def two_ranges_def dll_def nxts_def prvs_def objs_def holds_Cons
        wf_mem_def outside_def)
  moreover have "ranges_ok [(0, 2), (3, 4)]" by (simp add: ranges_ok_Cons)
  moreover have "seqs [(0, 2), (3, 4)] = {0..expectedLastSeqNo two_ranges}"
    using Icc_join [of 2 3 0 4] by (simp add: two_ranges_def)
  ultimately show ?thesis
    using sequencer_complete_correct [of "(Map.empty, Map.empty)" ?s two_ranges "[(3, 2), (5, 4)]" "[(0, 2), (3, 4)]" 2] by auto
qed

text \<open>C16: \<open>sequencer_iterate_missing_segments\<close> returns, and calls its callback exactly on the numbers
  below \<open>maxSeqNo\<close> that have not been added, once each and in ascending order; on an empty sequencer
  it calls nothing, whatever \<open>maxSeqNo\<close> is. Here the callback collects its arguments.\<close>

theorem sequencer_missing_correct:
  assumes "srep F s (seq q) ps rs"
  shows "\<exists>ms. sequencer_iterate_missing_segments s q (\<lambda>n c. c @ [n]) [] = Some ms
    \<and> set ms = (if rs = [] then {} else {n. n < maxSeqNo q \<and> n \<notin> seqs rs}) \<and> sorted_wrt (<) ms"
proof -
  have "fold (\<lambda>n c. c @ [n]) ms c = c @ ms" for ms c :: "u32 list" by (induction ms arbitrary: c) auto
  then show ?thesis
    using sequencer_iterate_missing_ranges [OF assms, of "\<lambda>n c. c @ [n]" "[]"]
    by (simp add: set_ranges_missing ranges_missing_ascending)
qed

theorem sequencer_missing_correct_witness:
  "sequencer_iterate_missing_segments mem_two_ranges two_ranges (\<lambda>n c. c @ [n]) [] = Some [2]"
proof -
  obtain ms where ms: "sequencer_iterate_missing_segments mem_two_ranges two_ranges (\<lambda>n c. c @ [n]) [] = Some ms"
      "set ms = {n. n < 4 \<and> n \<notin> {0..1} \<union> {3..4}}" "sorted_wrt (<) ms"
    using sequencer_missing_correct [OF mem_two_ranges_ok(1)] by (auto simp: two_ranges_def)
  have "n < 4 \<and> n \<notin> {0..1} \<union> {3..4} \<longleftrightarrow> n = 2" for n :: u32
    by (auto simp: word_less_nat_alt word_le_nat_alt word_unat_eq_iff)
  then have "set ms = {2}" using ms(2) by auto
  then have "ms = [2]" using ms(3) by (cases ms rule: remdups_adj.cases) auto
  with ms(1) show ?thesis by simp
qed

text \<open>C19: from \<open>sequencer_init\<close> through any additions, of any numbers at all, to
  \<open>sequencer_destroy\<close>: every operation returns, and afterwards the list elements and items in memory are
  exactly those that were there before, so nothing leaks, nothing is freed twice and
  nothing else is touched.\<close>

theorem sequencer_no_leak:
  assumes "wf_mem s" "dom (items s) \<subseteq> {0<..<brk s}" "2 * length ns < avail s"
  shows "\<exists>q s1 q' s2 s3. sequencer_init s = Some (Some q, s1) \<and> add_all sequencer_add s1 q ns = Some (q', s2)
    \<and> sequencer_destroy s2 q' = Some s3 \<and> elems s3 = elems s \<and> items s3 = items s"
proof -
  obtain s1 where s1: "sequencer_init s = Some (Some \<lparr>seq = brk s, maxSeqNo = 0, expectedLastSeqNo = - 1\<rparr>, s1)"
      "srep (elems s, items s) s1 (brk s) [] []" "avail s1 = avail s - 1"
    using sequencer_init_srep [of s] assms by auto
  then obtain q' s2 rs' ps' where s2: "add_all sequencer_add s1 \<lparr>seq = brk s, maxSeqNo = 0, expectedLastSeqNo = - 1\<rparr> ns
        = Some (q', s2)" "srep (elems s, items s) s2 (seq q') ps' rs'"
    using sq.add_all_rep [of "(elems s, items s)" s1 "\<lparr>seq = brk s, maxSeqNo = 0, expectedLastSeqNo = - 1\<rparr>" "[]" ns]
      assms(3) by force
  from sequencer_destroy_frame [OF s2(2)] s1(1) s2(1) show ?thesis by auto
qed

theorem sequencer_no_leak_witness:
  "\<exists>q s1 q' s2 s3. sequencer_init mem_two_ranges = Some (Some q, s1) \<and> add_all sequencer_add s1 q [5, 9, 7] = Some (q', s2)
    \<and> sequencer_destroy s2 q' = Some s3 \<and> elems s3 = elems mem_two_ranges \<and> items s3 = items mem_two_ranges"
  using sequencer_no_leak [of mem_two_ranges "[5, 9, 7]"] by (auto simp: mem_two_ranges_def wf_mem_def)

text \<open>C40: the arithmetic \<open>lastSeqNo + 1\<close> wraps at \<open>UINT32_MAX\<close>. When the only range is \<open>f..UINT32_MAX\<close> with
  \<open>f\<close> not 0, adding number 0 overwrites the end of that range with 0 and returns TRUE. The range is then
  \<open>f..0\<close>: neither the number just added nor any of those added before is found any more.\<close>

theorem sequencer_add_wraps:
  assumes "srep F s (seq q) ps [(f, - 1)]" "f \<noteq> 0" "1 < avail s"
  shows "\<exists>q' s' ps'. sequencer_add s q 0 isLast = Some (True, q', s') \<and> srep F s' (seq q') ps' [(f, 0)]
    \<and> (\<forall>n. sequencer_check s q n = Some (f \<le> n)) \<and> (\<forall>n. sequencer_check s' q' n = Some False)"
proof -
  have add: "ranges_add 0 [(f, - 1)] = (True, [(f, 0)])"
    using assms(2) by (auto simp: ranges_add_def ranges_check_def covers_def)
  obtain s' ps' where s': "sequencer_add s q 0 isLast = Some (True, sequencer_mark q 0 isLast, s')"
      "srep F s' (seq q) ps' [(f, 0)]"
    using sequencer_add_ranges [OF assms(1,3), of 0 isLast] add by auto
  have "\<not> ranges_check [(f, 0)] n" "ranges_check [(f, - 1)] n \<longleftrightarrow> f \<le> n" for n
    using assms(2) by (auto simp: ranges_check_def covers_def)
  with s' sequencer_check_ranges [of F s' "sequencer_mark q 0 isLast"] sequencer_check_ranges [OF assms(1)]
  show ?thesis by (intro exI [of _ "sequencer_mark q 0 isLast"] exI [of _ s'] exI [of _ ps']) auto
qed

theorem sequencer_add_wraps_witness:
  "\<exists>q' s'. sequencer_add \<lparr>elems = [1 \<mapsto> \<lparr>obj = 0, nxt = 3, prv = 3\<rparr>, 3 \<mapsto> \<lparr>obj = 2, nxt = 1, prv = 1\<rparr>],
      members = (\<lambda>_. 1), brk = 4, avail = 9, items = [2 \<mapsto> \<lparr>firstSeqNo = 7, lastSeqNo = - 1\<rparr>]\<rparr> two_ranges 0 False
    = Some (True, q', s') \<and> sequencer_check s' q' 8 = Some False"
proof -
  let ?s = "\<lparr>elems = [1 \<mapsto> \<lparr>obj = 0, nxt = 3, prv = 3\<rparr>, 3 \<mapsto> \<lparr>obj = 2, nxt = 1, prv = 1\<rparr>],
      members = (\<lambda>_. 1), brk = 4, avail = 9, items = [2 \<mapsto> \<lparr>firstSeqNo = 7, lastSeqNo = - 1\<rparr>]\<rparr> :: seq_mem"
  have "srep (Map.empty, Map.empty) ?s (seq two_ranges) [(3, 2)] [(7, - 1)]"
    by (auto simp: srep_def two_ranges_def dll_def nxts_def prvs_def objs_def holds_Cons wf_mem_def outside_def)
  from sequencer_add_wraps [OF this] show ?thesis by force
qed

end
