(* ===== verification/Ucp_Packet.thy ===== *)
theory Ucp_Packet
  imports UCP_Prelude
begin

text \<open>
  \<open>ucp_packet.h\<close> and \<open>ucp_packet.c\<close>: the three packets of the protocol, their constructors
  and their wire format.

  The enumerations are C integers: a decoded \<open>type\<close> or \<open>flag\<close> can hold any byte, so they are
  32-bit words with named values. The anonymous union of \<open>ucp_packet_t\<close> is modelled by its three
  members side by side; \<open>type\<close> says which one is meant, and every function of the program
  reads the member that the function that set \<open>type\<close> wrote. The \<open>segment_data\<close> array is a list of
  bytes of length \<open>UDP_PACKET_DATA_SIZE\<close>, \<open>desination_name\<close> one of length 20.
  \<open>None\<close> is a copy or an access outside of an array.
\<close>

subsection \<open>Enumerations\<close>

definition UCP_PACKET_TYPE_CTRL :: u32 where "UCP_PACKET_TYPE_CTRL = 1"
definition UCP_PACKET_TYPE_DATA :: u32 where "UCP_PACKET_TYPE_DATA = 2"
definition UCP_PACKET_TYPE_METADATA :: u32 where "UCP_PACKET_TYPE_METADATA = 3"

definition UCP_FLAG_ACK :: u32 where "UCP_FLAG_ACK = 1"
definition UCP_FLAG_NACK :: u32 where "UCP_FLAG_NACK = 2"
definition UCP_FLAG_FIN :: u32 where "UCP_FLAG_FIN = 3"

definition UCP_FLAG_DATA_SEGMENT :: u32 where "UCP_FLAG_DATA_SEGMENT = 0"
definition UCP_FLAG_DATA_START :: u32 where "UCP_FLAG_DATA_START = 1"
definition UCP_FLAG_DATA_END :: u32 where "UCP_FLAG_DATA_END = 2"

lemmas packet_enums =
  UCP_PACKET_TYPE_CTRL_def UCP_PACKET_TYPE_DATA_def UCP_PACKET_TYPE_METADATA_def
  UCP_FLAG_ACK_def UCP_FLAG_NACK_def UCP_FLAG_FIN_def
  UCP_FLAG_DATA_SEGMENT_def UCP_FLAG_DATA_START_def UCP_FLAG_DATA_END_def

subsection \<open>Packets\<close>

record ucp_data_packet =
  data_flag :: u32
  data_seq_no :: u32
  offset :: u32
  seg_len :: u64
  segment_data :: "u8 list"

record ucp_ctrl_packet =
  ctrl_seq_no :: u32
  ctrl_flag :: u32

record ucp_metadata_packet =
  desination_name :: "u8 list"
  part_index :: u8
  part_size :: u32

record ucp_packet =
  pkt_type :: u32
  ctrl_packet :: ucp_ctrl_packet
  data_packet :: ucp_data_packet
  metadata_packet :: ucp_metadata_packet

definition NAME_SIZE :: nat where "NAME_SIZE = 20"

text \<open>
  \<open>sizeof(ucp_packet_t)\<close> on the LP64 targets of the program: 4 bytes of \<open>type\<close>, 4 of padding, and the
  union, whose largest member is 24 bytes of header and the data array, rounded up to 8.
\<close>

definition sizeof_ucp_packet :: nat where
  "sizeof_ucp_packet = 8 + 8 * ((24 + UDP_PACKET_DATA_SIZE + 7) div 8)"

lemma sizeof_ucp_packet_val: "sizeof_ucp_packet = 9200"
  by (simp add: sizeof_ucp_packet_def UDP_PACKET_DATA_SIZE_val)

definition wf_packet :: "ucp_packet \<Rightarrow> bool" where
  "wf_packet p \<longleftrightarrow> length (segment_data (data_packet p)) = UDP_PACKET_DATA_SIZE
     \<and> length (desination_name (metadata_packet p)) = NAME_SIZE"

subsection \<open>Constructors\<close>

text \<open>
  \<open>ucp_packet_init\<close>: the \<open>bool\<close> argument says whether \<open>malloc\<close> succeeds; NULL is \<open>None\<close> in the
  inner option, a fault \<open>None\<close> in the outer one.
\<close>

definition ucp_packet_init :: "bool \<Rightarrow> u32 \<Rightarrow> ucp_packet option" where
  "ucp_packet_init alloc ty = (if \<not> alloc then None else Some \<lparr>
     pkt_type = ty,
     ctrl_packet = \<lparr>ctrl_seq_no = 0, ctrl_flag = 0\<rparr>,
     data_packet = \<lparr>data_flag = 0, data_seq_no = 0, offset = 0, seg_len = 0,
       segment_data = replicate UDP_PACKET_DATA_SIZE 0\<rparr>,
     metadata_packet = \<lparr>desination_name = replicate NAME_SIZE 0, part_index = 0, part_size = 0\<rparr>\<rparr>)"

definition ucp_packet_init_data ::
    "bool \<Rightarrow> u32 \<Rightarrow> u64 \<Rightarrow> u8 list \<Rightarrow> u64 \<Rightarrow> ucp_packet option option" where
  "ucp_packet_init_data alloc seq_no off buf buf_len =
     (case ucp_packet_init alloc UCP_PACKET_TYPE_DATA of
        None \<Rightarrow> Some None
      | Some pkt \<Rightarrow> do {
          let d = (data_packet pkt)\<lparr>data_seq_no := seq_no, seg_len := buf_len, offset := ucast off\<rparr>;
          bytes \<leftarrow> get_bytes buf 0 (unat buf_len);
          seg \<leftarrow> put_bytes (segment_data d) 0 bytes;
          Some (Some (pkt\<lparr>data_packet := d\<lparr>segment_data := seg\<rparr>\<rparr>))
        })"

text \<open>
  \<open>strncpy(dst, src, n)\<close>: the bytes of \<open>src\<close> up to \<open>n\<close> (a C string, given without its terminator),
  then zeros up to \<open>n\<close>.
\<close>

definition strncpy :: "u8 list \<Rightarrow> u8 list \<Rightarrow> nat \<Rightarrow> u8 list option" where
  "strncpy dst src n = put_bytes dst 0 (take n src @ replicate (n - length src) 0)"

definition ucp_packet_init_metadata ::
    "bool \<Rightarrow> u8 list \<Rightarrow> u64 \<Rightarrow> u8 \<Rightarrow> u32 \<Rightarrow> ucp_packet option option" where
  "ucp_packet_init_metadata alloc dst_name dst_len pidx psize =
     (case ucp_packet_init alloc UCP_PACKET_TYPE_METADATA of
        None \<Rightarrow> Some None
      | Some pkt \<Rightarrow> do {
          let m = (metadata_packet pkt)\<lparr>part_index := pidx, part_size := psize\<rparr>;
          name \<leftarrow> strncpy (desination_name m) dst_name (NAME_SIZE - 1);
          Some (Some (pkt\<lparr>metadata_packet := m\<lparr>desination_name := name\<rparr>\<rparr>))
        })"

definition ucp_packet_init_ctrl :: "bool \<Rightarrow> u32 \<Rightarrow> u32 \<Rightarrow> ucp_packet option" where
  "ucp_packet_init_ctrl alloc seq_no fl =
     (case ucp_packet_init alloc UCP_PACKET_TYPE_CTRL of
        None \<Rightarrow> None
      | Some pkt \<Rightarrow> Some (pkt\<lparr>ctrl_packet := \<lparr>ctrl_seq_no = seq_no, ctrl_flag = fl\<rparr>\<rparr>))"

subsection \<open>Encoding and decoding\<close>

text \<open>
  A pointer argument is an option (NULL is \<open>None\<close>); \<open>buf_len\<close> is the length the caller claims,
  the list the bytes that are really there. The result of an encoder is its return value and the buffer.
\<close>

definition ucp_packet_encode_data ::
    "ucp_packet option \<Rightarrow> u8 list option \<Rightarrow> u64 \<Rightarrow> (u64 \<times> u8 list option) option" where
  "ucp_packet_encode_data packet buf buf_len = (case (packet, buf) of
     (Some p, Some b) \<Rightarrow>
       if buf_len < of_nat sizeof_ucp_packet then Some (-1, buf)
       else if pkt_type p \<noteq> UCP_PACKET_TYPE_DATA then Some (-1, buf)
       else do {
         let d = data_packet p;
         b \<leftarrow> put_bytes b 0 [byte_of 0 (pkt_type p), byte_of 0 (data_flag d),
            byte_of 0 (data_seq_no d), byte_of 1 (data_seq_no d), byte_of 2 (data_seq_no d), byte_of 3 (data_seq_no d),
            byte_of 0 (offset d), byte_of 1 (offset d), byte_of 2 (offset d), byte_of 3 (offset d),
            byte_of 0 (seg_len d), byte_of 1 (seg_len d)];
         bytes \<leftarrow> get_bytes (segment_data d) 0 (unat (seg_len d));
         b \<leftarrow> put_bytes b 12 bytes;
         Some (12 + seg_len d, Some b)
       }
   | _ \<Rightarrow> Some (-1, buf))"

definition ucp_packet_decode_data ::
    "u8 list option \<Rightarrow> u64 \<Rightarrow> ucp_packet option \<Rightarrow> ucp_packet option option" where
  "ucp_packet_decode_data buf buf_len packet = (case (packet, buf) of
     (Some p, Some b) \<Rightarrow>
       if buf_len < of_nat sizeof_ucp_packet then Some packet
       else do {
         h \<leftarrow> get_bytes b 0 12;
         let d = (data_packet p)\<lparr>
           data_flag := ucast (h ! 1),
           data_seq_no := word_of_bytes (h ! 5) (h ! 4) (h ! 3) (h ! 2),
           offset := word_of_bytes (h ! 9) (h ! 8) (h ! 7) (h ! 6),
           seg_len := push_bit 8 (ucast (h ! 11)) OR ucast (h ! 10)\<rparr>;
         bytes \<leftarrow> get_bytes b 12 (unat (seg_len d));
         seg \<leftarrow> put_bytes (segment_data d) 0 bytes;
         Some (Some (p\<lparr>pkt_type := ucast (h ! 0), data_packet := d\<lparr>segment_data := seg\<rparr>\<rparr>))
       }
   | _ \<Rightarrow> Some packet)"

definition ucp_packet_encode_ctrl_data ::
    "ucp_packet option \<Rightarrow> u8 list option \<Rightarrow> u64 \<Rightarrow> (u64 \<times> u8 list option) option" where
  "ucp_packet_encode_ctrl_data packet buf buf_len = (case (packet, buf) of
     (Some p, Some b) \<Rightarrow>
       if buf_len < 6 then Some (-1, buf)
       else if pkt_type p \<noteq> UCP_PACKET_TYPE_CTRL then Some (-1, buf)
       else do {
         let c = ctrl_packet p;
         b \<leftarrow> put_bytes b 0 [byte_of 0 (pkt_type p), byte_of 0 (ctrl_flag c),
            byte_of 0 (ctrl_seq_no c), byte_of 1 (ctrl_seq_no c), byte_of 2 (ctrl_seq_no c), byte_of 3 (ctrl_seq_no c)];
         Some (6, Some b)
       }
   | _ \<Rightarrow> Some (-1, buf))"

definition ucp_packet_decode_ctrl_data ::
    "u8 list option \<Rightarrow> u64 \<Rightarrow> ucp_packet option \<Rightarrow> ucp_packet option option" where
  "ucp_packet_decode_ctrl_data buf buf_len packet = (case (packet, buf) of
     (Some p, Some b) \<Rightarrow>
       if buf_len < 6 then Some packet
       else do {
         h \<leftarrow> get_bytes b 0 6;
         Some (Some (p\<lparr>pkt_type := ucast (h ! 0), ctrl_packet :=
           \<lparr>ctrl_seq_no = word_of_bytes (h ! 5) (h ! 4) (h ! 3) (h ! 2), ctrl_flag = ucast (h ! 1)\<rparr>\<rparr>))
       }
   | _ \<Rightarrow> Some packet)"

definition ucp_packet_encode_meta_data ::
    "ucp_packet option \<Rightarrow> u8 list option \<Rightarrow> u64 \<Rightarrow> (u64 \<times> u8 list option) option" where
  "ucp_packet_encode_meta_data packet buf buf_len = (case (packet, buf) of
     (Some p, Some b) \<Rightarrow>
       if buf_len < of_nat sizeof_ucp_packet then Some (-1, buf)
       else if pkt_type p \<noteq> UCP_PACKET_TYPE_METADATA then Some (-1, buf)
       else do {
         let m = metadata_packet p;
         b \<leftarrow> put_bytes b 0 [byte_of 0 (pkt_type p), byte_of 0 (part_index m),
            byte_of 3 (part_size m), byte_of 2 (part_size m), byte_of 1 (part_size m), byte_of 0 (part_size m)];
         name \<leftarrow> get_bytes (desination_name m) 0 NAME_SIZE;
         b \<leftarrow> put_bytes b 6 name;
         Some (6 + of_nat NAME_SIZE, Some b)
       }
   | _ \<Rightarrow> Some (-1, buf))"

definition ucp_packet_decode_meta_data ::
    "u8 list option \<Rightarrow> u64 \<Rightarrow> ucp_packet option \<Rightarrow> ucp_packet option option" where
  "ucp_packet_decode_meta_data buf buf_len packet = (case (packet, buf) of
     (Some p, Some b) \<Rightarrow>
       if buf_len < of_nat sizeof_ucp_packet then Some packet
       else do {
         h \<leftarrow> get_bytes b 0 6;
         let size0 = push_bit 24 (ucast (h ! 2));
         let size1 = push_bit 16 (ucast (h ! 3)) OR size0;
         let size2 = push_bit 8 (ucast (h ! 4)) OR size1;
         let size3 = ucast (h ! 5) OR size2;
         bytes \<leftarrow> get_bytes b 6 NAME_SIZE;
         name \<leftarrow> put_bytes (desination_name (metadata_packet p)) 0 bytes;
         Some (Some (p\<lparr>pkt_type := ucast (h ! 0), metadata_packet :=
           \<lparr>desination_name = name, part_index = h ! 1, part_size = size3\<rparr>\<rparr>))
       }
   | _ \<Rightarrow> Some packet)"

definition ucp_packet_encode ::
    "ucp_packet option \<Rightarrow> u8 list option \<Rightarrow> u64 \<Rightarrow> (u64 \<times> u8 list option) option" where
  "ucp_packet_encode packet buf buf_len = (case packet of None \<Rightarrow> Some (-1, buf)
     | Some p \<Rightarrow>
       if pkt_type p = UCP_PACKET_TYPE_DATA then ucp_packet_encode_data packet buf buf_len
       else if pkt_type p = UCP_PACKET_TYPE_CTRL then ucp_packet_encode_ctrl_data packet buf buf_len
       else if pkt_type p = UCP_PACKET_TYPE_METADATA then ucp_packet_encode_meta_data packet buf buf_len
       else Some (-2, buf))"

text \<open>\<open>ucp_packet_decode\<close> reads \<open>buf[0]\<close> before any of its callees checks \<open>buf\<close> or \<open>buf_len\<close>.\<close>

definition ucp_packet_decode ::
    "u8 list option \<Rightarrow> u64 \<Rightarrow> ucp_packet option \<Rightarrow> ucp_packet option option" where
  "ucp_packet_decode buf buf_len packet = (case packet of None \<Rightarrow> Some packet
     | Some p \<Rightarrow> do {
         b \<leftarrow> buf;
         b0 \<leftarrow> get_byte b 0;
         if ucast b0 = UCP_PACKET_TYPE_DATA then ucp_packet_decode_data buf buf_len packet
         else if ucast b0 = UCP_PACKET_TYPE_METADATA then ucp_packet_decode_meta_data buf buf_len packet
         else if ucast b0 = UCP_PACKET_TYPE_CTRL then ucp_packet_decode_ctrl_data buf buf_len packet
         else Some packet
       })"

subsection \<open>Wire images\<close>

text \<open>
  The bytes each encoder puts at the start of the buffer. A decoder depends on these bytes only,
  so what follows them (the rest of the buffer, older datagrams) does not matter.
\<close>

definition data_wire :: "ucp_data_packet \<Rightarrow> u8 list" where
  "data_wire d = [2, byte_of 0 (data_flag d),
      byte_of 0 (data_seq_no d), byte_of 1 (data_seq_no d), byte_of 2 (data_seq_no d), byte_of 3 (data_seq_no d),
      byte_of 0 (offset d), byte_of 1 (offset d), byte_of 2 (offset d), byte_of 3 (offset d),
      byte_of 0 (seg_len d), byte_of 1 (seg_len d)] @ take (unat (seg_len d)) (segment_data d)"

definition ctrl_wire :: "ucp_ctrl_packet \<Rightarrow> u8 list" where
  "ctrl_wire c = [1, byte_of 0 (ctrl_flag c),
      byte_of 0 (ctrl_seq_no c), byte_of 1 (ctrl_seq_no c), byte_of 2 (ctrl_seq_no c), byte_of 3 (ctrl_seq_no c)]"

abbreviation ctrl :: "u32 \<Rightarrow> u32 \<Rightarrow> ucp_ctrl_packet" where
  "ctrl f n \<equiv> \<lparr>ctrl_seq_no = n, ctrl_flag = f\<rparr>"

lemma length_ctrl_wire [simp]: "length (ctrl_wire c) = 6"
  by (simp add: ctrl_wire_def)

lemma ctrl_wire_inj: "ctrl_wire c = ctrl_wire c' \<Longrightarrow> byte_of 0 (ctrl_flag c) = byte_of 0 (ctrl_flag c') \<and> ctrl_seq_no c = ctrl_seq_no c'"
  using word_of_bytes_byte_of [of "ctrl_seq_no c"] word_of_bytes_byte_of [of "ctrl_seq_no c'"]
  by (auto simp: ctrl_wire_def)

definition meta_wire :: "ucp_metadata_packet \<Rightarrow> u8 list" where
  "meta_wire m = [3, part_index m,
      byte_of 3 (part_size m), byte_of 2 (part_size m), byte_of 1 (part_size m), byte_of 0 (part_size m)]
      @ desination_name m"

lemma byte_of_u8: "byte_of 0 (w :: u8) = w"
  by (rule bit_word_eqI) (auto simp: bit_simps)

lemma byte_of_types: "byte_of 0 UCP_PACKET_TYPE_DATA = 2" "byte_of 0 UCP_PACKET_TYPE_CTRL = 1"
    "byte_of 0 UCP_PACKET_TYPE_METADATA = 3"
  by (simp_all add: byte_of_def packet_enums)

lemma put_header: "length xs = n \<Longrightarrow> n \<le> length b \<Longrightarrow> put_bytes b 0 xs = Some (xs @ drop n b)"
  by (auto simp: put_bytes_def)

lemma put_body: "length xs = n \<Longrightarrow> n + length ys \<le> length b \<Longrightarrow>
    put_bytes (xs @ drop n b) n ys = Some (xs @ ys @ drop (n + length ys) b)"
  by (simp add: put_bytes_def add.commute)

lemma encode_data_wire:
  assumes "wf_packet p" "pkt_type p = UCP_PACKET_TYPE_DATA"
    "unat (seg_len (data_packet p)) \<le> UDP_PACKET_DATA_SIZE" "length b = unat n" "sizeof_ucp_packet \<le> unat n"
  shows "ucp_packet_encode (Some p) (Some b) n = Some (12 + seg_len (data_packet p),
     Some (data_wire (data_packet p) @ drop (12 + unat (seg_len (data_packet p))) b))"
proof -
  have n: "\<not> n < of_nat sizeof_ucp_packet"
    using assms(5) by (simp add: word_less_nat_alt sizeof_ucp_packet_val not_less)
  have l: "12 + unat (seg_len (data_packet p)) \<le> length b" "12 \<le> length b"
    using assms(3-5) by (simp_all add: sizeof_ucp_packet_val UDP_PACKET_DATA_SIZE_val)
  show ?thesis
    using assms n l
    by (simp add: ucp_packet_encode_def ucp_packet_encode_data_def get_bytes_def wf_packet_def Let_def
        put_header [where n = 12] put_body [where n = 12] byte_of_types data_wire_def del: append_Cons)
qed

lemma encode_ctrl_wire:
  assumes "pkt_type p = UCP_PACKET_TYPE_CTRL" "length b = unat n" "6 \<le> unat n"
  shows "ucp_packet_encode (Some p) (Some b) n = Some (6, Some (ctrl_wire (ctrl_packet p) @ drop 6 b))"
proof -
  have "\<not> n < 6" using assms(3) by (simp add: word_less_nat_alt not_less)
  then show ?thesis using assms
    by (simp add: ucp_packet_encode_def ucp_packet_encode_ctrl_data_def Let_def packet_enums
        put_header [where n = 6] byte_of_types [unfolded packet_enums] ctrl_wire_def del: append_Cons)
qed

lemma encode_meta_wire:
  assumes "wf_packet p" "pkt_type p = UCP_PACKET_TYPE_METADATA" "length b = unat n" "sizeof_ucp_packet \<le> unat n"
  shows "ucp_packet_encode (Some p) (Some b) n = Some (26, Some (meta_wire (metadata_packet p) @ drop 26 b))"
proof -
  have n: "\<not> n < of_nat sizeof_ucp_packet"
    using assms(4) by (simp add: word_less_nat_alt sizeof_ucp_packet_val not_less)
  have l: "26 \<le> length b" using assms(3,4) by (simp add: sizeof_ucp_packet_val)
  show ?thesis
    using assms n l
    by (simp add: ucp_packet_encode_def ucp_packet_encode_meta_data_def get_bytes_def wf_packet_def Let_def
        NAME_SIZE_def put_header [where n = 6] put_body [where n = 6] byte_of_types packet_enums
        byte_of_types [unfolded packet_enums] byte_of_u8 meta_wire_def del: append_Cons)
qed

text \<open>The decoders on a buffer that starts with a wire image.\<close>

lemma decode_data_wire:
  assumes "wf_packet q" "unat (seg_len d) \<le> UDP_PACKET_DATA_SIZE" "unat (data_flag d) < 256"
    "unat (seg_len d) \<le> length (segment_data d)" "sizeof_ucp_packet \<le> unat n" 
  shows "ucp_packet_decode (Some (data_wire d @ rest)) n (Some q) = Some (Some (q\<lparr>pkt_type := UCP_PACKET_TYPE_DATA,
     data_packet := d\<lparr>segment_data := take (unat (seg_len d)) (segment_data d)
        @ drop (unat (seg_len d)) (segment_data (data_packet q))\<rparr>\<rparr>))"
proof -
  have n: "\<not> n < of_nat sizeof_ucp_packet"
    using assms(5) by (simp add: word_less_nat_alt sizeof_ucp_packet_val not_less)
  have "unat (seg_len d) < 65536" using assms(2) by (simp add: UDP_PACKET_DATA_SIZE_val)
  note fields = two_bytes_byte_of [OF this] ucast_byte_of_0 [OF assms(3)] word_of_bytes_byte_of
  show ?thesis
    using assms n fields
    by (simp add: ucp_packet_decode_def ucp_packet_decode_data_def data_wire_def get_byte_def get_bytes_def
        packet_enums put_bytes_def wf_packet_def Let_def)
qed

lemma decode_ctrl_wire:
  assumes "unat (ctrl_flag c) < 256" "6 \<le> unat n"
  shows "ucp_packet_decode (Some (ctrl_wire c @ rest)) n (Some q)
    = Some (Some (q\<lparr>pkt_type := UCP_PACKET_TYPE_CTRL, ctrl_packet := c\<rparr>))"
proof -
  have "\<not> n < 6" using assms(2) by (simp add: word_less_nat_alt not_less)
  then show ?thesis using ucast_byte_of_0 [OF assms(1)] word_of_bytes_byte_of
    by (simp add: ucp_packet_decode_def ucp_packet_decode_ctrl_data_def ctrl_wire_def get_byte_def
        get_bytes_def packet_enums)
qed

lemma decode_meta_wire:
  assumes "wf_packet q" "length (desination_name m) = NAME_SIZE" "sizeof_ucp_packet \<le> unat n"
  shows "ucp_packet_decode (Some (meta_wire m @ rest)) n (Some q)
    = Some (Some (q\<lparr>pkt_type := UCP_PACKET_TYPE_METADATA, metadata_packet := m\<rparr>))"
proof -
  have n: "\<not> n < of_nat sizeof_ucp_packet"
    using assms(3) by (simp add: word_less_nat_alt sizeof_ucp_packet_val not_less)
  have size: "ucast (byte_of 0 w) OR (push_bit 8 (ucast (byte_of 1 w)) OR
      (push_bit 16 (ucast (byte_of 2 w)) OR push_bit 24 (ucast (byte_of 3 w)))) = (w :: u32)" for w
    using word_of_bytes_big_endian [of w] by (simp add: ac_simps)
  show ?thesis
    using assms n size [of "part_size m"]
    by (simp add: ucp_packet_decode_def ucp_packet_decode_meta_data_def meta_wire_def get_byte_def
        get_bytes_def put_bytes_def wf_packet_def NAME_SIZE_def packet_enums Let_def)
qed

subsection \<open>The codec interface\<close>

text \<open>
  What a kind of packet promises to the layers that send it: its image is what the encoder
  writes, its length is the value returned, and a buffer that starts with it decodes to the
  same fields whatever follows. \<open>transport\<close> is the consequence that the client and the server
  rely on, proved once: encode into one buffer, copy the returned number of bytes to the
  start of another (a datagram or a stream read), decode there.
\<close>

locale packet_codec =
  fixes ty :: u32
    and minbuf :: nat
    and member :: "ucp_packet \<Rightarrow> 'm"
    and valid :: "'m \<Rightarrow> bool"
    and wire :: "'m \<Rightarrow> u8 list"
    and same :: "'m \<Rightarrow> 'm \<Rightarrow> bool"
  assumes enc: "wf_packet p \<Longrightarrow> pkt_type p = ty \<Longrightarrow> valid (member p) \<Longrightarrow> length b = unat n \<Longrightarrow>
      minbuf \<le> unat n \<Longrightarrow> \<exists>len. ucp_packet_encode (Some p) (Some b) n
        = Some (len, Some (wire (member p) @ drop (unat len) b)) \<and> unat len = length (wire (member p))"
    and dec: "wf_packet q \<Longrightarrow> valid m \<Longrightarrow> minbuf \<le> unat n \<Longrightarrow>
      \<exists>q'. ucp_packet_decode (Some (wire m @ rest)) n (Some q) = Some (Some q')
        \<and> wf_packet q' \<and> pkt_type q' = ty \<and> same (member q') m"
begin

lemma transport:
  assumes "wf_packet p" "pkt_type p = ty" "valid (member p)" "wf_packet q"
    and "length b = unat n" "minbuf \<le> unat n" "minbuf \<le> unat m"
  shows "\<exists>len b' q'. ucp_packet_encode (Some p) (Some b) n = Some (len, Some b')
    \<and> ucp_packet_decode (Some (take (unat len) b' @ rest)) m (Some q) = Some (Some q')
    \<and> wf_packet q' \<and> pkt_type q' = ty \<and> same (member q') (member p)"
proof -
  obtain len where len: "ucp_packet_encode (Some p) (Some b) n
      = Some (len, Some (wire (member p) @ drop (unat len) b))" "unat len = length (wire (member p))"
    using enc [OF assms(1-3,5,6)] by blast
  obtain q' where "ucp_packet_decode (Some (wire (member p) @ rest)) m (Some q) = Some (Some q')"
      "wf_packet q'" "pkt_type q' = ty" "same (member q') (member p)"
    using dec [OF assms(4,3,7)] by blast
  with len show ?thesis by (intro exI conjI) auto
qed

end

definition valid_data :: "ucp_data_packet \<Rightarrow> bool" where
  "valid_data d \<longleftrightarrow> unat (seg_len d) \<le> UDP_PACKET_DATA_SIZE \<and> unat (data_flag d) < 256
     \<and> length (segment_data d) = UDP_PACKET_DATA_SIZE"

definition same_data :: "ucp_data_packet \<Rightarrow> ucp_data_packet \<Rightarrow> bool" where
  "same_data d d' \<longleftrightarrow> data_flag d = data_flag d' \<and> data_seq_no d = data_seq_no d' \<and> offset d = offset d'
     \<and> seg_len d = seg_len d' \<and> take (unat (seg_len d)) (segment_data d) = take (unat (seg_len d)) (segment_data d')"

lemma length_data_wire: "valid_data d \<Longrightarrow> length (data_wire d) = 12 + unat (seg_len d)"
  by (simp add: data_wire_def valid_data_def)

lemma unat_12_plus: "unat (w :: u64) \<le> UDP_PACKET_DATA_SIZE \<Longrightarrow> unat (12 + w) = 12 + unat w"
  by (subst unat_add_lem [THEN iffD1]) (simp_all add: UDP_PACKET_DATA_SIZE_val)

interpretation data_codec: packet_codec UCP_PACKET_TYPE_DATA sizeof_ucp_packet data_packet
    valid_data data_wire same_data
proof unfold_locales
  fix p :: ucp_packet and b n
  assume "wf_packet p" "pkt_type p = UCP_PACKET_TYPE_DATA" "valid_data (data_packet p)"
    "length (b :: u8 list) = unat (n :: u64)" "sizeof_ucp_packet \<le> unat n"
  then show "\<exists>len. ucp_packet_encode (Some p) (Some b) n
      = Some (len, Some (data_wire (data_packet p) @ drop (unat len) b)) \<and> unat len = length (data_wire (data_packet p))"
    by (subst encode_data_wire) (auto simp: length_data_wire unat_12_plus valid_data_def)
next
  fix q :: ucp_packet and m n rest
  assume "wf_packet q" "valid_data m" "sizeof_ucp_packet \<le> unat (n :: u64)"
  then show "\<exists>q'. ucp_packet_decode (Some (data_wire m @ rest)) n (Some q) = Some (Some q')
      \<and> wf_packet q' \<and> pkt_type q' = UCP_PACKET_TYPE_DATA \<and> same_data (data_packet q') m"
    by (subst decode_data_wire) (auto simp: valid_data_def same_data_def wf_packet_def)
qed

interpretation ctrl_codec: packet_codec UCP_PACKET_TYPE_CTRL 6 ctrl_packet
    "\<lambda>c. unat (ctrl_flag c) < 256" ctrl_wire "(=)"
proof unfold_locales
  fix p :: ucp_packet and b n
  assume "pkt_type p = UCP_PACKET_TYPE_CTRL" "length (b :: u8 list) = unat (n :: u64)" "6 \<le> unat n"
  then show "\<exists>len. ucp_packet_encode (Some p) (Some b) n
      = Some (len, Some (ctrl_wire (ctrl_packet p) @ drop (unat len) b)) \<and> unat len = length (ctrl_wire (ctrl_packet p))"
    by (subst encode_ctrl_wire) (auto simp: ctrl_wire_def)
next
  fix q :: ucp_packet and m n rest
  assume "wf_packet q" "unat (ctrl_flag (m :: ucp_ctrl_packet)) < 256" "6 \<le> unat (n :: u64)"
  then show "\<exists>q'. ucp_packet_decode (Some (ctrl_wire m @ rest)) n (Some q) = Some (Some q')
      \<and> wf_packet q' \<and> pkt_type q' = UCP_PACKET_TYPE_CTRL \<and> ctrl_packet q' = m"
    by (subst decode_ctrl_wire) (auto simp: wf_packet_def)
qed

interpretation meta_codec: packet_codec UCP_PACKET_TYPE_METADATA sizeof_ucp_packet metadata_packet
    "\<lambda>m. length (desination_name m) = NAME_SIZE" meta_wire "(=)"
proof unfold_locales
  fix p :: ucp_packet and b n
  assume "wf_packet p" "pkt_type p = UCP_PACKET_TYPE_METADATA" "length (b :: u8 list) = unat (n :: u64)"
    "sizeof_ucp_packet \<le> unat n" "length (desination_name (metadata_packet p)) = NAME_SIZE"
  then show "\<exists>len. ucp_packet_encode (Some p) (Some b) n = Some (len,
      Some (meta_wire (metadata_packet p) @ drop (unat len) b)) \<and> unat len = length (meta_wire (metadata_packet p))"
    by (subst encode_meta_wire) (auto simp: meta_wire_def NAME_SIZE_def)
next
  fix q :: ucp_packet and m n rest
  assume "wf_packet q" "length (desination_name (m :: ucp_metadata_packet)) = NAME_SIZE" "sizeof_ucp_packet \<le> unat (n :: u64)"
  then show "\<exists>q'. ucp_packet_decode (Some (meta_wire m @ rest)) n (Some q) = Some (Some q')
      \<and> wf_packet q' \<and> pkt_type q' = UCP_PACKET_TYPE_METADATA \<and> metadata_packet q' = m"
    by (subst decode_meta_wire) (auto simp: wf_packet_def)
qed

subsection \<open>Constructors, evaluated\<close>

lemma strncpy_name: "strncpy (replicate NAME_SIZE 0) src (NAME_SIZE - 1)
    = Some (take 19 src @ replicate (20 - length (take 19 src)) 0)"
proof (cases "length src \<le> 19")
  case True
  have "replicate (19 - length src) (0::u8) @ [0] = replicate (20 - length src) 0"
    using True by (simp add: replicate_append_same Suc_diff_le flip: replicate_Suc)
  with True show ?thesis by (simp add: strncpy_def put_bytes_def NAME_SIZE_def)
next
  case False
  then show ?thesis by (simp add: strncpy_def put_bytes_def NAME_SIZE_def)
qed

lemma init_metadata_Some: "ucp_packet_init_metadata True name name_len idx psize = Some (Some
    ((the (ucp_packet_init True UCP_PACKET_TYPE_METADATA))\<lparr>metadata_packet :=
      \<lparr>desination_name = take 19 name @ replicate (20 - length (take 19 name)) 0,
       part_index = idx, part_size = psize\<rparr>\<rparr>))"
  by (simp add: ucp_packet_init_metadata_def ucp_packet_init_def strncpy_name [unfolded One_nat_def] Let_def del: length_take)

lemma init_data_Some:
  assumes "unat buf_len \<le> length buf" "unat buf_len \<le> UDP_PACKET_DATA_SIZE"
  shows "ucp_packet_init_data True seq_no off buf buf_len = Some (Some
    ((the (ucp_packet_init True UCP_PACKET_TYPE_DATA))\<lparr>data_packet :=
      \<lparr>data_flag = 0, data_seq_no = seq_no, offset = ucast off, seg_len = buf_len,
       segment_data = take (unat buf_len) buf @ replicate (UDP_PACKET_DATA_SIZE - unat buf_len) 0\<rparr>\<rparr>))"
  using assms by (simp add: ucp_packet_init_data_def ucp_packet_init_def get_bytes_def put_bytes_def Let_def)

lemma init_ctrl_Some: "ucp_packet_init_ctrl True seq_no fl = Some
    ((the (ucp_packet_init True UCP_PACKET_TYPE_CTRL))\<lparr>ctrl_packet := \<lparr>ctrl_seq_no = seq_no, ctrl_flag = fl\<rparr>\<rparr>)"
  by (simp add: ucp_packet_init_ctrl_def ucp_packet_init_def)

lemma wf_init: "ucp_packet_init True ty = Some p \<Longrightarrow> wf_packet p \<and> pkt_type p = ty"
  by (auto simp: ucp_packet_init_def wf_packet_def)

subsection \<open>Properties\<close>

definition example_packet :: "u32 \<Rightarrow> ucp_packet" where
  "example_packet ty = \<lparr>pkt_type = ty,
     ctrl_packet = \<lparr>ctrl_seq_no = 305419896, ctrl_flag = UCP_FLAG_NACK\<rparr>,
     data_packet = \<lparr>data_flag = UCP_FLAG_DATA_END, data_seq_no = 70000, offset = 4000000000, seg_len = 300,
       segment_data = replicate UDP_PACKET_DATA_SIZE 7\<rparr>,
     metadata_packet = \<lparr>desination_name = replicate 19 65 @ [0], part_index = 3, part_size = 123456789\<rparr>\<rparr>"

lemma example_packet_ok: "wf_packet (example_packet ty)" "pkt_type (example_packet ty) = ty"
    "valid_data (data_packet (example_packet ty))"
    "length (desination_name (metadata_packet (example_packet ty))) = NAME_SIZE"
  by (simp_all add: example_packet_def wf_packet_def NAME_SIZE_def valid_data_def UDP_PACKET_DATA_SIZE_val packet_enums)

text \<open>C23: a data packet survives the network. What \<open>ucp_packet_encode\<close> writes for it, copied to the
  start of a receive buffer (whatever older bytes follow), decodes to a packet of type DATA with the
  same flag, sequence number, offset and segment length, and the same segment bytes.\<close>

theorem ucp_packet_data_roundtrip:
  assumes "wf_packet p" "pkt_type p = UCP_PACKET_TYPE_DATA" "unat (data_flag (data_packet p)) < 256"
    and "unat (seg_len (data_packet p)) \<le> UDP_PACKET_DATA_SIZE" "wf_packet q"
    and "length b = unat n" "sizeof_ucp_packet \<le> unat n" "sizeof_ucp_packet \<le> unat m"
  shows "\<exists>len b' q'. ucp_packet_encode (Some p) (Some b) n = Some (len, Some b')
    \<and> ucp_packet_decode (Some (take (unat len) b' @ stale)) m (Some q) = Some (Some q')
    \<and> wf_packet q' \<and> pkt_type q' = UCP_PACKET_TYPE_DATA \<and> same_data (data_packet q') (data_packet p)"
proof -
  have "valid_data (data_packet p)" using assms by (simp add: valid_data_def wf_packet_def)
  then show ?thesis using assms by (intro data_codec.transport)
qed

theorem ucp_packet_data_roundtrip_witness:
  "\<exists>len b' q'. ucp_packet_encode (Some (example_packet 2)) (Some (replicate 9216 0)) 9216 = Some (len, Some b')
    \<and> ucp_packet_decode (Some (take (unat len) b' @ [1, 2, 3])) 9216 (Some (example_packet 1)) = Some (Some q')
    \<and> data_seq_no (data_packet q') = 70000 \<and> offset (data_packet q') = 4000000000"
  using ucp_packet_data_roundtrip [of "example_packet 2" "example_packet 1" "replicate 9216 0" 9216 9216 "[1, 2, 3]"]
    example_packet_ok [of 1] example_packet_ok [of 2]
  by (force simp: same_data_def valid_data_def packet_enums sizeof_ucp_packet_val example_packet_def)

text \<open>C24: a control packet (ACK, NACK, FIN and its 32-bit sequence number) survives the TCP stream: the
  6 bytes the server sends decode on the client to the same packet, whatever follows them.\<close>

theorem ucp_packet_ctrl_roundtrip:
  assumes "wf_packet p" "pkt_type p = UCP_PACKET_TYPE_CTRL" "unat (ctrl_flag (ctrl_packet p)) < 256"
    and "wf_packet q" "length b = unat n" "6 \<le> unat n" "6 \<le> unat m"
  shows "\<exists>len b' q'. ucp_packet_encode (Some p) (Some b) n = Some (len, Some b')
    \<and> ucp_packet_decode (Some (take (unat len) b' @ stale)) m (Some q) = Some (Some q')
    \<and> wf_packet q' \<and> pkt_type q' = UCP_PACKET_TYPE_CTRL \<and> ctrl_packet q' = ctrl_packet p"
  using assms by (intro ctrl_codec.transport)

theorem ucp_packet_ctrl_roundtrip_witness:
  "\<exists>len b' q'. ucp_packet_encode (Some (example_packet 1)) (Some (replicate 10 0)) 10 = Some (len, Some b')
    \<and> ucp_packet_decode (Some (take (unat len) b' @ [])) 6 (Some (example_packet 2)) = Some (Some q')
    \<and> ctrl_seq_no (ctrl_packet q') = 305419896 \<and> ctrl_flag (ctrl_packet q') = 2"
  using ucp_packet_ctrl_roundtrip [of "example_packet 1" "example_packet 2" "replicate 10 0" 10 6 "[]"]
    example_packet_ok [of 1] example_packet_ok [of 2]
  by (force simp: packet_enums example_packet_def)

text \<open>A metadata packet built by \<open>ucp_packet_init_metadata\<close> reaches the server with its part index and
  part size, and with the destination name cut to its first 19 bytes and closed by a zero byte.\<close>

theorem ucp_packet_metadata_roundtrip:
  assumes "wf_packet q" "length b = unat n" "sizeof_ucp_packet \<le> unat n" "sizeof_ucp_packet \<le> unat m"
  shows "\<exists>p len b' q'. ucp_packet_init_metadata True name name_len idx psize = Some (Some p)
    \<and> ucp_packet_encode (Some p) (Some b) n = Some (len, Some b')
    \<and> ucp_packet_decode (Some (take (unat len) b' @ stale)) m (Some q) = Some (Some q')
    \<and> pkt_type q' = UCP_PACKET_TYPE_METADATA
    \<and> part_index (metadata_packet q') = idx \<and> part_size (metadata_packet q') = psize
    \<and> desination_name (metadata_packet q') = take 19 name @ replicate (20 - length (take 19 name)) 0"
proof -
  let ?name = "take 19 name @ replicate (20 - length (take 19 name)) 0"
  define p where "p = (the (ucp_packet_init True UCP_PACKET_TYPE_METADATA))\<lparr>metadata_packet :=
      \<lparr>desination_name = ?name, part_index = idx, part_size = psize\<rparr>\<rparr>"
  have p: "wf_packet p" "pkt_type p = UCP_PACKET_TYPE_METADATA"
      "length (desination_name (metadata_packet p)) = NAME_SIZE"
    by (simp_all add: p_def ucp_packet_init_def wf_packet_def NAME_SIZE_def)
  have "metadata_packet p = \<lparr>desination_name = ?name, part_index = idx, part_size = psize\<rparr>"
    by (simp add: p_def)
  with meta_codec.transport [OF p assms, of stale] init_metadata_Some [of name name_len idx psize]
  show ?thesis by (auto simp: p_def [symmetric] simp del: length_take)
qed

theorem ucp_packet_metadata_roundtrip_witness:
  "\<exists>p len b' q'. ucp_packet_init_metadata True [65, 66, 67] 3 4 1000 = Some (Some p)
    \<and> ucp_packet_encode (Some p) (Some (replicate 9216 9)) 9216 = Some (len, Some b')
    \<and> ucp_packet_decode (Some (take (unat len) b' @ [8])) 9216 (Some (example_packet 1)) = Some (Some q')
    \<and> desination_name (metadata_packet q') = [65, 66, 67] @ replicate 17 0"
  using ucp_packet_metadata_roundtrip [of "example_packet 1" "replicate 9216 9" 9216 9216 "[65, 66, 67]" 3 4 1000 "[8]"]
    example_packet_ok [of 1]
  by (force simp: sizeof_ucp_packet_val)

text \<open>the encoders reject instead of writing: a null packet or buffer, a buffer shorter than the
  packet struct (6 bytes for control packets), or an unknown type gives the huge return value
  \<open>(size_t)-1\<close> or \<open>(size_t)-2\<close> and leaves the buffer as it was.\<close>

theorem ucp_packet_encode_rejects:
  "ucp_packet_encode None buf n = Some (2 ^ 64 - 1, buf)
   \<and> (pkt_type p \<in> {1, 2, 3} \<longrightarrow> ucp_packet_encode (Some p) None n = Some (2 ^ 64 - 1, None))
   \<and> (pkt_type p \<in> {2, 3} \<and> unat n < 9200 \<longrightarrow> ucp_packet_encode (Some p) buf n = Some (2 ^ 64 - 1, buf))
   \<and> (pkt_type p = 1 \<and> unat n < 6 \<longrightarrow> ucp_packet_encode (Some p) buf n = Some (2 ^ 64 - 1, buf))
   \<and> (pkt_type p \<notin> {1, 2, 3} \<longrightarrow> ucp_packet_encode (Some p) buf n = Some (2 ^ 64 - 2, buf))"
proof -
  have "unat n < 9200 \<Longrightarrow> n < 9200" "unat n < 6 \<Longrightarrow> n < 6" by (simp_all add: word_less_nat_alt)
  then show ?thesis
    by (cases buf) (auto simp: ucp_packet_encode_def ucp_packet_encode_data_def ucp_packet_encode_ctrl_data_def
      ucp_packet_encode_meta_data_def packet_enums sizeof_ucp_packet_val)
qed

theorem ucp_packet_encode_rejects_witness:
  "ucp_packet_encode (Some (example_packet 1)) (Some [0, 0, 0, 0, 0]) 5 = Some (2 ^ 64 - 1, Some [0, 0, 0, 0, 0])"
  using ucp_packet_encode_rejects [of "Some [0, 0, 0, 0, 0]" 5 "example_packet 1"] example_packet_ok(2) [of 1]
  by simp

text \<open>C38: \<open>ucp_packet_decode_data\<close> trusts the length field of the datagram. On the server's receive
  buffer it copies outside of \<open>segment_data\<close> exactly when the two length bytes say more than
  \<open>UDP_PACKET_DATA_SIZE\<close>; any other datagram of type DATA decodes.\<close>

theorem ucp_packet_decode_overflow_iff:
  assumes "wf_packet q" "length b = UDP_PACKET_SIZE" "b ! 0 = 2"
  shows "ucp_packet_decode (Some b) (of_nat UDP_PACKET_SIZE) (Some q) = None
    \<longleftrightarrow> UDP_PACKET_DATA_SIZE < 256 * unat (b ! 11) + unat (b ! 10)"
proof -
  have "b \<noteq> []" using assms(2) by (auto simp: UDP_PACKET_SIZE_val)
  then show ?thesis using assms
    by (simp add: ucp_packet_decode_def ucp_packet_decode_data_def get_byte_def get_bytes_def put_bytes_def
      packet_enums Let_def wf_packet_def sizeof_ucp_packet_val UDP_PACKET_SIZE_val UDP_PACKET_DATA_SIZE_val
      unat_two_bytes not_le)
qed

theorem ucp_packet_decode_overflow_iff_witness:
  "ucp_packet_decode (Some ([2, 0, 0, 0, 0, 0, 0, 0, 0, 0, 255, 255] @ replicate 9204 0)) (of_nat UDP_PACKET_SIZE)
     (Some (example_packet 2)) = None"
  using ucp_packet_decode_overflow_iff [of "example_packet 2"
      "[2, 0, 0, 0, 0, 0, 0, 0, 0, 0, 255, 255] @ replicate 9204 0"] example_packet_ok(1) [of 2]
  by (simp add: UDP_PACKET_SIZE_val UDP_PACKET_DATA_SIZE_val)

text \<open>a buffer whose first byte is no packet type, or that is too short for its type, leaves the packet
  that \<open>ucp_packet_decode\<close> was given as it was, its \<open>type\<close> included, so the caller sees the previous packet.\<close>

theorem ucp_packet_decode_keeps_stale:
  assumes "b \<noteq> []"
    and "hd b \<notin> {1, 2, 3} \<or> (hd b \<in> {2, 3} \<and> unat n < 9200) \<or> (hd b = 1 \<and> unat n < 6)"
  shows "ucp_packet_decode (Some b) n (Some q) = Some (Some q)"
proof -
  obtain x xs where b: "b = x # xs" using assms(1) by (cases b) auto
  have types: "(ucast x = (2::u32)) = (x = 2)" "(ucast x = (3::u32)) = (x = 3)" "(ucast x = (1::u32)) = (x = 1)"
    by (simp_all add: word_unat_eq_iff unat_ucast_u8)
  have "unat n < 9200 \<Longrightarrow> n < 9200" "unat n < 6 \<Longrightarrow> n < 6" by (simp_all add: word_less_nat_alt)
  then show ?thesis using assms(2) b types
    by (auto simp: ucp_packet_decode_def ucp_packet_decode_data_def ucp_packet_decode_ctrl_data_def
      ucp_packet_decode_meta_data_def get_byte_def packet_enums sizeof_ucp_packet_val)
qed

theorem ucp_packet_decode_keeps_stale_witness:
  "ucp_packet_decode (Some [9, 0, 0]) 9216 (Some (example_packet 2)) = Some (Some (example_packet 2))"
  using ucp_packet_decode_keeps_stale [of "[9, 0, 0]" 9216 "example_packet 2"] by simp

text \<open>
  The typing of the tagged union: the arrays have their sizes, the type is one of the three, and the fields of the
  member that the type selects are in range: a flag fits the byte it travels in, a segment lies inside its array.
\<close>

definition typed_packet :: "ucp_packet \<Rightarrow> bool" where
  "typed_packet p \<longleftrightarrow> wf_packet p
     \<and> (pkt_type p = UCP_PACKET_TYPE_CTRL \<and> unat (ctrl_flag (ctrl_packet p)) < 256
       \<or> pkt_type p = UCP_PACKET_TYPE_DATA \<and> unat (data_flag (data_packet p)) < 256
         \<and> unat (seg_len (data_packet p)) \<le> UDP_PACKET_DATA_SIZE
       \<or> pkt_type p = UCP_PACKET_TYPE_METADATA)"

text \<open>The buffer that the encoder of a packet's type insists on.\<close>

definition encode_room :: "ucp_packet \<Rightarrow> nat" where
  "encode_room p = (if pkt_type p = UCP_PACKET_TYPE_CTRL then 6 else sizeof_ucp_packet)"

lemma put_bytes_Some: "put_bytes a i xs = Some a' \<Longrightarrow> length a' = length a \<and> i + length xs \<le> length a"
  by (auto simp: put_bytes_def split: if_splits)

lemma get_bytes_Some: "get_bytes a i n = Some xs \<Longrightarrow> length xs = n"
  by (auto simp: get_bytes_def split: if_splits)

lemma unat_flag_byte: "unat (ucast (x :: u8) :: u32) < 256"
  using unsigned_less [of x, where ?'a = nat] by (simp add: unat_ucast_u8)

lemma decode_typed:
  assumes "wf_packet q" "ucp_packet_decode (Some b) n (Some q) = Some (Some q')"
  shows "q' = q \<or> typed_packet q'"
proof -
  consider "ucp_packet_decode_data (Some b) n (Some q) = Some (Some q')" "ucast (b ! 0) = UCP_PACKET_TYPE_DATA"
    | "ucp_packet_decode_meta_data (Some b) n (Some q) = Some (Some q')" "ucast (b ! 0) = UCP_PACKET_TYPE_METADATA"
    | "ucp_packet_decode_ctrl_data (Some b) n (Some q) = Some (Some q')" "ucast (b ! 0) = UCP_PACKET_TYPE_CTRL"
    | "q' = q"
    using assms(2) by (auto simp: ucp_packet_decode_def get_byte_def split: if_splits option.splits)
  then show ?thesis
  proof cases
    case 1
    then show ?thesis using assms(1)
      by (auto simp: ucp_packet_decode_data_def typed_packet_def wf_packet_def Let_def unat_flag_byte get_bytes_def
          dest!: put_bytes_Some split: if_splits option.splits bind_splits)
  next
    case 2
    then show ?thesis using assms(1)
      by (auto simp: ucp_packet_decode_meta_data_def typed_packet_def wf_packet_def Let_def get_bytes_def
          dest!: put_bytes_Some split: if_splits bind_splits)
  next
    case 3
    then show ?thesis using assms(1)
      by (auto simp: ucp_packet_decode_ctrl_data_def typed_packet_def wf_packet_def unat_flag_byte get_bytes_def
          split: if_splits bind_splits)
  next
    case 4
    then show ?thesis by simp
  qed
qed

lemma init_typed:
  "ucp_packet_init_data alloc seq_no off buf buf_len = Some (Some p) \<Longrightarrow> typed_packet p"
  "ucp_packet_init_metadata alloc name name_len i s = Some (Some p) \<Longrightarrow> typed_packet p"
  "ucp_packet_init_ctrl alloc seq_no fl = Some p \<Longrightarrow> typed_packet p \<longleftrightarrow> unat fl < 256"
  by (auto simp: ucp_packet_init_data_def ucp_packet_init_metadata_def ucp_packet_init_ctrl_def ucp_packet_init_def packet_enums
      typed_packet_def wf_packet_def strncpy_def Let_def dest!: put_bytes_Some get_bytes_Some split: if_splits bind_splits)

lemma encode_typed:
  assumes "typed_packet p" "length b = unat n" "encode_room p \<le> unat n"
  shows "\<exists>len b'. ucp_packet_encode (Some p) (Some b) n = Some (len, Some b') \<and> unat len \<le> UDP_PACKET_SIZE
    \<and> unat len \<le> unat n \<and> length b' = length b \<and> drop (unat len) b' = drop (unat len) b"
proof -
  consider "pkt_type p = UCP_PACKET_TYPE_DATA" | "pkt_type p = UCP_PACKET_TYPE_CTRL" | "pkt_type p = UCP_PACKET_TYPE_METADATA"
    using assms(1) by (auto simp: typed_packet_def)
  then show ?thesis
  proof cases
    case 1
    then have v: "valid_data (data_packet p)" "unat (seg_len (data_packet p)) \<le> 9166" "wf_packet p"
      using assms(1) by (auto simp: typed_packet_def valid_data_def wf_packet_def packet_enums UDP_PACKET_DATA_SIZE_val)
    have s: "sizeof_ucp_packet \<le> unat n" using assms(3) 1 by (simp add: encode_room_def packet_enums)
    have l: "unat (12 + seg_len (data_packet p)) = 12 + unat (seg_len (data_packet p))"
      using v(2) by (simp add: unat_12_plus UDP_PACKET_DATA_SIZE_val)
    show ?thesis using encode_data_wire [of p b n] 1 assms v s
      by (simp add: length_data_wire l UDP_PACKET_SIZE_val UDP_PACKET_DATA_SIZE_val sizeof_ucp_packet_val)
  next
    case 2
    then have s: "6 \<le> unat n" using assms(3) by (simp add: encode_room_def)
    have "length (ctrl_wire (ctrl_packet p)) = 6" by (simp add: ctrl_wire_def)
    then show ?thesis using encode_ctrl_wire [of p b n] 2 assms s by (simp add: UDP_PACKET_SIZE_val)
  next
    case 3
    have s: "sizeof_ucp_packet \<le> unat n" using assms(3) 3 by (simp add: encode_room_def packet_enums)
    have "length (meta_wire (metadata_packet p)) = 26" using assms(1) by (simp add: typed_packet_def wf_packet_def meta_wire_def NAME_SIZE_def)
    then show ?thesis using encode_meta_wire [of p b n] 3 assms s
      by (simp add: typed_packet_def UDP_PACKET_SIZE_val sizeof_ucp_packet_val)
  qed
qed

lemma encode_refuses:
  assumes "typed_packet p" "unat n < encode_room p"
  shows "ucp_packet_encode (Some p) (Some b) n = Some (-1, Some b)"
  using assms
  by (auto simp: typed_packet_def encode_room_def ucp_packet_encode_def ucp_packet_encode_data_def word_less_nat_alt
      ucp_packet_encode_ctrl_data_def ucp_packet_encode_meta_data_def packet_enums sizeof_ucp_packet_val)

text \<open>C22: the packets the program handles are well typed. Whatever the packet held before (zeros, an older packet, or
  nothing in particular), \<open>ucp_packet_decode\<close> of any bytes under any claimed length, when it returns, leaves it
  either untouched or well typed. The constructors of data and metadata packets give well-typed packets for any
  arguments, that of control packets exactly for flags that fit a byte. The encoder is total on well-typed packets:
  given a buffer as long as claimed it does not fault; with the room that the type needs (6 bytes for a control packet,
  \<open>sizeof(ucp_packet_t)\<close> for the others) it writes a message that fits both this buffer and the receiver's, and
  nothing behind it; with less room it returns -1 and writes nothing.\<close>

theorem packets_well_typed:
  "(wf_packet q \<and> ucp_packet_decode (Some b) n (Some q) = Some (Some q') \<longrightarrow> q' = q \<or> typed_packet q')
    \<and> (ucp_packet_init_data alloc seq_no off buf buf_len = Some (Some p1) \<longrightarrow> typed_packet p1)
    \<and> (ucp_packet_init_metadata alloc name name_len i s = Some (Some p2) \<longrightarrow> typed_packet p2)
    \<and> (ucp_packet_init_ctrl alloc seq_no fl = Some p3 \<longrightarrow> (typed_packet p3 \<longleftrightarrow> unat fl < 256))
    \<and> (typed_packet p \<and> length c = unat m \<longrightarrow>
        (\<exists>len c'. ucp_packet_encode (Some p) (Some c) m = Some (len, Some c')
          \<and> (if encode_room p \<le> unat m
             then unat len \<le> UDP_PACKET_SIZE \<and> unat len \<le> unat m \<and> length c' = length c \<and> drop (unat len) c' = drop (unat len) c
             else len = -1 \<and> c' = c)))"
proof (intro conjI impI; (elim conjE)?)
  assume p: "typed_packet p" "length c = unat m"
  show "\<exists>len c'. ucp_packet_encode (Some p) (Some c) m = Some (len, Some c')
          \<and> (if encode_room p \<le> unat m
             then unat len \<le> UDP_PACKET_SIZE \<and> unat len \<le> unat m \<and> length c' = length c \<and> drop (unat len) c' = drop (unat len) c
             else len = -1 \<and> c' = c)"
    using encode_typed [OF p] encode_refuses [OF p(1), of m c] by (cases "encode_room p \<le> unat m") auto
qed (fact decode_typed init_typed | erule (1) decode_typed | erule init_typed)+

theorem packets_well_typed_witness:
  "typed_packet (example_packet 1)
    \<and> (\<exists>len c'. ucp_packet_encode (Some (example_packet 1)) (Some (replicate 10 0)) 10 = Some (len, Some c')
      \<and> unat len \<le> 10 \<and> drop (unat len) c' = drop (unat len) (replicate 10 0))
    \<and> (\<exists>q'. ucp_packet_decode (Some [1, 2, 0, 0, 0, 9]) 6 (Some (example_packet 0)) = Some (Some q') \<and> typed_packet q')"
proof -
  have t: "typed_packet (example_packet 1)" "wf_packet (example_packet 0)"
    by (simp_all add: typed_packet_def example_packet_def wf_packet_def NAME_SIZE_def packet_enums UDP_PACKET_DATA_SIZE_val)
  obtain q' where d: "ucp_packet_decode (Some [1, 2, 0, 0, 0, 9]) 6 (Some (example_packet 0)) = Some (Some q')" "pkt_type q' = 1"
    by (simp add: ucp_packet_decode_def ucp_packet_decode_ctrl_data_def get_byte_def get_bytes_def packet_enums)
  then have "q' \<noteq> example_packet 0" by (auto simp: example_packet_def)
  then have "typed_packet q'" using packets_well_typed [THEN conjunct1] t d(1) by blast
  moreover have r: "encode_room (example_packet 1) \<le> unat (10 :: u64)"
    by (simp add: encode_room_def example_packet_def packet_enums)
  have "length (replicate 10 (0 :: u8)) = unat (10 :: u64)" by simp
  then have "\<exists>len c'. ucp_packet_encode (Some (example_packet 1)) (Some (replicate 10 0)) 10 = Some (len, Some c')
      \<and> (if encode_room (example_packet 1) \<le> unat (10 :: u64)
         then unat len \<le> UDP_PACKET_SIZE \<and> unat len \<le> unat (10 :: u64) \<and> length c' = length (replicate 10 (0 :: u8))
           \<and> drop (unat len) c' = drop (unat len) (replicate 10 0)
         else len = -1 \<and> c' = replicate 10 0)"
    using packets_well_typed [THEN conjunct2, THEN conjunct2, THEN conjunct2, THEN conjunct2] t(1) by blast
  then have "\<exists>len c'. ucp_packet_encode (Some (example_packet 1)) (Some (replicate 10 0)) 10 = Some (len, Some c')
      \<and> unat len \<le> 10 \<and> drop (unat len) c' = drop (unat len) (replicate 10 0)"
    using r by (simp del: drop_replicate) blast
  ultimately show ?thesis using t d(1) by blast
qed

end
