(* ===== verification/File_IO.thy ===== *)
theory File_IO
  imports Ucp_Packet
begin

text \<open>
  \<open>file_io.h\<close> and \<open>file_io.c\<close>: a file is cut into parts by \<open>split\<close>, each part is read as
  data packets, and on the other side packets are written at their offsets into a file of the
  announced size.

  A \<open>FILE\<close> is its bytes as its user sees them, the position and the end-of-file mark, with what the
  device lets happen: whether it can seek and flush, how many bytes fit on it (\<open>capacity\<close>), and how many
  bytes that do not fit the buffer of the stream may hold back before a write reports it (\<open>slack\<close>, 0 for an
  unbuffered stream). \<open>fseek\<close> and \<open>fflush\<close> write out what is buffered, and fail when it does not fit. The functions of the C library that the
  file calls (\<open>fread\<close>, \<open>fwrite\<close>, \<open>fseek\<close>, \<open>ftell\<close>, \<open>feof\<close>, \<open>fflush\<close>) are defined on it. The commands
  run through \<open>popen\<close> (\<open>split\<close>, \<open>cat\<close>) are a parameter of the operations that start them.
\<close>

subsection \<open>Streams\<close>

record c_file =
  bytes :: "u8 list"
  pos :: nat
  eof :: bool
  capacity :: nat
  slack :: nat
  seekable :: bool
  flushable :: bool

definition write_at :: "u8 list \<Rightarrow> nat \<Rightarrow> u8 list \<Rightarrow> u8 list" where
  "write_at b p xs = (if xs = [] then b
     else take p b @ replicate (p - length b) 0 @ xs @ drop (p + length xs) b)"

definition fread :: "c_file \<Rightarrow> nat \<Rightarrow> u8 list \<times> c_file" where
  "fread f n = (let xs = take n (drop (pos f) (bytes f)) in
     (xs, f\<lparr>pos := pos f + length xs, eof := eof f \<or> length xs < n\<rparr>))"

definition fwrite :: "c_file \<Rightarrow> u8 list \<Rightarrow> nat \<times> c_file" where
  "fwrite f xs = (let k = min (length xs) (capacity f + slack f - pos f) in
     (k, f\<lparr>bytes := write_at (bytes f) (pos f) (take k xs), pos := pos f + k\<rparr>))"

definition fflush :: "c_file \<Rightarrow> bool" where
  "fflush f \<longleftrightarrow> flushable f \<and> length (bytes f) \<le> capacity f"

definition fseek :: "c_file \<Rightarrow> nat \<Rightarrow> bool \<times> c_file" where
  "fseek f p = (if seekable f \<and> length (bytes f) \<le> capacity f then (True, f\<lparr>pos := p, eof := False\<rparr>) else (False, f))"

subsection \<open>Partition handles\<close>

text \<open>\<open>file_io_partition_handle_t\<close>; a NULL stream is \<open>None\<close>.\<close>

record file_io_partition_handle =
  filepath :: string
  fp :: "c_file option"
  bytes_read :: u64
  idx :: u8
  last_seq_no :: u32
  handle_part_size :: u32

definition zero_buffer :: "u8 list" where
  "zero_buffer = replicate UDP_PACKET_DATA_SIZE 0"

subsection \<open>Reading packets\<close>

text \<open>
  \<open>alloc\<close> says whether the \<open>malloc\<close> of the packet succeeds. If it fails, the stores to the flag go
  through the null pointer.
\<close>

definition file_io_get_next_packet ::
    "bool \<Rightarrow> file_io_partition_handle \<Rightarrow> (ucp_packet option \<times> file_io_partition_handle) option" where
  "file_io_get_next_packet alloc h = do {
     f \<leftarrow> fp h;
     let off = (of_nat (pos f) :: u64);
     let (xs, f') = fread f UDP_PACKET_DATA_SIZE;
     let size = (of_nat (length xs) :: u64);
     buffer \<leftarrow> put_bytes zero_buffer 0 xs;
     if size = 0 then Some (None, h\<lparr>fp := Some f'\<rparr>)
     else do {
       packet \<leftarrow> ucp_packet_init_data alloc (last_seq_no h) off buffer size;
       let h = h\<lparr>fp := Some f', last_seq_no := last_seq_no h + 1\<rparr>;
       if off = 0 then do {
         p \<leftarrow> packet;
         Some (Some (p\<lparr>data_packet := (data_packet p)\<lparr>data_flag := UCP_FLAG_DATA_START\<rparr>\<rparr>), h)
       } else if eof f' then do {
         p \<leftarrow> packet;
         Some (Some (p\<lparr>data_packet := (data_packet p)\<lparr>data_flag := UCP_FLAG_DATA_END\<rparr>\<rparr>), h)
       } else Some (packet, h)
     }
   }"

definition file_io_get_next_packet_with_offset ::
    "bool \<Rightarrow> file_io_partition_handle \<Rightarrow> u64 \<Rightarrow> (ucp_packet option \<times> file_io_partition_handle) option" where
  "file_io_get_next_packet_with_offset alloc h off = do {
     f \<leftarrow> fp h;
     let (_, f) = fseek f (unat off);
     let (xs, f) = fread f UDP_PACKET_DATA_SIZE;
     buffer \<leftarrow> put_bytes zero_buffer 0 xs;
     if xs = [] then Some (None, h\<lparr>fp := Some f\<rparr>)
     else do {
       packet \<leftarrow> ucp_packet_init_data alloc (last_seq_no h) off buffer (of_nat (length xs));
       Some (packet, h\<lparr>fp := Some f, last_seq_no := last_seq_no h + 1\<rparr>)
     }
   }"

text \<open>The size is not checked against the buffer: reading more than it holds is a fault.\<close>

definition file_io_get_next_packet_with_offset_and_size ::
    "bool \<Rightarrow> file_io_partition_handle \<Rightarrow> u64 \<Rightarrow> u64
      \<Rightarrow> (ucp_packet option \<times> file_io_partition_handle) option" where
  "file_io_get_next_packet_with_offset_and_size alloc h off req_size = do {
     f \<leftarrow> fp h;
     let (_, f) = fseek f (unat off);
     let (xs, f) = fread f (unat req_size);
     buffer \<leftarrow> put_bytes zero_buffer 0 xs;
     if xs = [] then Some (None, h\<lparr>fp := Some f\<rparr>)
     else do {
       packet \<leftarrow> ucp_packet_init_data alloc (last_seq_no h) off buffer (of_nat (length xs));
       Some (packet, h\<lparr>fp := Some f, last_seq_no := last_seq_no h + 1\<rparr>)
     }
   }"

subsection \<open>Writing packets\<close>

definition file_io_save_packet ::
    "file_io_partition_handle \<Rightarrow> ucp_packet \<Rightarrow> (bool \<times> file_io_partition_handle) option" where
  "file_io_save_packet h packet = do {
     f \<leftarrow> fp h;
     let (ok, f) = fseek f (unat (offset (data_packet packet)));
     if \<not> ok then Some (False, h\<lparr>fp := Some f\<rparr>)
     else do {
       xs \<leftarrow> get_bytes (segment_data (data_packet packet)) 0 (unat (seg_len (data_packet packet)));
       let (k, f) = fwrite f xs;
       if k \<noteq> unat (seg_len (data_packet packet)) then Some (False, h\<lparr>fp := Some f\<rparr>)
       else if \<not> fflush f then Some (False, h\<lparr>fp := Some f\<rparr>)
       else Some (True, h\<lparr>fp := Some f\<rparr>)
     }
   }"

text \<open>The loop of \<open>file_io_open_file_of_size\<close>, which writes zeros buffer by buffer.\<close>

function fill_loop :: "nat \<Rightarrow> c_file \<Rightarrow> bool \<times> c_file" where
  "fill_loop remaining f =
     (if remaining > 0 then
        let write_size = (if remaining > UDP_PACKET_DATA_SIZE then UDP_PACKET_DATA_SIZE else remaining);
            (k, f) = fwrite f (take write_size zero_buffer) in
        if k \<noteq> write_size then (False, f) else fill_loop (remaining - write_size) f
      else (True, f))"
  by auto
termination
  by (relation "measure fst") (auto simp: UDP_PACKET_DATA_SIZE_val)

text \<open>\<open>opened\<close> is the stream that \<open>fopen(name, "wb")\<close> returns.\<close>

definition file_io_open_file_of_size ::
    "c_file option \<Rightarrow> file_io_partition_handle \<Rightarrow> u64 \<Rightarrow> bool \<times> file_io_partition_handle" where
  "file_io_open_file_of_size opened h req_size = (case opened of
     None \<Rightarrow> (False, h\<lparr>fp := None\<rparr>)
   | Some f \<Rightarrow> (case fill_loop (unat req_size) f of
       (ok, f) \<Rightarrow> (ok, h\<lparr>fp := Some f, handle_part_size := ucast req_size\<rparr>)))"

declare fill_loop.simps [simp del]

subsection \<open>Partition, release and merge\<close>

text \<open>
  \<open>printf\<close> of a number in decimal, and padded to two digits by \<open>%02d\<close>.
\<close>

fun show_nat :: "nat \<Rightarrow> string" where
  "show_nat n = (if n < 10 then [char_of (48 + n)] else show_nat (n div 10) @ [char_of (48 + n mod 10)])"

definition show_02d :: "nat \<Rightarrow> string" where
  "show_02d n = (if n < 10 then ''0'' @ show_nat n else show_nat n)"

definition show_int :: "int \<Rightarrow> string" where
  "show_int i = (if i < 0 then ''-'' @ show_nat (nat (- i)) else show_nat (nat i))"

declare show_nat.simps [simp del]

lemma show_nat_digit: "n < 10 \<Longrightarrow> show_nat n = [char_of (48 + n)]"
  by (subst show_nat.simps) simp

text \<open>
  The files of the machine, and which of them \<open>fopen\<close> may open. A command started with \<open>popen\<close>
  is a parameter \<open>sh\<close>: its exit status as \<open>pclose\<close> returns it and the files it leaves; \<open>None\<close> when
  \<open>popen\<close> fails, after which the code closes a null stream.
\<close>

record disk =
  files :: "string \<rightharpoonup> u8 list"
  may_open :: "string \<Rightarrow> bool"

type_synonym shell = "string \<Rightarrow> disk \<Rightarrow> (int \<times> disk) option"

definition fopen_rb :: "disk \<Rightarrow> string \<Rightarrow> c_file option" where
  "fopen_rb d name = (case files d name of
     None \<Rightarrow> None
   | Some b \<Rightarrow> if may_open d name
       then Some \<lparr>bytes = b, pos = 0, eof = False, capacity = length b, slack = 0, seekable = True, flushable = True\<rparr>
       else None)"

definition zero_handle :: file_io_partition_handle where
  "zero_handle = \<lparr>filepath = [], fp = None, bytes_read = 0, idx = 0, last_seq_no = 0, handle_part_size = 0\<rparr>"

text \<open>The path of a part, as \<open>snprintf\<close> leaves it in the 255 bytes of \<open>filepath\<close>.\<close>

definition part_path :: "nat \<Rightarrow> string" where
  "part_path i = take 253 (''tmp_'' @ show_02d i)"

text \<open>
  The loop of \<open>file_io_partition_file\<close>. Its counter has 8 bits, so it never ends for more than
  255 parts; then, as after a store outside of the array, the value is \<open>None\<close>.
\<close>

partial_function (option) partition_loop ::
    "disk \<Rightarrow> int \<Rightarrow> u8 \<Rightarrow> file_io_partition_handle list \<Rightarrow> file_io_partition_handle list option option" where
  "partition_loop d count i handles =
     (if \<not> uint i < count then Some (Some handles)
      else if \<not> unat i < length handles then None
      else let path = part_path (unat i);
               h = (handles ! unat i)\<lparr>filepath := path, idx := i\<rparr> in
        if files d path = None then Some None
        else case fopen_rb d path of
          None \<Rightarrow> Some None
        | Some f \<Rightarrow>
            let size = length (bytes f);
                (_, f) = fseek f size;
                size = of_nat (pos f);
                (_, f) = fseek f 0 in
            partition_loop d count (i + 1)
              (handles[unat i := h\<lparr>fp := Some f, handle_part_size := size\<rparr>]))"

definition file_io_partition_file ::
    "shell \<Rightarrow> bool \<Rightarrow> string \<Rightarrow> int \<Rightarrow> disk \<Rightarrow> (file_io_partition_handle list option \<times> disk) option" where
  "file_io_partition_file sh calloc_ok path count d = do {
     (ret, d) \<leftarrow> sh (take 254 (''/usr/bin/split -d -n '' @ show_int count @ '' '' @ path @ '' tmp_'')) d;
     if ret \<noteq> 0 then Some (None, d)
     else if \<not> calloc_ok then Some (None, d)
     else do {
       handles \<leftarrow> partition_loop d count 0 (replicate (nat count) zero_handle);
       Some (handles, d)
     }
   }"

text \<open>\<open>fclose\<close> of a null stream is a fault; \<open>remove\<close> of a file that is gone only fails.\<close>

partial_function (option) release_loop ::
    "file_io_partition_handle list \<Rightarrow> u8 \<Rightarrow> u8 \<Rightarrow> disk \<Rightarrow> disk option" where
  "release_loop handle count i d =
     (if \<not> i < count then Some d
      else if \<not> unat i < length handle then None
      else do {
        _ \<leftarrow> fp (handle ! unat i);
        release_loop handle count (i + 1) (d\<lparr>files := (files d)(filepath (handle ! unat i) := None)\<rparr>)
      })"

definition file_io_partition_release :: "file_io_partition_handle list \<Rightarrow> u8 \<Rightarrow> disk \<Rightarrow> disk option" where
  "file_io_partition_release handle count d = release_loop handle count 0 d"

definition file_io_merge_file :: "shell \<Rightarrow> string \<Rightarrow> string \<Rightarrow> disk \<Rightarrow> (bool \<times> disk) option" where
  "file_io_merge_file sh prefix outfile d = do {
     let d = (if files d outfile \<noteq> None then d\<lparr>files := (files d)(outfile := None)\<rparr> else d);
     (ret, d) \<leftarrow> sh (take 254 (''/usr/bin/cat '' @ prefix @ ''* > '' @ outfile)) d;
     Some (ret = 0, d)
   }"

subsection \<open>Streams, evaluated\<close>

lemma length_write_at: "p + length xs \<le> length b \<Longrightarrow> length (write_at b p xs) = length b"
  by (simp add: write_at_def)

lemma nth_write_at: "p + length xs \<le> length b \<Longrightarrow> j < length b \<Longrightarrow>
    write_at b p xs ! j = (if p \<le> j \<and> j < p + length xs then xs ! (j - p) else b ! j)"
  by (auto simp: write_at_def nth_append min_def)

lemma write_at_end: "write_at b (length b) xs = b @ xs"
  by (simp add: write_at_def)

lemma fill_loop_ok:
  "pos f = length (bytes f) \<Longrightarrow> pos f + n \<le> capacity f + slack f \<Longrightarrow>
    fill_loop n f = (True, f\<lparr>bytes := bytes f @ replicate n 0, pos := pos f + n\<rparr>)"
proof (induction n f rule: fill_loop.induct)
  case (1 n f)
  show ?case
  proof (cases "n = 0")
    case True
    then show ?thesis by (simp add: fill_loop.simps)
  next
    case False
    define w where "w = min n UDP_PACKET_DATA_SIZE"
    have w: "(if n > UDP_PACKET_DATA_SIZE then UDP_PACKET_DATA_SIZE else n) = w" "w \<le> n"
        "take w zero_buffer = replicate w 0"
      by (auto simp: w_def zero_buffer_def)
    let ?f = "f\<lparr>bytes := bytes f @ replicate w 0, pos := pos f + w\<rparr>"
    have fw: "fwrite f (replicate w 0) = (w, ?f)"
      using "1.prems" w(2) by (simp add: fwrite_def write_at_end min_def)
    have "fill_loop (n - w) ?f = (True, ?f\<lparr>bytes := bytes ?f @ replicate (n - w) 0, pos := pos ?f + (n - w)\<rparr>)"
      by (rule "1.IH" [OF _ w(1) [symmetric]]) (use False "1.prems" w fw in auto)
    then have "fill_loop (n - w) ?f = (True, f\<lparr>bytes := bytes f @ replicate n 0, pos := pos f + n\<rparr>)"
      using w(2) by (simp flip: replicate_add)
    then show ?thesis using False w fw by (subst fill_loop.simps) (simp add: Let_def)
  qed
qed

lemma fill_loop_full:
  "pos f = length (bytes f) \<Longrightarrow> pos f \<le> capacity f + slack f \<Longrightarrow> capacity f + slack f < pos f + n \<Longrightarrow>
    \<not> fst (fill_loop n f)"
proof (induction n f rule: fill_loop.induct)
  case (1 n f)
  define w where "w = min n UDP_PACKET_DATA_SIZE"
  have n: "n > 0" using "1.prems" by simp
  have w: "(if n > UDP_PACKET_DATA_SIZE then UDP_PACKET_DATA_SIZE else n) = w" "w \<le> n"
      "take w zero_buffer = replicate w 0"
    by (auto simp: w_def zero_buffer_def)
  show ?case
  proof (cases "pos f + w \<le> capacity f + slack f")
    case True
    let ?f = "f\<lparr>bytes := bytes f @ replicate w 0, pos := pos f + w\<rparr>"
    have fw: "fwrite f (replicate w 0) = (w, ?f)"
      using "1.prems" True by (simp add: fwrite_def write_at_end min_def)
    have "\<not> fst (fill_loop (n - w) ?f)"
      by (rule "1.IH" [OF _ w(1) [symmetric]]) (use n "1.prems" w fw True in auto)
    then show ?thesis using n w fw by (subst fill_loop.simps) (simp add: Let_def)
  next
    case False
    then have "fst (fwrite f (replicate w 0)) \<noteq> w" using "1.prems" by (simp add: fwrite_def Let_def)
    then show ?thesis using n w
      by (cases "fwrite f (replicate w 0)", subst fill_loop.simps) (simp add: Let_def)
  qed
qed

subsection \<open>The packets of a file\<close>

text \<open>The \<open>i\<close>-th packet that reading a file of bytes \<open>b\<close> gives, and the number of packets.\<close>

definition chunk :: "u8 list \<Rightarrow> nat \<Rightarrow> u8 list" where
  "chunk b i = take UDP_PACKET_DATA_SIZE (drop (i * UDP_PACKET_DATA_SIZE) b)"

definition packet_count :: "u8 list \<Rightarrow> nat" where
  "packet_count b = (length b + (UDP_PACKET_DATA_SIZE - 1)) div UDP_PACKET_DATA_SIZE"

definition file_packet_flag :: "u8 list \<Rightarrow> nat \<Rightarrow> u32" where
  "file_packet_flag b i = (if i = 0 then UCP_FLAG_DATA_START
     else if length (chunk b i) < UDP_PACKET_DATA_SIZE then UCP_FLAG_DATA_END else UCP_FLAG_DATA_SEGMENT)"

definition file_packet :: "u8 list \<Rightarrow> nat \<Rightarrow> ucp_packet" where
  "file_packet b i = (the (ucp_packet_init True UCP_PACKET_TYPE_DATA))\<lparr>data_packet :=
     \<lparr>data_flag = file_packet_flag b i, data_seq_no = of_nat i,
      offset = of_nat (i * UDP_PACKET_DATA_SIZE), seg_len = of_nat (length (chunk b i)),
      segment_data = chunk b i @ replicate (UDP_PACKET_DATA_SIZE - length (chunk b i)) 0\<rparr>\<rparr>"

lemma packet_count_iff: "i < packet_count b \<longleftrightarrow> i * UDP_PACKET_DATA_SIZE < length b"
  unfolding packet_count_def UDP_PACKET_DATA_SIZE_val by auto

lemma packet_number_small: "i < packet_count b \<Longrightarrow> length b < 2 ^ 32 \<Longrightarrow> unat (of_nat i :: u32) = i"
  by (intro of_nat_inverse [OF refl]) (simp add: packet_count_iff UDP_PACKET_DATA_SIZE_val)

lemma packet_number_inj: "i < packet_count b \<Longrightarrow> j < packet_count b \<Longrightarrow> length b < 2 ^ 32 \<Longrightarrow> (of_nat i :: u32) = of_nat j \<Longrightarrow> i = j"
  by (metis packet_number_small)

lemma length_chunk: "length (chunk b i) \<le> UDP_PACKET_DATA_SIZE"
  by (simp add: chunk_def)

lemma chunk_Nil_iff: "chunk b i = [] \<longleftrightarrow> packet_count b \<le> i"
  using packet_count_iff [of i b] by (auto simp: chunk_def UDP_PACKET_DATA_SIZE_val)

lemma unat_length_chunk: "unat (of_nat (length (chunk b i)) :: u64) = length (chunk b i)"
  using length_chunk [of b i] by (intro of_nat_inverse [OF refl]) (simp add: UDP_PACKET_DATA_SIZE_val)

lemma concat_chunks: "k \<le> packet_count b \<Longrightarrow>
    concat (map (chunk b) [k..<packet_count b]) = drop (k * UDP_PACKET_DATA_SIZE) b"
proof (induction "packet_count b - k" arbitrary: k)
  case 0
  then have "k = packet_count b" by simp
  then have "length b \<le> k * UDP_PACKET_DATA_SIZE" using packet_count_iff [of k b] by simp
  then show ?case using \<open>k = _\<close> by simp
next
  case (Suc x)
  then have k: "k < packet_count b" by simp
  have "concat (map (chunk b) [Suc k..<packet_count b]) = drop (Suc k * UDP_PACKET_DATA_SIZE) b"
    by (rule Suc.hyps(1)) (use Suc.hyps(2) in auto)
  then show ?case using k append_take_drop_id [of UDP_PACKET_DATA_SIZE "drop (k * UDP_PACKET_DATA_SIZE) b"]
    by (simp add: upt_conv_Cons chunk_def)
qed

lemma next_packet:
  assumes f: "fp h = Some f" "pos f = k * UDP_PACKET_DATA_SIZE" "last_seq_no h = of_nat k" "\<not> eof f"
    and len: "length (bytes f) < 2 ^ 32" and k: "k < packet_count (bytes f)"
  shows "file_io_get_next_packet True h = Some (Some (file_packet (bytes f) k),
    h\<lparr>fp := Some (f\<lparr>pos := k * UDP_PACKET_DATA_SIZE + length (chunk (bytes f) k),
      eof := length (chunk (bytes f) k) < UDP_PACKET_DATA_SIZE\<rparr>), last_seq_no := of_nat (Suc k)\<rparr>)"
proof -
  let ?c = "chunk (bytes f) k" and ?f = "f\<lparr>pos := k * UDP_PACKET_DATA_SIZE + length (chunk (bytes f) k),
      eof := length (chunk (bytes f) k) < UDP_PACKET_DATA_SIZE\<rparr>"
  have c: "?c \<noteq> []" using k by (simp add: chunk_Nil_iff)
  have small: "k * UDP_PACKET_DATA_SIZE < 2 ^ LENGTH(64)"
    using k len by (simp add: packet_count_iff)
  have rd: "fread f UDP_PACKET_DATA_SIZE = (?c, ?f)"
    using f by (simp add: fread_def chunk_def [symmetric] Let_def)
  have put: "put_bytes zero_buffer 0 ?c = Some (?c @ replicate (UDP_PACKET_DATA_SIZE - length ?c) 0)"
    using length_chunk [of "bytes f" k] by (simp add: put_bytes_def zero_buffer_def)
  have nz: "of_nat (length ?c) \<noteq> (0 :: u64)"
    using unat_length_chunk [of "bytes f" k] c by (metis length_0_conv unsigned_0)
  have off: "((of_nat (k * UDP_PACKET_DATA_SIZE) :: u64) = 0) = (k = 0)"
    using of_nat_inverse [OF refl small] by (auto simp: UDP_PACKET_DATA_SIZE_val word_unat_eq_iff)
  have uc: "ucast (of_nat (k * UDP_PACKET_DATA_SIZE) :: u64) = (of_nat (k * UDP_PACKET_DATA_SIZE) :: u32)"
    by (rule word_unat_eq_iff [THEN iffD2]) (simp add: unsigned_of_nat del: of_nat_mult)
  have init: "ucp_packet_init_data True (of_nat k) (of_nat (k * UDP_PACKET_DATA_SIZE))
      (?c @ replicate (UDP_PACKET_DATA_SIZE - length ?c) 0) (of_nat (length ?c)) = Some (Some
     ((the (ucp_packet_init True UCP_PACKET_TYPE_DATA))\<lparr>data_packet :=
      \<lparr>data_flag = 0, data_seq_no = of_nat k, offset = of_nat (k * UDP_PACKET_DATA_SIZE),
       seg_len = of_nat (length ?c),
       segment_data = ?c @ replicate (UDP_PACKET_DATA_SIZE - length ?c) 0\<rparr>\<rparr>))"
    using length_chunk [of "bytes f" k] uc by (subst init_data_Some) (simp_all add: unat_length_chunk)
  show ?thesis
    using f rd put nz off init
    by (auto simp: file_io_get_next_packet_def Let_def file_packet_def file_packet_flag_def packet_enums
        simp del: of_nat_mult)
qed

text \<open>Reading on until \<open>file_io_get_next_packet\<close> returns NULL, as the client does with a part.\<close>

partial_function (option) read_packets ::
    "file_io_partition_handle \<Rightarrow> (ucp_packet list \<times> file_io_partition_handle) option" where
  "read_packets h = do {
     (packet, h) \<leftarrow> file_io_get_next_packet True h;
     case packet of
       None \<Rightarrow> Some ([], h)
     | Some p \<Rightarrow> do {
         (ps, h) \<leftarrow> read_packets h;
         Some (p # ps, h)
       }
   }"

lemma next_packet_end:
  assumes "fp h = Some f" "length (bytes f) \<le> pos f"
  shows "\<exists>h'. file_io_get_next_packet True h = Some (None, h')"
  using assms by (simp add: file_io_get_next_packet_def fread_def put_bytes_def Let_def)

lemma read_packets_from:
  assumes "fp h = Some f" "pos f = min (k * UDP_PACKET_DATA_SIZE) (length (bytes f))"
    "k < packet_count (bytes f) \<longrightarrow> last_seq_no h = of_nat k \<and> \<not> eof f"
    "length (bytes f) < 2 ^ 32" "k \<le> packet_count (bytes f)"
  shows "\<exists>h'. read_packets h = Some (map (file_packet (bytes f)) [k..<packet_count (bytes f)], h')"
  using assms
proof (induction "packet_count (bytes f) - k" arbitrary: h f k)
  case 0
  then have k: "k = packet_count (bytes f)" by simp
  then have "length (bytes f) \<le> k * UDP_PACKET_DATA_SIZE"
    using packet_count_iff [of k "bytes f"] by simp
  then obtain h' where "file_io_get_next_packet True h = Some (None, h')"
    using next_packet_end [OF 0(2)] 0(3) by auto
  then show ?case using k by (subst read_packets.simps) simp
next
  case (Suc n)
  let ?b = "bytes f" and ?c = "chunk (bytes f) k"
  have k: "k < packet_count ?b" using Suc.hyps(2) by simp
  then have kl: "k * UDP_PACKET_DATA_SIZE < length ?b" by (simp add: packet_count_iff)
  define f1 where "f1 = f\<lparr>pos := k * UDP_PACKET_DATA_SIZE + length ?c, eof := length ?c < UDP_PACKET_DATA_SIZE\<rparr>"
  define h1 where "h1 = h\<lparr>fp := Some f1, last_seq_no := of_nat (Suc k)\<rparr>"
  have np: "file_io_get_next_packet True h = Some (Some (file_packet ?b k), h1)"
    unfolding h1_def f1_def by (rule next_packet) (use Suc.prems k kl in auto)
  have lc: "length ?c = min UDP_PACKET_DATA_SIZE (length ?b - k * UDP_PACKET_DATA_SIZE)"
    by (simp add: chunk_def min.commute)
  have "\<exists>h'. read_packets h1 = Some (map (file_packet (bytes f1)) [Suc k..<packet_count (bytes f1)], h')"
  proof (rule Suc.hyps(1))
    show "Suc k < packet_count (bytes f1) \<longrightarrow> last_seq_no h1 = of_nat (Suc k) \<and> \<not> eof f1"
      using packet_count_iff [of "Suc k" ?b] lc by (auto simp: h1_def f1_def)
    show "pos f1 = min (Suc k * UDP_PACKET_DATA_SIZE) (length (bytes f1))"
      using lc kl by (simp add: f1_def)
  qed (use Suc.hyps(2) Suc.prems(4) k in \<open>auto simp: h1_def f1_def\<close>)
  then show ?case using np k by (subst read_packets.simps) (auto simp: f1_def upt_conv_Cons)
qed

definition fresh_handle :: "file_io_partition_handle \<Rightarrow> u8 list \<Rightarrow> bool" where
  "fresh_handle h b \<longleftrightarrow> last_seq_no h = 0
     \<and> (\<exists>f. fp h = Some f \<and> bytes f = b \<and> pos f = 0 \<and> \<not> eof f)"

lemma read_packets_file:
  assumes "fresh_handle h b" "length b < 2 ^ 32"
  shows "\<exists>h'. read_packets h = Some (map (file_packet b) [0..<packet_count b], h')"
proof -
  obtain f where "fp h = Some f" "bytes f = b" "pos f = 0" "\<not> eof f" "last_seq_no h = 0"
    using assms(1) by (auto simp: fresh_handle_def)
  then show ?thesis using read_packets_from [of h f 0] assms(2) by simp
qed

definition payload :: "ucp_packet \<Rightarrow> u8 list" where
  "payload p = take (unat (seg_len (data_packet p))) (segment_data (data_packet p))"

lemma payload_file_packet: "payload (file_packet b i) = chunk b i"
  using unat_length_chunk [of b i] by (simp add: payload_def file_packet_def)

lemma file_packet_fields: 
  "wf_packet (file_packet b i)" "pkt_type (file_packet b i) = UCP_PACKET_TYPE_DATA"
  "data_seq_no (data_packet (file_packet b i)) = of_nat i"
  "unat (seg_len (data_packet (file_packet b i))) = length (chunk b i)"
  "data_flag (data_packet (file_packet b i)) = file_packet_flag b i"
  "valid_data (data_packet (file_packet b i))"
  using length_chunk [of b i] unat_length_chunk [of b i]
  by (simp_all add: file_packet_def ucp_packet_init_def wf_packet_def valid_data_def file_packet_flag_def packet_enums)

lemma offset_file_packet: "i < packet_count b \<Longrightarrow> length b < 2 ^ 32 \<Longrightarrow>
    unat (offset (data_packet (file_packet b i))) = i * UDP_PACKET_DATA_SIZE"
  using of_nat_inverse [OF refl, of "i * UDP_PACKET_DATA_SIZE", where 'a = 32]
  by (simp add: file_packet_def packet_count_iff del: of_nat_mult)

subsection \<open>Saving packets\<close>

lemma length_write_at_any: "length (write_at b p xs) = (if xs = [] then length b else max (length b) (p + length xs))"
  by (auto simp: write_at_def)

lemma nth_write_at_any: "j < length (write_at b p xs) \<Longrightarrow> write_at b p xs ! j =
    (if p \<le> j \<and> j < p + length xs then xs ! (j - p) else if j < length b then b ! j else 0)"
  by (auto simp: write_at_def nth_append min_def split: if_splits)

text \<open>What a stream must allow for a segment to be saved in it: what it buffers can be written out, it can be
  positioned and flushed, and the segment fits on the device.\<close>

definition takes_segment :: "c_file \<Rightarrow> nat \<Rightarrow> nat \<Rightarrow> bool" where
  "takes_segment f off n \<longleftrightarrow> seekable f \<and> flushable f \<and> length (bytes f) \<le> capacity f
     \<and> (n = 0 \<or> off + n \<le> capacity f)"

lemma save_packet_result:
  assumes "fp h = Some f" "unat (seg_len (data_packet p)) \<le> length (segment_data (data_packet p))"
  defines "off \<equiv> unat (offset (data_packet p))"
  shows "\<exists>f'. file_io_save_packet h p = Some (takes_segment f off (length (payload p)), h\<lparr>fp := Some f'\<rparr>)
    \<and> seekable f' = seekable f \<and> flushable f' = flushable f \<and> capacity f' = capacity f \<and> slack f' = slack f
    \<and> (takes_segment f off (length (payload p)) \<longrightarrow> bytes f' = write_at (bytes f) off (payload p))"
proof -
  have l: "length (payload p) = unat (seg_len (data_packet p))" using assms(2) by (simp add: payload_def)
  have g: "get_bytes (segment_data (data_packet p)) 0 (unat (seg_len (data_packet p))) = Some (payload p)"
    using assms(2) by (simp add: get_bytes_def payload_def)
  have t: "take (min (length (payload p)) n) (payload p) = take n (payload p)" for n by (simp add: min_def)
  show ?thesis
    using assms(1) l [symmetric] g
    by (auto simp: file_io_save_packet_def fseek_def fwrite_def fflush_def Let_def off_def t takes_segment_def
        length_write_at_any min_def max_def split: if_splits)
qed

definition ready :: "file_io_partition_handle \<Rightarrow> nat \<Rightarrow> u8 list \<Rightarrow> bool" where
  "ready h n b \<longleftrightarrow> (\<exists>f. fp h = Some f \<and> seekable f \<and> flushable f \<and> n \<le> capacity f \<and> bytes f = b)"

definition written :: "u8 list \<Rightarrow> nat set \<Rightarrow> u8 list \<Rightarrow> bool" where
  "written b I c \<longleftrightarrow> length c = length b
     \<and> (\<forall>j < length b. c ! j = (if j div UDP_PACKET_DATA_SIZE \<in> I then b ! j else 0))"

lemma written_zero: "written b {} (replicate (length b) 0)"
  by (simp add: written_def)

lemma written_all: "written b I c \<Longrightarrow> {0..<packet_count b} \<subseteq> I \<Longrightarrow> c = b"
  unfolding written_def packet_count_iff UDP_PACKET_DATA_SIZE_val
proof (elim conjE, rule nth_equalityI, assumption)
  fix j
  assume a: "{0..<packet_count b} \<subseteq> I" "\<forall>j < length b. c ! j = (if j div 9166 \<in> I then b ! j else 0)"
    "length c = length b" "j < length c"
  then have "j div 9166 < packet_count b"
    unfolding packet_count_iff UDP_PACKET_DATA_SIZE_val by simp
  then show "c ! j = b ! j" using a by auto
qed

lemma in_chunk: "j < length b \<Longrightarrow> (i * UDP_PACKET_DATA_SIZE \<le> j \<and> j < i * UDP_PACKET_DATA_SIZE + length (chunk b i))
    \<longleftrightarrow> j div UDP_PACKET_DATA_SIZE = i"
  unfolding chunk_def UDP_PACKET_DATA_SIZE_val by auto

lemma nth_chunk: "j div UDP_PACKET_DATA_SIZE = i \<Longrightarrow> j < length b \<Longrightarrow>
    chunk b i ! (j - i * UDP_PACKET_DATA_SIZE) = b ! j"
  unfolding chunk_def UDP_PACKET_DATA_SIZE_val by auto

lemma chunk_fits: "i < packet_count b \<Longrightarrow> i * UDP_PACKET_DATA_SIZE + length (chunk b i) \<le> length b"
  unfolding packet_count_iff chunk_def UDP_PACKET_DATA_SIZE_val by auto

lemma written_chunk:
  assumes "written b I c" "i < packet_count b"
  shows "written b (insert i I) (write_at c (i * UDP_PACKET_DATA_SIZE) (chunk b i))"
proof -
  have l: "length c = length b" using assms(1) by (simp add: written_def)
  have fit: "i * UDP_PACKET_DATA_SIZE + length (chunk b i) \<le> length c"
    using chunk_fits [OF assms(2)] l by simp
  show ?thesis
    using assms(1) l length_write_at [OF fit] nth_write_at [OF fit] in_chunk [of _ b i] nth_chunk [of _ i b]
    unfolding written_def by auto
qed

lemma save_file_packet:
  assumes "ready h (length b) c" "written b I c" "i < packet_count b" "length b < 2 ^ 32"
    "wf_packet q" "same_data (data_packet q) (data_packet (file_packet b i))"
  shows "\<exists>h' c'. file_io_save_packet h q = Some (True, h') \<and> ready h' (length b) c' \<and> written b (insert i I) c'"
proof -
  obtain f where f: "fp h = Some f" "seekable f" "flushable f" "length b \<le> capacity f" "bytes f = c"
    using assms(1) by (auto simp: ready_def)
  have same: "offset (data_packet q) = offset (data_packet (file_packet b i))"
      "seg_len (data_packet q) = seg_len (data_packet (file_packet b i))" "payload q = payload (file_packet b i)"
    using assms(6) by (auto simp: same_data_def payload_def)
  then have q: "unat (offset (data_packet q)) = i * UDP_PACKET_DATA_SIZE" "payload q = chunk b i"
      "unat (seg_len (data_packet q)) = length (chunk b i)"
    using offset_file_packet [OF assms(3,4)] file_packet_fields(4) [of b i] payload_file_packet [of b i] by simp_all
  note fit = chunk_fits [OF assms(3)]
  have "unat (seg_len (data_packet q)) \<le> length (segment_data (data_packet q))"
    using assms(5) q(3) length_chunk [of b i] by (simp add: wf_packet_def)
  moreover have "takes_segment f (i * UDP_PACKET_DATA_SIZE) (length (chunk b i))"
    using f fit assms(2) by (simp add: takes_segment_def written_def)
  ultimately have "\<exists>h'. file_io_save_packet h q = Some (True, h')
      \<and> ready h' (length b) (write_at c (i * UDP_PACKET_DATA_SIZE) (chunk b i))"
    using save_packet_result [OF f(1)] f q by (fastforce simp: ready_def)
  with written_chunk [OF assms(2,3)] show ?thesis by blast
qed

text \<open>Saving one packet after the other; the receiving thread stops at the first that fails.\<close>

fun save_all :: "file_io_partition_handle \<Rightarrow> ucp_packet list \<Rightarrow> (bool \<times> file_io_partition_handle) option" where
  "save_all h [] = Some (True, h)"
| "save_all h (p # ps) = do {
     (ok, h) \<leftarrow> file_io_save_packet h p;
     if ok then save_all h ps else Some (False, h)
   }"

lemma save_all_file_packets:
  assumes "ready h (length b) c" "written b I c" "length b < 2 ^ 32"
    "\<forall>q \<in> set qs. wf_packet q \<and> (\<exists>i < packet_count b. same_data (data_packet q) (data_packet (file_packet b i)))"
  shows "\<exists>h' c' J. save_all h qs = Some (True, h') \<and> ready h' (length b) c' \<and> written b J c' \<and> I \<subseteq> J
    \<and> (\<forall>q \<in> set qs. \<exists>i \<in> J. i < packet_count b \<and> same_data (data_packet q) (data_packet (file_packet b i)))"
  using assms
proof (induction qs arbitrary: h c I)
  case Nil
  then show ?case by auto
next
  case (Cons q qs)
  obtain i where i: "i < packet_count b" "same_data (data_packet q) (data_packet (file_packet b i))" "wf_packet q"
    using Cons.prems(4) by auto
  obtain h1 c1 where h1: "file_io_save_packet h q = Some (True, h1)" "ready h1 (length b) c1" "written b (insert i I) c1"
    using save_file_packet [OF Cons.prems(1,2) i(1) Cons.prems(3) i(3,2)] by blast
  obtain h' c' J where "save_all h1 qs = Some (True, h')" "ready h' (length b) c'" "written b J c'" "insert i I \<subseteq> J"
      "\<forall>q \<in> set qs. \<exists>i \<in> J. i < packet_count b \<and> same_data (data_packet q) (data_packet (file_packet b i))"
    using Cons.IH [OF h1(2,3) Cons.prems(3)] Cons.prems(4) by auto
  with h1(1) i show ?case by (intro exI [of _ h'] exI [of _ c'] exI [of _ J]) auto
qed

lemma open_file_ready:
  assumes "bytes f = []" "pos f = 0" "seekable f" "flushable f" "unat n \<le> capacity f"
  shows "\<exists>h'. file_io_open_file_of_size (Some f) h n = (True, h') \<and> ready h' (unat n) (replicate (unat n) 0)"
  using fill_loop_ok [of f "unat n"] assms by (simp add: file_io_open_file_of_size_def ready_def)

subsection \<open>Properties\<close>

definition example_file :: "u8 list \<Rightarrow> c_file" where
  "example_file b = \<lparr>bytes = b, pos = 0, eof = False, capacity = 40000, slack = 4096, seekable = True, flushable = True\<rparr>"

definition example_handle :: "u8 list \<Rightarrow> file_io_partition_handle" where
  "example_handle b = zero_handle\<lparr>fp := Some (example_file b)\<rparr>"

lemma example_handle_ok: "fresh_handle (example_handle b) b" "fp (example_handle b) = Some (example_file b)"
  by (simp_all add: fresh_handle_def example_handle_def zero_handle_def example_file_def)

text \<open>Reading a part to its end. The calls of \<open>file_io_get_next_packet\<close> on a fresh handle end with NULL
  after one packet per \<open>UDP_PACKET_DATA_SIZE\<close> bytes begun; the packets are numbered 0, 1, 2, ..., each is
  full except the last, carries the bytes at its offset, and their segments in order are the file.\<close>

theorem file_io_packets_cover_file:
  assumes "fresh_handle h b" "length b < 2 ^ 32"
  shows "\<exists>ps h'. read_packets h = Some (ps, h') \<and> concat (map payload ps) = b
    \<and> length ps = (length b + 9165) div 9166
    \<and> (\<forall>i < length ps. pkt_type (ps ! i) = UCP_PACKET_TYPE_DATA
        \<and> unat (data_seq_no (data_packet (ps ! i))) = i
        \<and> unat (offset (data_packet (ps ! i))) = i * 9166
        \<and> unat (seg_len (data_packet (ps ! i))) = min 9166 (length b - i * 9166))"
proof -
  let ?ps = "map (file_packet b) [0..<packet_count b]"
  have "concat (map payload ?ps) = b"
    using concat_chunks [of 0 b] by (simp add: payload_file_packet comp_def)
  moreover have "i < packet_count b \<Longrightarrow> unat (of_nat i :: u32) = i" for i
    using assms(2) by (intro of_nat_inverse [OF refl]) (simp add: packet_count_iff UDP_PACKET_DATA_SIZE_val)
  moreover have "length (chunk b i) = min 9166 (length b - i * 9166)" for i
    by (simp add: chunk_def UDP_PACKET_DATA_SIZE_val min.commute)
  moreover have "i < packet_count b \<Longrightarrow> unat (offset (data_packet (file_packet b i))) = i * 9166" for i
    using offset_file_packet [OF _ assms(2)] by (simp add: UDP_PACKET_DATA_SIZE_val)
  moreover have "(length b + 9165) div 9166 = packet_count b"
    by (simp add: packet_count_def UDP_PACKET_DATA_SIZE_val)
  ultimately show ?thesis using read_packets_file [OF assms]
    by (auto simp: file_packet_fields)
qed

theorem file_io_packets_cover_file_witness:
  "\<exists>ps h'. read_packets (example_handle (replicate 9167 5)) = Some (ps, h') \<and> length ps = 2
    \<and> concat (map payload ps) = replicate 9167 5"
  using file_io_packets_cover_file [OF example_handle_ok(1), of "replicate 9167 5"] by force

lemma strictly_between_multiples:
  assumes "0 < (m :: nat)"
  shows "(\<exists>i. i \<noteq> 0 \<and> i * m < n \<and> n < Suc i * m) \<longleftrightarrow> m < n \<and> \<not> m dvd n"
proof
  assume "\<exists>i. i \<noteq> 0 \<and> i * m < n \<and> n < Suc i * m"
  then obtain i where i: "i \<noteq> 0" "i * m < n" "n < Suc i * m" by blast
  have "\<not> m dvd n"
  proof
    assume "m dvd n"
    then obtain k where "n = k * m" by (auto simp: dvd_def mult.commute)
    then have "i < k" "k < Suc i" using i(2,3) mult_less_cancel2 by blast+
    then show False by simp
  qed
  moreover have "m \<le> i * m" using i(1) by (cases i) simp_all
  then have "m < n" using i(2) by (rule order_le_less_trans)
  ultimately show "m < n \<and> \<not> m dvd n" by simp
next
  assume a: "m < n \<and> \<not> m dvd n"
  then have r: "0 < n mod m" "n mod m < m" using assms by (simp_all add: mod_greater_zero_iff_not_dvd)
  have n: "n div m * m + n mod m = n" by simp
  then have "n div m * m < n" "n < Suc (n div m) * m" using r mult_Suc [of "n div m" m] by linarith+
  moreover have "n div m \<noteq> 0" using a assms by (simp add: div_eq_0_iff)
  ultimately show "\<exists>i. i \<noteq> 0 \<and> i * m < n \<and> n < Suc i * m" by blast
qed

text \<open>Which packets say END. Only a read that comes up short marks its packet, and never the first:
  some packet of a part carries \<open>UCP_FLAG_DATA_END\<close> exactly when the part needs more than one packet and its
  length is no multiple of the packet size. For other parts the last packet is not marked at all.\<close>

theorem file_io_end_flag_iff:
  assumes "fresh_handle h b" "length b < 2 ^ 32"
  shows "\<exists>ps h'. read_packets h = Some (ps, h')
    \<and> ((\<exists>p \<in> set ps. data_flag (data_packet p) = UCP_FLAG_DATA_END) \<longleftrightarrow> 9166 < length b \<and> \<not> 9166 dvd length b)
    \<and> (\<forall>p \<in> set ps. data_flag (data_packet p) = UCP_FLAG_DATA_START \<longleftrightarrow> offset (data_packet p) = 0)"
proof -
  let ?ps = "map (file_packet b) [0..<packet_count b]"
  have short: "(length (chunk b i) < UDP_PACKET_DATA_SIZE) = (length b < Suc i * 9166)" if "i < packet_count b" for i
    using that unfolding packet_count_iff chunk_def UDP_PACKET_DATA_SIZE_val by auto
  have flag: "data_flag (data_packet (file_packet b i)) = UCP_FLAG_DATA_END
      \<longleftrightarrow> i \<noteq> 0 \<and> length b < Suc i * 9166" if "i < packet_count b" for i
    using short [OF that] by (simp add: file_packet_fields file_packet_flag_def packet_enums del: mult_Suc)
  have "(\<exists>p \<in> set ?ps. data_flag (data_packet p) = UCP_FLAG_DATA_END)
      \<longleftrightarrow> (\<exists>i. i < packet_count b \<and> i \<noteq> 0 \<and> length b < Suc i * 9166)"
    using flag by (auto simp del: mult_Suc)
  also have "\<dots> \<longleftrightarrow> (\<exists>i. i \<noteq> 0 \<and> i * 9166 < length b \<and> length b < Suc i * 9166)"
    unfolding packet_count_iff UDP_PACKET_DATA_SIZE_val by blast
  also have "\<dots> \<longleftrightarrow> 9166 < length b \<and> \<not> 9166 dvd length b" by (rule strictly_between_multiples) simp
  finally have e: "(\<exists>p \<in> set ?ps. data_flag (data_packet p) = UCP_FLAG_DATA_END)
      \<longleftrightarrow> 9166 < length b \<and> \<not> 9166 dvd length b" .
  have "offset (data_packet (file_packet b i)) = 0 \<longleftrightarrow> i = 0" if "i < packet_count b" for i
    using offset_file_packet [OF that assms(2)] by (auto simp: word_unat_eq_iff UDP_PACKET_DATA_SIZE_val)
  then have "\<forall>p \<in> set ?ps. data_flag (data_packet p) = UCP_FLAG_DATA_START \<longleftrightarrow> offset (data_packet p) = 0"
    by (auto simp: file_packet_fields file_packet_flag_def packet_enums)
  with e read_packets_file [OF assms] show ?thesis by blast
qed

theorem file_io_end_flag_iff_witness:
  "\<exists>ps h'. read_packets (example_handle (replicate 9166 5)) = Some (ps, h')
    \<and> (\<forall>p \<in> set ps. data_flag (data_packet p) \<noteq> UCP_FLAG_DATA_END)"
  using file_io_end_flag_iff [OF example_handle_ok(1), of "replicate 9166 5"] by force

text \<open>C34: \<open>file_io_save_packet\<close>, for any segment that the packet's array holds, inside the file, across its
  end or beyond it. It reports TRUE exactly when the stream can be positioned (which writes out what it still
  buffers), the segment fits on the device and the flush succeeds. Then the file holds the segment at the
  packet's offset, every other byte is unchanged, and a gap between the old end and the segment reads as
  zeros. No field of the handle but its stream changes.\<close>

theorem file_io_save_packet_correct:
  assumes "fp h = Some f" "wf_packet p" "unat (seg_len (data_packet p)) \<le> 9166"
  shows "\<exists>ok f'. file_io_save_packet h p = Some (ok, h\<lparr>fp := Some f'\<rparr>)
    \<and> (ok \<longleftrightarrow> seekable f \<and> flushable f \<and> length (bytes f) \<le> capacity f \<and> (seg_len (data_packet p) = 0
          \<or> unat (offset (data_packet p)) + unat (seg_len (data_packet p)) \<le> capacity f))
    \<and> (ok \<longrightarrow> length (bytes f') = (if seg_len (data_packet p) = 0 then length (bytes f)
          else max (length (bytes f)) (unat (offset (data_packet p)) + unat (seg_len (data_packet p))))
        \<and> (\<forall>j < length (bytes f'). bytes f' ! j =
            (if unat (offset (data_packet p)) \<le> j \<and> j < unat (offset (data_packet p)) + unat (seg_len (data_packet p))
             then segment_data (data_packet p) ! (j - unat (offset (data_packet p)))
             else if j < length (bytes f) then bytes f ! j else 0)))"
proof -
  have w: "unat (seg_len (data_packet p)) \<le> length (segment_data (data_packet p))"
    using assms(2,3) by (simp add: wf_packet_def UDP_PACKET_DATA_SIZE_val)
  then have l: "length (payload p) = unat (seg_len (data_packet p))" by (simp add: payload_def)
  have z: "(payload p = []) = (seg_len (data_packet p) = 0)" using l by (metis length_0_conv unat_eq_zero)
  let ?o = "unat (offset (data_packet p))"
  let ?ok = "takes_segment f ?o (length (payload p))"
  obtain f' where f': "file_io_save_packet h p = Some (?ok, h\<lparr>fp := Some f'\<rparr>)"
      "?ok \<Longrightarrow> bytes f' = write_at (bytes f) ?o (payload p)"
    using save_packet_result [OF assms(1) w] by auto
  have "?ok \<longleftrightarrow> seekable f \<and> flushable f \<and> length (bytes f) \<le> capacity f \<and> (seg_len (data_packet p) = 0
      \<or> ?o + unat (seg_len (data_packet p)) \<le> capacity f)"
    unfolding takes_segment_def l unat_eq_zero ..
  moreover have "length (bytes f') = (if seg_len (data_packet p) = 0 then length (bytes f)
      else max (length (bytes f)) (?o + unat (seg_len (data_packet p))))" if ?ok
    using f'(2) [OF that] by (simp add: length_write_at_any z l)
  moreover have "\<forall>j < length (bytes f'). bytes f' ! j =
      (if ?o \<le> j \<and> j < ?o + unat (seg_len (data_packet p)) then segment_data (data_packet p) ! (j - ?o)
       else if j < length (bytes f) then bytes f ! j else 0)" if ?ok
    unfolding f'(2) [OF that] by (auto simp: nth_write_at_any l) (auto simp: payload_def)
  ultimately show ?thesis using f'(1) by blast
qed

theorem file_io_save_packet_correct_witness:
  "\<exists>f'. file_io_save_packet (example_handle (replicate 200 1))
      (file_packet (replicate 300 5) 0) = Some (True, (example_handle (replicate 200 1))\<lparr>fp := Some f'\<rparr>)
    \<and> length (bytes f') = 300 \<and> bytes f' ! 299 = 5"
proof -
  have c: "length (chunk (replicate 300 5) 0) = 300" by (simp add: chunk_def UDP_PACKET_DATA_SIZE_val)
  have o: "unat (offset (data_packet (file_packet (replicate 300 5) 0))) = 0"
    by (simp add: file_packet_def)
  have d: "segment_data (data_packet (file_packet (replicate 300 5) 0)) ! 299 = 5"
    by (simp add: file_packet_def nth_append c del: length_replicate) (simp add: chunk_def UDP_PACKET_DATA_SIZE_val)
  have n: "unat (seg_len (data_packet (file_packet (replicate 300 5) 0))) = 300"
    using file_packet_fields(4) [of "replicate 300 5" 0] c by simp
  then have "seg_len (data_packet (file_packet (replicate 300 5) 0)) \<noteq> 0" by auto
  with file_io_save_packet_correct [OF example_handle_ok(2), of "file_packet (replicate 300 5) 0" "replicate 200 1"]
  show ?thesis
    using file_packet_fields(1) [of "replicate 300 5" 0] o d n by (force simp: example_file_def)
qed

text \<open>C35: \<open>file_io_open_file_of_size\<close> on a file that \<open>fopen\<close> opened for writing. The loop ends, and returns
  TRUE exactly when the device and the buffer of the stream together take \<open>size\<close> zero bytes; the file then
  reads as exactly that many zeros. Nothing is flushed, so TRUE does not mean that the device has room: when
  it has not, the next \<open>file_io_save_packet\<close>, of whatever packet, is the first to report it. If the file
  cannot be opened it returns FALSE. The size recorded in the handle is cut to 32 bits.\<close>

theorem file_io_open_file_of_size_correct:
  assumes "bytes f = []" "pos f = 0"
  shows "\<exists>f'. file_io_open_file_of_size (Some f) h n
        = (unat n \<le> capacity f + slack f, h\<lparr>fp := Some f', handle_part_size := ucast n\<rparr>)
      \<and> (unat n \<le> capacity f + slack f \<longrightarrow> bytes f' = replicate (unat n) 0)
      \<and> (capacity f < unat n \<and> unat n \<le> capacity f + slack f
          \<longrightarrow> (\<forall>p. file_io_save_packet (h\<lparr>fp := Some f', handle_part_size := ucast n\<rparr>) p
                = Some (False, h\<lparr>fp := Some f', handle_part_size := ucast n\<rparr>)))
      \<and> \<not> fst (file_io_open_file_of_size None h n)"
proof (cases "unat n \<le> capacity f + slack f")
  case True
  then have "fill_loop (unat n) f = (True, f\<lparr>bytes := replicate (unat n) 0, pos := unat n\<rparr>)"
    using fill_loop_ok [of f "unat n"] assms by simp
  then show ?thesis using True
    by (auto simp: file_io_open_file_of_size_def file_io_save_packet_def fseek_def)
next
  case False
  then have "\<not> fst (fill_loop (unat n) f)" using fill_loop_full [of f "unat n"] assms by simp
  then show ?thesis using False
    by (cases "fill_loop (unat n) f") (auto simp: file_io_open_file_of_size_def)
qed

theorem file_io_open_file_of_size_correct_witness:
  "\<exists>f'. file_io_open_file_of_size (Some (example_file [])) zero_handle 9500
     = (True, zero_handle\<lparr>fp := Some f', handle_part_size := 9500\<rparr>) \<and> bytes f' = replicate 9500 0"
  using file_io_open_file_of_size_correct [of "example_file []" zero_handle 9500] by (auto simp: example_file_def)

text \<open>C8: reassembly. If every packet of a part arrives at least once, in any order, with any repetitions, and
  nothing else does, then a file opened with the size of the part and given all arriving packets ends up with
  exactly the bytes of the part, and every save succeeds. An arriving packet agrees with the packet that was
  read in its flag, number, offset, length and segment, as decoding gives it.\<close>

theorem file_io_reassembly:
  assumes "fresh_handle h b" "length b < 2 ^ 32" "read_packets h = Some (ps, h1)"
    and "bytes f = []" "pos f = 0" "seekable f" "flushable f" "length b \<le> capacity f"
    and "\<forall>q \<in> set qs. wf_packet q \<and> (\<exists>p \<in> set ps. same_data (data_packet q) (data_packet p))"
    and "\<forall>p \<in> set ps. \<exists>q \<in> set qs. same_data (data_packet q) (data_packet p)"
  shows "\<exists>s s' f'. file_io_open_file_of_size (Some f) s0 (of_nat (length b)) = (True, s)
    \<and> save_all s qs = Some (True, s') \<and> fp s' = Some f' \<and> bytes f' = b"
proof -
  have ps: "ps = map (file_packet b) [0..<packet_count b]"
    using read_packets_file [OF assms(1,2)] assms(3) by auto
  have n: "unat (of_nat (length b) :: u64) = length b"
    using assms(2) by (intro of_nat_inverse [OF refl]) simp
  obtain s where s: "file_io_open_file_of_size (Some f) s0 (of_nat (length b)) = (True, s)"
      "ready s (length b) (replicate (length b) 0)"
    using open_file_ready [of f "of_nat (length b)" s0] assms(4-8) n by auto
  have qs: "\<forall>q \<in> set qs. wf_packet q \<and> (\<exists>i < packet_count b. same_data (data_packet q) (data_packet (file_packet b i)))"
    using assms(9) ps by fastforce
  obtain s' c J where s': "save_all s qs = Some (True, s')" "ready s' (length b) c" "written b J c"
      "\<forall>q \<in> set qs. \<exists>i \<in> J. i < packet_count b \<and> same_data (data_packet q) (data_packet (file_packet b i))"
    using save_all_file_packets [OF s(2) written_zero assms(2) qs] by blast
  have "i \<in> J" if i: "i < packet_count b" for i
  proof -
    obtain q where q: "q \<in> set qs" "same_data (data_packet q) (data_packet (file_packet b i))"
      using assms(10) ps i by fastforce
    with s'(4) obtain j where j: "j \<in> J" "j < packet_count b" "same_data (data_packet q) (data_packet (file_packet b j))"
      by blast
    have "of_nat i = (of_nat j :: u32)" using q(2) j(3) by (simp add: same_data_def file_packet_fields)
    moreover have "k < packet_count b \<Longrightarrow> unat (of_nat k :: u32) = k" for k
      using assms(2) by (intro of_nat_inverse [OF refl]) (simp add: packet_count_iff UDP_PACKET_DATA_SIZE_val)
    ultimately have "i = j" using i j(2) by metis
    with j(1) show ?thesis by simp
  qed
  then have "{0..<packet_count b} \<subseteq> J" by auto
  then have "c = b" by (rule written_all [OF s'(3)])
  with s(1) s' show ?thesis by (auto simp: ready_def)
qed

theorem file_io_reassembly_witness:
  "\<exists>p q s s' f'. file_io_open_file_of_size (Some (example_file [])) zero_handle 9168 = (True, s)
     \<and> save_all s [q, p, q] = Some (True, s') \<and> fp s' = Some f' \<and> bytes f' = replicate 9168 5"
proof -
  let ?b = "replicate 9168 5 :: u8 list"
  have n: "packet_count ?b = 2" by (simp add: packet_count_def UDP_PACKET_DATA_SIZE_val)
  have u: "[0..<2] = [0, 1 :: nat]" by (simp add: numeral_2_eq_2)
  obtain h1 where r: "read_packets (example_handle ?b) = Some ([file_packet ?b 0, file_packet ?b 1], h1)"
    using read_packets_file [OF example_handle_ok(1), of ?b] n u by auto
  from file_io_reassembly [OF example_handle_ok(1) _ r, of "example_file []"
      "[file_packet ?b 1, file_packet ?b 0, file_packet ?b 1]" zero_handle] show ?thesis
    by (fastforce simp: example_file_def same_data_def file_packet_fields)
qed

text \<open>reading at an offset. \<open>file_io_get_next_packet_with_offset\<close> gives the packet with the bytes at that
  offset, wherever the stream stood, under the next number of the handle, and NULL at or after the end. The
  variant with a size overruns its buffer exactly when more than \<open>UDP_PACKET_DATA_SIZE\<close> bytes are asked for and there.\<close>

theorem file_io_get_packet_at_offset:
  assumes "fp h = Some f" "seekable f" "length (bytes f) \<le> capacity f"
  shows "(unat off < length (bytes f) \<longrightarrow> (\<exists>p h'. file_io_get_next_packet_with_offset True h off = Some (Some p, h')
        \<and> payload p = take 9166 (drop (unat off) (bytes f)) \<and> offset (data_packet p) = ucast off
        \<and> data_seq_no (data_packet p) = last_seq_no h \<and> last_seq_no h' = last_seq_no h + 1))
    \<and> (length (bytes f) \<le> unat off \<longrightarrow> (\<exists>h'. file_io_get_next_packet_with_offset True h off = Some (None, h')))
    \<and> (file_io_get_next_packet_with_offset_and_size True h off n = None
        \<longleftrightarrow> 9166 < min (unat n) (length (bytes f) - unat off))"
proof -
  have small: "unat (of_nat (length xs) :: u64) = length xs" if "length xs \<le> 9166" for xs :: "u8 list"
    using that by (intro of_nat_inverse [OF refl]) simp
  let ?xs = "take 9166 (drop (unat off) (bytes f))"
  have put: "put_bytes zero_buffer 0 xs = (if length xs \<le> 9166 then Some (xs @ replicate (9166 - length xs) 0) else None)" for xs
    by (simp add: put_bytes_def zero_buffer_def UDP_PACKET_DATA_SIZE_val)
  have init: "ucp_packet_init_data True sq off (xs @ replicate (9166 - length xs) 0) (of_nat (length xs)) = Some (Some
      ((the (ucp_packet_init True UCP_PACKET_TYPE_DATA))\<lparr>data_packet :=
      \<lparr>data_flag = 0, data_seq_no = sq, offset = ucast off, seg_len = of_nat (length xs),
       segment_data = xs @ replicate (9166 - length xs) 0\<rparr>\<rparr>))" if "length xs \<le> 9166" for xs sq
    using that small [OF that] by (subst init_data_Some) (simp_all add: UDP_PACKET_DATA_SIZE_val)
  have xs: "length ?xs \<le> 9166" "take (length ?xs) (drop (unat off) (bytes f)) = ?xs" by (simp_all add: min_def)
  have a: "\<exists>p h'. file_io_get_next_packet_with_offset True h off = Some (Some p, h')
        \<and> payload p = ?xs \<and> offset (data_packet p) = ucast off
        \<and> data_seq_no (data_packet p) = last_seq_no h \<and> last_seq_no h' = last_seq_no h + 1"
    if "unat off < length (bytes f)"
    using assms that put [of ?xs] init [of ?xs] small [of ?xs] xs
    by (simp add: file_io_get_next_packet_with_offset_def fseek_def fread_def Let_def UDP_PACKET_DATA_SIZE_val payload_def
        del: length_take)
  have b: "\<exists>h'. file_io_get_next_packet_with_offset True h off = Some (None, h')"
    if "length (bytes f) \<le> unat off"
    using assms that put [of "[]"]
    by (simp add: file_io_get_next_packet_with_offset_def fseek_def fread_def Let_def UDP_PACKET_DATA_SIZE_val)
  let ?ys = "take (unat n) (drop (unat off) (bytes f))"
  have c: "file_io_get_next_packet_with_offset_and_size True h off n = None \<longleftrightarrow> 9166 < length ?ys"
  proof (cases "length ?ys \<le> 9166")
    case True
    then show ?thesis using assms put [of ?ys] init [of ?ys]
      by (simp add: file_io_get_next_packet_with_offset_and_size_def fseek_def fread_def Let_def del: length_take)
  next
    case False
    then show ?thesis using assms put [of ?ys]
      by (simp add: file_io_get_next_packet_with_offset_and_size_def fseek_def fread_def Let_def del: length_take)
  qed
  have "length ?ys = min (unat n) (length (bytes f) - unat off)" by (simp add: min.commute)
  with a b c show ?thesis by (simp del: length_take)
qed

theorem file_io_get_packet_at_offset_witness:
  "file_io_get_next_packet_with_offset_and_size True (example_handle (replicate 9500 1)) 100 9200 = None"
  using file_io_get_packet_at_offset [OF example_handle_ok(2) [of "replicate 9500 1"], of 100 9200]
  by (simp add: example_file_def)

text \<open>The handle that \<open>file_io_partition_file\<close> makes for part \<open>i\<close> with the bytes \<open>b\<close>.\<close>

definition part_handle :: "nat \<Rightarrow> u8 list \<Rightarrow> file_io_partition_handle" where
  "part_handle i b = \<lparr>filepath = part_path i, fp = Some \<lparr>bytes = b, pos = 0, eof = False, capacity = length b, slack = 0,
     seekable = True, flushable = True\<rparr>, bytes_read = 0, idx = of_nat i, last_seq_no = 0,
     handle_part_size = of_nat (length b)\<rparr>"

lemma unat_u8: "i \<le> 255 \<Longrightarrow> unat (of_nat i :: u8) = i"
  by (intro of_nat_inverse [OF refl]) simp

lemma partition_loop_parts:
  assumes "\<forall>i < n. files d (part_path i) = Some (parts ! i) \<and> may_open d (part_path i)" "n \<le> 255"
    "length hs = k" "k \<le> n"
  shows "partition_loop d (int n) (of_nat k) (hs @ replicate (n - k) zero_handle)
    = Some (Some (hs @ map (\<lambda>i. part_handle i (parts ! i)) [k..<n]))"
  using assms(3,4)
proof (induction "n - k" arbitrary: k hs)
  case 0
  then show ?case using assms(2) by (subst partition_loop.simps) (simp add: unat_u8 uint_nat)
next
  case (Suc m)
  have k: "k < n" using Suc.hyps(2) by simp
  have u: "unat (of_nat k :: u8) = k" "uint (of_nat k :: u8) = int k"
    using unat_u8 [of k] k assms(2) by (simp_all add: uint_nat)
  have part: "files d (part_path k) = Some (parts ! k)" "may_open d (part_path k)" using assms(1) k by simp_all
  have "of_nat k + 1 = (of_nat (Suc k) :: u8)" by (simp add: add.commute)
  moreover have "(hs @ replicate (n - k) zero_handle)[k := part_handle k (parts ! k)]
      = (hs @ [part_handle k (parts ! k)]) @ replicate (n - Suc k) zero_handle"
    using k Suc.prems(1) by (simp add: list_update_append Suc_diff_Suc [symmetric])
  moreover have "partition_loop d (int n) (of_nat (Suc k)) ((hs @ [part_handle k (parts ! k)]) @ replicate (n - Suc k) zero_handle)
      = Some (Some ((hs @ [part_handle k (parts ! k)]) @ map (\<lambda>i. part_handle i (parts ! i)) [Suc k..<n]))"
    by (rule Suc.hyps(1)) (use Suc.hyps(2) Suc.prems k in auto)
  moreover have "(hs @ replicate (n - k) zero_handle) ! k = zero_handle" using k Suc.prems(1) by (simp add: nth_append)
  ultimately show ?case
    using k u part Suc.prems(1)
    by (subst partition_loop.simps)
       (simp add: fopen_rb_def fseek_def Let_def upt_conv_Cons part_handle_def zero_handle_def del: of_nat_Suc)
qed

lemma release_loop_parts:
  assumes "n \<le> 255" "n \<le> length hs" "\<forall>i < n. fp (hs ! i) \<noteq> None" "k \<le> n"
  shows "release_loop hs (of_nat n) (of_nat k) d
    = Some (d\<lparr>files := files d |` (- filepath ` set (drop k (take n hs)))\<rparr>)"
  using assms(4)
proof (induction "n - k" arbitrary: k d)
  case 0
  then show ?case by (subst release_loop.simps) (simp add: restrict_map_def)
next
  case (Suc m)
  have k: "k < n" using Suc.hyps(2) by simp
  have u: "unat (of_nat k :: u8) = k" "(of_nat k :: u8) < of_nat n"
    using unat_u8 [of k] unat_u8 [of n] k assms(1) by (simp_all add: word_less_nat_alt)
  have next_i: "of_nat k + 1 = (of_nat (Suc k) :: u8)" by (simp add: add.commute)
  obtain f where f: "fp (hs ! k) = Some f" using assms(3) k by auto
  define d1 where "d1 = d\<lparr>files := (files d)(filepath (hs ! k) := None)\<rparr>"
  have IH: "release_loop hs (of_nat n) (of_nat (Suc k)) d1
      = Some (d1\<lparr>files := files d1 |` (- filepath ` set (drop (Suc k) (take n hs)))\<rparr>)"
    by (rule Suc.hyps(1)) (use Suc.hyps(2) k in auto)
  have "drop k (take n hs) = hs ! k # drop (Suc k) (take n hs)"
    using k assms(2) Cons_nth_drop_Suc [of k "take n hs"] by simp
  then have "files d1 |` (- filepath ` set (drop (Suc k) (take n hs)))
      = files d |` (- filepath ` set (drop k (take n hs)))"
    by (auto simp: d1_def restrict_map_def)
  with IH show ?case using u next_i f k assms(2)
    by (subst release_loop.simps) (simp add: d1_def del: of_nat_Suc)
qed

text \<open>C36: \<open>file_io_partition_file\<close>. If \<open>split\<close> succeeds and leaves the parts under the names it is
  documented to use (they are read as \<open>tmp_00\<close>, \<open>tmp_01\<close>, ...), then one handle per part is returned, in order,
  each ready to be read from the start, with its index, path and size; the bytes of all handles in order are
  those of the file. If \<open>split\<close> fails, NULL is returned.\<close>

theorem file_io_partition_file_correct:
  assumes "sh (take 254 (''/usr/bin/split -d -n '' @ show_int (int n) @ '' '' @ path @ '' tmp_'')) d = Some (ret, d')"
    and "ret = 0 \<longrightarrow> length parts = n \<and> concat parts = b
      \<and> (\<forall>i < n. files d' (part_path i) = Some (parts ! i) \<and> may_open d' (part_path i))"
    and "n \<le> 255"
  shows "\<exists>r. file_io_partition_file sh True path (int n) d = Some (r, d')
    \<and> (ret \<noteq> 0 \<longrightarrow> r = None)
    \<and> (ret = 0 \<longrightarrow> (\<exists>hs. r = Some hs \<and> length hs = n
        \<and> (\<forall>i < n. fresh_handle (hs ! i) (parts ! i) \<and> filepath (hs ! i) = part_path i \<and> unat (idx (hs ! i)) = i
            \<and> handle_part_size (hs ! i) = of_nat (length (parts ! i)))
        \<and> concat (map (\<lambda>h. case fp h of Some f \<Rightarrow> bytes f | None \<Rightarrow> []) hs) = b))"
proof (cases "ret = 0")
  case True
  let ?hs = "map (\<lambda>i. part_handle i (parts ! i)) [0..<n]"
  have "partition_loop d' (int n) 0 (replicate n zero_handle) = Some (Some ?hs)"
    using partition_loop_parts [of n d' parts "[]" 0] assms(2,3) True by simp
  then have run: "file_io_partition_file sh True path (int n) d = Some (Some ?hs, d')"
    using assms(1) True by (simp add: file_io_partition_file_def)
  have "map (\<lambda>h. case fp h of Some f \<Rightarrow> bytes f | None \<Rightarrow> []) ?hs = map (\<lambda>i. parts ! i) [0..<n]"
    by (simp add: part_handle_def comp_def)
  also have "\<dots> = parts" using assms(2) True map_nth [of parts] by simp
  finally have "concat (map (\<lambda>h. case fp h of Some f \<Rightarrow> bytes f | None \<Rightarrow> []) ?hs) = b"
    using assms(2) True by simp
  then show ?thesis using run True assms(3)
    by (auto simp: part_handle_def fresh_handle_def unat_u8)
next
  case False
  then show ?thesis using assms(1) by (simp add: file_io_partition_file_def)
qed

theorem file_io_partition_file_correct_witness:
  "\<exists>hs d'. file_io_partition_file (\<lambda>c d. Some (0, d\<lparr>files := [part_path 0 \<mapsto> [1, 2], part_path 1 \<mapsto> [3]]\<rparr>)) True ''a'' (int 2)
      \<lparr>files = [''a'' \<mapsto> [1, 2, 3]], may_open = (\<lambda>_. True)\<rparr> = Some (Some hs, d') \<and> length hs = 2
    \<and> fresh_handle (hs ! 1) [3]"
proof -
  have ne: "part_path 0 \<noteq> part_path 1" by (simp add: part_path_def show_02d_def show_nat_digit)
  define d :: disk where "d = \<lparr>files = [''a'' \<mapsto> [1, 2, 3]], may_open = (\<lambda>_. True)\<rparr>"
  define d' :: disk where "d' = \<lparr>files = [part_path 0 \<mapsto> [1, 2], part_path 1 \<mapsto> [3]], may_open = (\<lambda>_. True)\<rparr>"
  define sh :: shell where "sh = (\<lambda>c d. Some (0, d\<lparr>files := [part_path 0 \<mapsto> [1, 2], part_path 1 \<mapsto> [3]]\<rparr>))"
  have run: "sh c d = Some (0, d')" for c by (simp add: sh_def d_def d'_def)
  have "\<forall>i < 2. files d' (part_path i) = Some ([[1, 2], [3]] ! i) \<and> may_open d' (part_path i)"
    using ne by (auto simp: d'_def less_2_cases_iff)
  then have parts: "(0 :: int) = 0 \<longrightarrow> length [[1, 2], [3 :: u8]] = 2 \<and> concat [[1, 2], [3]] = [1, 2, 3]
      \<and> (\<forall>i < 2. files d' (part_path i) = Some ([[1, 2], [3]] ! i) \<and> may_open d' (part_path i))" by simp
  have "(2 :: nat) \<le> 255" by simp
  from file_io_partition_file_correct [of sh 2 "''a''" d 0 d' "[[1, 2], [3]]" "[1, 2, 3]", OF run parts this]
  obtain hs where
    "file_io_partition_file sh True ''a'' (int 2) d = Some (Some hs, d')" "length hs = 2"
    "\<forall>i < 2. fresh_handle (hs ! i) ([[1, 2], [3]] ! i)" by blast
  moreover from this(3) have "fresh_handle (hs ! 1) [3]" by (metis nth_Cons_0 nth_Cons_Suc One_nat_def one_less_numeral_iff semiring_norm(76))
  ultimately show ?thesis unfolding sh_def d_def by (intro exI [of _ hs] exI [of _ d']) simp
qed

text \<open>\<open>file_io_partition_release\<close> on handles whose streams are open closes them and removes exactly the
  files of the first \<open>count\<close> handles; all other files stay.\<close>

theorem file_io_partition_release_correct:
  assumes "n \<le> 255" "n \<le> length hs" "\<forall>i < n. fp (hs ! i) \<noteq> None"
  shows "\<exists>d'. file_io_partition_release hs (of_nat n) d = Some d'
    \<and> (\<forall>name. files d' name = (if name \<in> filepath ` set (take n hs) then None else files d name))"
  using release_loop_parts [OF assms, of 0 d] by (simp add: file_io_partition_release_def restrict_map_def)

theorem file_io_partition_release_correct_witness:
  "\<exists>d'. file_io_partition_release [part_handle 0 [1]] (of_nat 1)
      \<lparr>files = (\<lambda>_. Some [2]), may_open = (\<lambda>_. True)\<rparr> = Some d' \<and> files d' (part_path 0) = None
    \<and> files d' [] = Some [2]"
proof -
  have "part_path 0 \<noteq> []" by (simp add: part_path_def)
  moreover have fs: "filepath ` set (take 1 [part_handle 0 [1]]) = {part_path 0}" by (simp add: part_handle_def)
  moreover have "\<forall>i < 1. fp ([part_handle 0 [1]] ! i) \<noteq> None" by (simp add: part_handle_def)
  ultimately show ?thesis
    using file_io_partition_release_correct [of 1 "[part_handle 0 [1]]" "\<lparr>files = (\<lambda>_. Some [2]), may_open = (\<lambda>_. True)\<rparr>"]
    by auto
qed

end
