(* ===== verification/Tcp_Socket.thy ===== *)
theory Tcp_Socket
  imports UCP_Prelude
begin

text \<open>
  \<open>tcp_socket.h\<close> and \<open>tcp_socket.c\<close>: the control connection. The program's own state is the
  \<open>tcp_server\<close> record (listening descriptor, highest descriptor, descriptor set, endpoints) and
  the \<open>tcp_client\<close> record. The kernel is a record too: the open descriptors, the bytes and
  connections waiting on them, and what the next calls will answer; the socket calls of the file are
  functions on it. A call that would block for ever, a copy outside of an array, and a descriptor
  outside of an \<open>fd_set\<close> are \<open>None\<close>.
\<close>

subsection \<open>The kernel\<close>

record sockaddr_in =
  sin_family :: u16
  sin_port :: u16
  s_addr :: u32

definition AF_INET :: u16 where "AF_INET = 2"
definition FD_SETSIZE :: int where "FD_SETSIZE = 1024"

definition htons :: "u16 \<Rightarrow> u16" where
  "htons w = push_bit 8 w OR drop_bit 8 w"

text \<open>
  \<open>next_sd\<close> is the answer of the next \<open>socket\<close> call, \<open>backlog\<close> the connections waiting to be
  accepted with the descriptor each will get and the peer's address (\<open>None\<close> when \<open>getpeername\<close>
  fails), \<open>incoming\<close> the bytes that wait on a descriptor, \<open>hung_up\<close> the descriptors whose
  peer has closed, \<open>broken\<close> those whose next read fails, \<open>outgoing\<close> the bytes sent on each,
  \<open>accepts\<close> how many bytes a send takes (\<open>None\<close>: it fails), and \<open>net_alloc\<close> whether the small
  allocations made for the connections (an endpoint, a control packet) succeed.
\<close>

record kernel =
  open_sds :: "int set"
  next_sd :: int
  bind_ok :: bool
  listen_ok :: bool
  connect_ok :: bool
  sockname :: "sockaddr_in option"
  backlog :: "(int \<times> sockaddr_in option) list"
  incoming :: "int \<Rightarrow> u8 list"
  hung_up :: "int \<Rightarrow> bool"
  broken :: "int \<Rightarrow> bool"
  outgoing :: "int \<Rightarrow> u8 list"
  accepts :: "int \<Rightarrow> nat option"
  net_alloc :: bool

definition k_socket :: "kernel \<Rightarrow> int \<times> kernel" where
  "k_socket k = (if next_sd k < 0 then (-1, k) else (next_sd k, k\<lparr>open_sds := insert (next_sd k) (open_sds k)\<rparr>))"

definition k_close :: "int \<Rightarrow> kernel \<Rightarrow> kernel" where
  "k_close d k = k\<lparr>open_sds := open_sds k - {d}\<rparr>"

text \<open>\<open>read\<close> and \<open>recv\<close>: the return value and the bytes stored.\<close>

definition k_read :: "int \<Rightarrow> nat \<Rightarrow> kernel \<Rightarrow> (int \<times> u8 list \<times> kernel) option" where
  "k_read d n k = (if broken k d \<or> d \<notin> open_sds k then Some (-1, [], k)
     else if incoming k d \<noteq> [] then
       (let xs = take n (incoming k d) in
        Some (int (length xs), xs, k\<lparr>incoming := (incoming k)(d := drop n (incoming k d))\<rparr>))
     else if hung_up k d then Some (0, [], k)
     else None)"

definition k_send :: "int \<Rightarrow> u8 list \<Rightarrow> kernel \<Rightarrow> int \<times> kernel" where
  "k_send d xs k = (case accepts k d of None \<Rightarrow> (-1, k)
     | Some n \<Rightarrow> (int (length (take n xs)), k\<lparr>outgoing := (outgoing k)(d := outgoing k d @ take n xs)\<rparr>))"

text \<open>\<open>select\<close> on the descriptors \<open>S\<close>: those that can be read, or accepted on, without blocking.\<close>

definition k_select :: "int \<Rightarrow> int set \<Rightarrow> kernel \<Rightarrow> int set" where
  "k_select listener S k = {d \<in> S. if d = listener then backlog k \<noteq> []
     else broken k d \<or> incoming k d \<noteq> [] \<or> hung_up k d}"

subsection \<open>State\<close>

record tcp_sgmnt =
  sgmnt_data :: "u8 list"
  data_len :: int

record tcp_endpoint =
  ep_addr :: sockaddr_in
  ep_sd :: int

record tcp_server =
  sd :: int
  max_sd :: int
  server_fd_set :: "int set"
  endpoints :: "tcp_endpoint list"

definition zero_addr :: sockaddr_in where
  "zero_addr = \<lparr>sin_family = 0, sin_port = 0, s_addr = 0\<rparr>"

definition FD_SET :: "int \<Rightarrow> tcp_server \<Rightarrow> tcp_server option" where
  "FD_SET d s = (if 0 \<le> d \<and> d < FD_SETSIZE then Some (s\<lparr>server_fd_set := insert d (server_fd_set s)\<rparr>) else None)"

definition FD_CLR :: "int \<Rightarrow> tcp_server \<Rightarrow> tcp_server option" where
  "FD_CLR d s = (if 0 \<le> d \<and> d < FD_SETSIZE then Some (s\<lparr>server_fd_set := server_fd_set s - {d}\<rparr>) else None)"

subsection \<open>The server\<close>

text \<open>
  \<open>tcp_server_start\<close> returns the pointer also after it freed the struct; the result says which:
  NULL, a freed struct, or a live server.
\<close>

datatype start_result = Start_NULL | Start_freed | Start_live tcp_server

definition tcp_server_start :: "bool \<Rightarrow> kernel \<Rightarrow> (start_result \<times> kernel) option" where
  "tcp_server_start calloc_ok k =
     (if \<not> calloc_ok then Some (Start_NULL, k)
      else
        let server = \<lparr>sd = 0, max_sd = 0, server_fd_set = {}, endpoints = []\<rparr>;
            (d, k) = k_socket k;
            server = server\<lparr>sd := d\<rparr> in
        if sd server < 0 then Some (Start_freed, k)
        else if \<not> bind_ok k then Some (Start_freed, k)
        else if \<not> listen_ok k then Some (Start_live server, k)
        else do {
          server \<leftarrow> FD_SET (sd server) (server\<lparr>max_sd := sd server\<rparr>);
          Some (Start_live server, k)
        })"

definition close_child_socket :: "tcp_server \<Rightarrow> int \<Rightarrow> kernel \<Rightarrow> (tcp_server \<times> kernel) option" where
  "close_child_socket server child_sd k = do {
     let k = k_close child_sd k;
     server \<leftarrow> FD_CLR child_sd server;
     Some (if child_sd = max_sd server then server\<lparr>max_sd := max_sd server - 1\<rparr> else server, k)
   }"

partial_function (option) stop_loop :: "tcp_server \<Rightarrow> kernel \<Rightarrow> (tcp_server \<times> kernel) option" where
  "stop_loop server k =
     (if max_sd server > sd server then do {
        (server, k) \<leftarrow> close_child_socket server (max_sd server) k;
        stop_loop server k
      } else Some (server, k))"

definition tcp_server_stop :: "tcp_server option \<Rightarrow> kernel \<Rightarrow> kernel option" where
  "tcp_server_stop server k = (case server of None \<Rightarrow> Some k
     | Some server \<Rightarrow> do {
         (server, k) \<leftarrow> stop_loop server k;
         Some (k_close (sd server) k)
       })"

definition create_child_socket ::
    "bool \<Rightarrow> tcp_server \<Rightarrow> int \<Rightarrow> sockaddr_in option \<Rightarrow> tcp_server option" where
  "create_child_socket calloc_ok server child_sd peer =
     (if \<not> calloc_ok then None
      else do {
        let endpoint = \<lparr>ep_addr = zero_addr, ep_sd = child_sd\<rparr>;
        let endpoint = (case peer of None \<Rightarrow> endpoint | Some a \<Rightarrow> endpoint\<lparr>ep_addr := a\<rparr>);
        server \<leftarrow> FD_SET child_sd (server\<lparr>endpoints := endpoint # endpoints server\<rparr>);
        Some (if child_sd > max_sd server then server\<lparr>max_sd := child_sd\<rparr> else server)
      })"

text \<open>\<open>accept\<close> with nothing waiting: the listening socket blocks, except that a failure is possible
  (a negative descriptor at the head of the backlog).\<close>

definition tcp_server_accept ::
    "tcp_server \<Rightarrow> kernel \<Rightarrow> (int \<times> tcp_server \<times> kernel) option" where
  "tcp_server_accept server k = (case backlog k of
     [] \<Rightarrow> None
   | (new_sd, peer) # rest \<Rightarrow>
       let k = k\<lparr>backlog := rest\<rparr> in
       if new_sd < 0 then Some (0, server, k)
       else do {
         let k = k\<lparr>open_sds := insert new_sd (open_sds k)\<rparr>;
         server \<leftarrow> create_child_socket (net_alloc k) server new_sd peer;
         Some (1, server, k)
       })"

fun get_endpoint :: "tcp_endpoint list \<Rightarrow> int \<Rightarrow> tcp_endpoint option" where
  "get_endpoint [] d = None"
| "get_endpoint (e # es) d = (if ep_sd e = d then Some e else get_endpoint es d)"

text \<open>
  The receive callback is a function on the state of the program that installed it (\<open>None\<close> when it
  faults). \<open>bytes_read\<close> is a \<open>size_t\<close>: the result \<open>-1\<close> of a failed \<open>read\<close> becomes \<open>2^64 - 1\<close>.
\<close>

type_synonym 'c on_rx = "tcp_endpoint option \<Rightarrow> tcp_sgmnt \<Rightarrow> 'c \<Rightarrow> 'c option"

definition tcp_server_receive ::
    "'c on_rx \<Rightarrow> tcp_server \<Rightarrow> int \<Rightarrow> kernel \<Rightarrow> 'c \<Rightarrow> (tcp_server \<times> kernel \<times> 'c) option" where
  "tcp_server_receive on_rx server child_sd k c = do {
     (ret, xs, k) \<leftarrow> k_read child_sd 1024 k;
     buffer \<leftarrow> put_bytes (replicate 1024 0) 0 xs;
     let bytes_read = (of_int ret :: u64);
     if bytes_read < 0 then Some (server, k, c)
     else if bytes_read = 0 then do {
       (server, k) \<leftarrow> close_child_socket server child_sd k;
       Some (server, k, c)
     } else do {
       let endpoint = get_endpoint (endpoints server) child_sd;
       copied \<leftarrow> get_bytes buffer 0 (unat bytes_read);
       data \<leftarrow> put_bytes (replicate 1024 0) 0 copied;
       c \<leftarrow> on_rx endpoint \<lparr>sgmnt_data = data, data_len = int (unat bytes_read)\<rparr> c;
       Some (server, k, c)
     }
   }"

partial_function (option) tick_loop ::
    "'c on_rx \<Rightarrow> int set \<Rightarrow> int \<Rightarrow> tcp_server \<Rightarrow> kernel \<Rightarrow> 'c \<Rightarrow> (tcp_server \<times> kernel \<times> 'c) option" where
  "tick_loop on_rx read_fds i server k c =
     (if i \<le> max_sd server then do {
        (server, k, c) \<leftarrow> (if i \<in> read_fds then
            if i = sd server then do {
              (_, server, k) \<leftarrow> tcp_server_accept server k;
              Some (server, k, c)
            } else tcp_server_receive on_rx server i k c
          else Some (server, k, c));
        tick_loop on_rx read_fds (i + 1) server k c
      } else Some (server, k, c))"

definition tcp_server_tick ::
    "'c on_rx \<Rightarrow> tcp_server option \<Rightarrow> kernel \<Rightarrow> 'c \<Rightarrow> (tcp_server option \<times> kernel \<times> 'c) option" where
  "tcp_server_tick on_rx server k c = (case server of None \<Rightarrow> Some (None, k, c)
     | Some server \<Rightarrow>
         let read_fds = k_select (sd server) (server_fd_set server) k in
         if read_fds \<noteq> {} then do {
           (server, k, c) \<leftarrow> tick_loop on_rx read_fds (sd server) server k c;
           Some (Some server, k, c)
         } else Some (Some server, k, c))"

text \<open>\<open>tcp_server_send\<close> reports nothing: its test \<open>bytes_sent < 0\<close> is on a \<open>size_t\<close>.\<close>

definition tcp_server_send ::
    "tcp_server option \<Rightarrow> tcp_endpoint option \<Rightarrow> tcp_sgmnt option \<Rightarrow> kernel \<Rightarrow> kernel option" where
  "tcp_server_send server dst segment k = (case (server, dst, segment) of
     (Some _, Some d, Some g) \<Rightarrow> do {
       xs \<leftarrow> get_bytes (sgmnt_data g) 0 (unat (of_int (data_len g) :: u64));
       Some (snd (k_send (ep_sd d) xs k))
     }
   | _ \<Rightarrow> Some k)"

subsection \<open>The client\<close>

record tcp_client =
  client_sd :: int
  client_port :: u16
  client_server :: tcp_endpoint

text \<open>\<open>garbage\<close> is the port of a struct that \<open>malloc\<close> left uninitialised, kept when \<open>getsockname\<close> fails.\<close>

definition tcp_client_connect ::
    "bool \<Rightarrow> u16 \<Rightarrow> tcp_endpoint \<Rightarrow> kernel \<Rightarrow> tcp_client option \<times> kernel" where
  "tcp_client_connect malloc_ok garbage dest k =
     (if \<not> malloc_ok then (None, k)
      else
        let (d, k) = k_socket k in
        if d < 0 then (None, k)
        else if \<not> connect_ok k then (None, k)
        else (case sockname k of
            None \<Rightarrow> (Some \<lparr>client_sd = d, client_port = garbage, client_server = dest\<rparr>, k)
          | Some a \<Rightarrow> (Some \<lparr>client_sd = d, client_port = htons (sin_port a), client_server = dest\<rparr>, k)))"

definition tcp_client_disconnect :: "tcp_client option \<Rightarrow> kernel \<Rightarrow> kernel" where
  "tcp_client_disconnect client k = (case client of None \<Rightarrow> k | Some c \<Rightarrow> k_close (client_sd c) k)"

definition tcp_client_send :: "tcp_client option \<Rightarrow> tcp_sgmnt \<Rightarrow> kernel \<Rightarrow> (u8 \<times> kernel) option" where
  "tcp_client_send client g k = (case client of None \<Rightarrow> Some (1, k)
     | Some c \<Rightarrow> do {
         xs \<leftarrow> get_bytes (sgmnt_data g) 0 (unat (of_int (data_len g) :: u64));
         let (ret, k) = k_send (client_sd c) xs k;
         Some (if ret = data_len g then 0 else 1, k)
       })"

text \<open>The callbacks of a client are functions on its user's state; \<open>None\<close> stands for a null pointer.\<close>

definition tcp_client_receive ::
    "(tcp_sgmnt \<Rightarrow> 'c \<Rightarrow> 'c) option \<Rightarrow> ('c \<Rightarrow> 'c) option \<Rightarrow> tcp_client option \<Rightarrow> kernel \<Rightarrow> 'c
      \<Rightarrow> (kernel \<times> 'c) option" where
  "tcp_client_receive on_receive on_disconnect client k c = (case client of None \<Rightarrow> Some (k, c)
     | Some cl \<Rightarrow> do {
         (ret, xs, k) \<leftarrow> k_read (client_sd cl) 1024 k;
         data \<leftarrow> put_bytes (replicate 1024 0) 0 xs;
         let bytes_read = (of_int ret :: u64);
         if bytes_read > 0 then
           Some (k, case on_receive of None \<Rightarrow> c
             | Some f \<Rightarrow> f \<lparr>sgmnt_data = data, data_len = sint bytes_read\<rparr> c)
         else Some (k, case on_disconnect of None \<Rightarrow> c | Some f \<Rightarrow> f c)
       })"

subsection \<open>Invariant\<close>

text \<open>
  A server that listens: its descriptors are open, fit into an \<open>fd_set\<close>, none is above \<open>max_sd\<close>,
  and each except the listening one has an endpoint. What the kernel documents of \<open>accept\<close>: the
  descriptors it hands out are new.
\<close>

definition server_ok :: "tcp_server \<Rightarrow> kernel \<Rightarrow> bool" where
  "server_ok s k \<longleftrightarrow> sd s \<in> server_fd_set s
     \<and> (\<forall>d \<in> server_fd_set s. 0 \<le> d \<and> d < FD_SETSIZE \<and> d \<le> max_sd s \<and> d \<in> open_sds k
          \<and> (d \<noteq> sd s \<longrightarrow> get_endpoint (endpoints s) d \<noteq> None))"

definition backlog_ok :: "kernel \<Rightarrow> bool" where
  "backlog_ok k \<longleftrightarrow> (\<forall>p \<in> set (backlog k). fst p < 0 \<or> fst p < FD_SETSIZE \<and> fst p \<notin> open_sds k)"

lemma get_endpoint_sd: "get_endpoint es d = Some e \<Longrightarrow> ep_sd e = d"
  by (induction es) (auto split: if_splits)

definition newcomer :: "kernel \<Rightarrow> int set" where
  "newcomer k = (if backlog k \<noteq> [] \<and> 0 \<le> fst (hd (backlog k)) then {fst (hd (backlog k))} else {})"

lemma accept_ok:
  assumes "server_ok s k" "backlog_ok k" "backlog k \<noteq> []" "net_alloc k \<or> fst (hd (backlog k)) < 0"
  shows "\<exists>r s' k'. tcp_server_accept s k = Some (r, s', k') \<and> server_ok s' k' \<and> sd s' = sd s
    \<and> max_sd s \<le> max_sd s' \<and> backlog k' = tl (backlog k) \<and> open_sds k' = open_sds k \<union> newcomer k
    \<and> server_fd_set s' = server_fd_set s \<union> newcomer k \<and> incoming k' = incoming k \<and> hung_up k' = hung_up k \<and> broken k' = broken k
    \<and> (r = 1 \<longleftrightarrow> 0 \<le> fst (hd (backlog k)))
    \<and> (0 \<le> fst (hd (backlog k)) \<longrightarrow> fst (hd (backlog k)) \<in> server_fd_set s'
        \<and> get_endpoint (endpoints s') (fst (hd (backlog k))) = Some \<lparr>ep_addr = (case snd (hd (backlog k)) of None \<Rightarrow> zero_addr
            | Some a \<Rightarrow> a), ep_sd = fst (hd (backlog k))\<rparr>)"
proof -
  obtain n peer rest where b: "backlog k = (n, peer) # rest" using assms(3) by (cases "backlog k") auto
  show ?thesis
  proof (cases "n < 0")
    case True
    then show ?thesis using assms(1) b by (auto simp: tcp_server_accept_def Let_def server_ok_def newcomer_def)
  next
    case False
    then have "n < FD_SETSIZE" "n \<notin> open_sds k" using assms(2) b by (auto simp: backlog_ok_def)
    moreover have "net_alloc k" using assms(4) False b by simp
    ultimately show ?thesis using False assms(1) b
      by (auto simp: tcp_server_accept_def create_child_socket_def Let_def FD_SET_def server_ok_def newcomer_def split: option.splits)
  qed
qed

lemma close_child_ok:
  assumes "server_ok s k" "d \<in> server_fd_set s" "d \<noteq> sd s"
  shows "\<exists>s'. close_child_socket s d k = Some (s', k_close d k) \<and> server_ok s' (k_close d k) \<and> sd s' = sd s
    \<and> max_sd s' = (if d = max_sd s then max_sd s - 1 else max_sd s)
    \<and> server_fd_set s' = server_fd_set s - {d} \<and> endpoints s' = endpoints s"
proof -
  have range: "0 \<le> d" "d < FD_SETSIZE" using assms(1,2) by (auto simp: server_ok_def)
  let ?s = "s\<lparr>server_fd_set := server_fd_set s - {d}, max_sd := (if d = max_sd s then max_sd s - 1 else max_sd s)\<rparr>"
  have le: "x < max_sd s" if "x \<in> server_fd_set s - {max_sd s}" for x
    using assms(1) that by (fastforce simp: server_ok_def)
  have "server_ok ?s (k_close d k)"
    using assms le unfolding server_ok_def by (fastforce simp: k_close_def)
  then show ?thesis using range
    by (auto simp: close_child_socket_def FD_CLR_def Let_def)
qed

definition readable :: "kernel \<Rightarrow> int \<Rightarrow> bool" where
  "readable k d \<longleftrightarrow> \<not> broken k d \<and> d \<in> open_sds k \<and> (incoming k d \<noteq> [] \<or> hung_up k d)"

lemma receive_data:
  assumes "\<not> broken k d" "d \<in> open_sds k" "incoming k d \<noteq> []"
  defines "xs \<equiv> take 1024 (incoming k d)"
  shows "tcp_server_receive on_rx s d k c = (case on_rx (get_endpoint (endpoints s) d)
      \<lparr>sgmnt_data = xs @ replicate (1024 - length xs) 0, data_len = int (length xs)\<rparr> c of None \<Rightarrow> None
    | Some c' \<Rightarrow> Some (s, k\<lparr>incoming := (incoming k)(d := drop 1024 (incoming k d))\<rparr>, c'))"
proof -
  have l: "length xs \<le> 1024" "xs \<noteq> []" using assms(3) by (auto simp: xs_def)
  then have u: "unat (of_nat (length xs) :: u64) = length xs"
    by (intro of_nat_inverse [OF refl]) simp
  have nz: "of_nat (length xs) \<noteq> (0 :: u64)" using u l by (metis length_0_conv unsigned_0)
  have rd: "k_read d 1024 k = Some (int (length xs), xs, k\<lparr>incoming := (incoming k)(d := drop 1024 (incoming k d))\<rparr>)"
    using assms(1-3) by (simp add: k_read_def xs_def Let_def)
  show ?thesis
    using l u nz
    by (simp add: tcp_server_receive_def rd put_bytes_def get_bytes_def Let_def split: option.splits)
qed

text \<open>A callback that collects what it is given, with the descriptor of the endpoint.\<close>

definition collect :: "(int option \<times> u8 list) list on_rx" where
  "collect ep g c = Some (c @ [(map_option ep_sd ep, take (nat (data_len g)) (sgmnt_data g))])"

lemma filter_upto_above: "j \<le> j' \<Longrightarrow> \<forall>d > j. \<not> P d \<Longrightarrow> filter P [i..j'] = filter P [i..j]"
proof -
  assume a: "j \<le> j'" "\<forall>d > j. \<not> P d"
  show ?thesis
  proof (cases "i \<le> j")
    case True
    then have "[i..j'] = [i..j] @ [j + 1..j']" using a(1) by (rule upto_split2)
    then show ?thesis using a(2) by (auto simp: filter_empty_conv)
  next
    case False
    then show ?thesis using a(2) by (auto simp: filter_empty_conv)
  qed
qed

text \<open>What the loop delivers from the descriptors \<open>i\<close> to \<open>m\<close>, and the connections it finds closed.\<close>

definition heard_from :: "int set \<Rightarrow> (int \<Rightarrow> u8 list) \<Rightarrow> int \<Rightarrow> int \<Rightarrow> (int option \<times> u8 list) list" where
  "heard_from R inc i m = map (\<lambda>d. (Some d, take 1024 (inc d))) (filter (\<lambda>d. d \<in> R \<and> inc d \<noteq> []) [i..m])"

definition gone :: "int set \<Rightarrow> (int \<Rightarrow> u8 list) \<Rightarrow> int \<Rightarrow> int set" where
  "gone R inc i = {d \<in> R. i \<le> d \<and> inc d = []}"

lemma heard_from_step:
  "i \<le> m \<Longrightarrow> heard_from R inc i m = (if i \<in> R \<and> inc i \<noteq> [] then [(Some i, take 1024 (inc i))] else []) @ heard_from R inc (i + 1) m"
  by (simp add: heard_from_def upto_rec1)

lemma gone_step: "gone R inc i = (if i \<in> R \<and> inc i = [] then {i} else {}) \<union> gone R inc (i + 1)"
  by (auto simp: gone_def order_le_less)

lemma heard_from_cong: "\<forall>d. i \<le> d \<longrightarrow> inc' d = inc d \<Longrightarrow> heard_from R inc' i m = heard_from R inc i m"
  by (simp add: heard_from_def cong: filter_cong map_cong) (auto intro!: arg_cong [where f = "map _"] filter_cong map_cong)

lemma gone_cong: "\<forall>d. i \<le> d \<longrightarrow> inc' d = inc d \<Longrightarrow> gone R inc' i = gone R inc i"
  by (auto simp: gone_def)

text \<open>One readable connection: its data is delivered, or it is closed.\<close>

lemma child_received:
  assumes ok: "server_ok s k" "i \<in> server_fd_set s" "i \<noteq> sd s" and rd: "readable k i"
  shows "\<exists>s1 k1. tcp_server_receive collect s i k c
      = Some (s1, k1, c @ (if incoming k i \<noteq> [] then [(Some i, take 1024 (incoming k i))] else []))
    \<and> server_ok s1 k1 \<and> sd s1 = sd s \<and> (max_sd s1 = max_sd s \<or> i = max_sd s \<and> max_sd s1 = i - 1)
    \<and> server_fd_set s1 = server_fd_set s - (if incoming k i = [] then {i} else {})
    \<and> backlog k1 = backlog k \<and> (\<forall>d. d \<noteq> i \<longrightarrow> incoming k1 d = incoming k d \<and> readable k1 d = readable k d)
    \<and> incoming k1 i = drop 1024 (incoming k i) \<and> open_sds k1 = open_sds k - (if incoming k i = [] then {i} else {})"
proof (cases "incoming k i = []")
  case True
  obtain s1 where s1: "close_child_socket s i k = Some (s1, k_close i k)" "server_ok s1 (k_close i k)" "sd s1 = sd s"
      "max_sd s1 = (if i = max_sd s then max_sd s - 1 else max_sd s)" "server_fd_set s1 = server_fd_set s - {i}"
    using close_child_ok [OF ok] by blast
  have "tcp_server_receive collect s i k c = Some (s1, k_close i k, c)"
    using rd True s1(1) by (simp add: readable_def tcp_server_receive_def k_read_def put_bytes_def Let_def)
  then show ?thesis using s1(2-5) True
    by (intro exI [of _ s1] exI [of _ "k_close i k"]) (simp add: readable_def k_close_def)
next
  case False
  define k1 where "k1 = k\<lparr>incoming := (incoming k)(i := drop 1024 (incoming k i))\<rparr>"
  obtain e where e: "get_endpoint (endpoints s) i = Some e" "ep_sd e = i"
    using ok get_endpoint_sd by (fastforce simp: server_ok_def)
  have r: "\<not> broken k i" "i \<in> open_sds k" using rd by (simp_all add: readable_def)
  have "tcp_server_receive collect s i k c = Some (s, k1, c @ [(Some i, take 1024 (incoming k i))])"
    unfolding receive_data [OF r False] using e by (simp add: collect_def k1_def min_def)
  moreover have "server_ok s k1" using ok(1) by (simp add: server_ok_def k1_def)
  ultimately show ?thesis using False
    by (intro exI [of _ s] exI [of _ k1]) (simp add: readable_def k1_def)
qed

lemma tick_loop_listening:
  assumes "server_ok s k" "backlog_ok k" "sd s \<in> R \<longleftrightarrow> backlog k \<noteq> []" "net_alloc k"
  shows "\<exists>s1 k1. server_ok s1 k1 \<and> sd s1 = sd s \<and> server_fd_set s1 = server_fd_set s \<union> newcomer k \<and> max_sd s \<le> max_sd s1
    \<and> incoming k1 = incoming k \<and> hung_up k1 = hung_up k \<and> broken k1 = broken k \<and> open_sds k1 = open_sds k \<union> newcomer k
    \<and> backlog k1 = tl (backlog k) \<and> tick_loop f R (sd s) s k c = tick_loop f R (sd s + 1) s1 k1 c"
proof -
  have le: "sd s \<le> max_sd s" using assms(1) by (auto simp: server_ok_def)
  show ?thesis
  proof (cases "sd s \<in> R")
    case True
    then have "backlog k \<noteq> []" using assms(3) by simp
    from accept_ok [OF assms(1,2) this] assms(4) obtain r s1 k1 where a: "tcp_server_accept s k = Some (r, s1, k1)"
        "server_ok s1 k1" "sd s1 = sd s" "server_fd_set s1 = server_fd_set s \<union> newcomer k" "max_sd s \<le> max_sd s1"
        "incoming k1 = incoming k" "hung_up k1 = hung_up k" "broken k1 = broken k" "open_sds k1 = open_sds k \<union> newcomer k"
        "backlog k1 = tl (backlog k)" by blast
    have "tick_loop f R (sd s) s k c = tick_loop f R (sd s + 1) s1 k1 c" using le True a(1) by (subst tick_loop.simps) simp
    with a(2-) show ?thesis by blast
  next
    case False
    then have "tick_loop f R (sd s) s k c = tick_loop f R (sd s + 1) s k c" using le by (subst tick_loop.simps) simp
    moreover have "backlog k = tl (backlog k)" "newcomer k = {}" using False assms(3) by (simp_all add: newcomer_def)
    ultimately show ?thesis using assms(1) by (intro exI [of _ s] exI [of _ k]) simp
  qed
qed

lemma tick_loop_children:
  assumes "server_ok s k" "sd s < i" "\<forall>d \<in> R. i \<le> d \<longrightarrow> d \<in> server_fd_set s \<and> readable k d"
  shows "\<exists>s' k'. tick_loop collect R i s k c = Some (s', k', c @ heard_from R (incoming k) i (max_sd s))
    \<and> server_ok s' k' \<and> sd s' = sd s \<and> backlog k' = backlog k
    \<and> server_fd_set s' = server_fd_set s - gone R (incoming k) i
    \<and> open_sds k' = open_sds k - gone R (incoming k) i
    \<and> incoming k' = (\<lambda>d. if d \<in> R \<and> i \<le> d then drop 1024 (incoming k d) else incoming k d)"
  using assms
proof (induction "nat (max_sd s + 1 - i)" arbitrary: i s k c)
  case 0
  then have gt: "max_sd s < i" by simp
  have none: "d \<notin> R" if "i \<le> d" for d
  proof
    assume "d \<in> R"
    then have "d \<le> max_sd s" using 0(2,4) that unfolding server_ok_def by blast
    then show False using that gt by simp
  qed
  then have "gone R (incoming k) i = {}" by (auto simp: gone_def)
  moreover have "tick_loop collect R i s k c = Some (s, k, c)" using gt by (subst tick_loop.simps) simp
  moreover have "heard_from R (incoming k) i (max_sd s) = []" using gt by (simp add: heard_from_def)
  moreover have "incoming k = (\<lambda>d. if d \<in> R \<and> i \<le> d then drop 1024 (incoming k d) else incoming k d)"
    using none by (intro ext) auto
  ultimately show ?case using 0 by auto
next
  case (Suc n)
  then have i: "i \<le> max_sd s" "i \<noteq> sd s" by auto
  have after: "i \<le> d \<longleftrightarrow> d = i \<or> i + 1 \<le> d" for d by auto
  show ?case
  proof (cases "i \<in> R")
    case False
    have "\<exists>s' k'. tick_loop collect R (i + 1) s k c = Some (s', k', c @ heard_from R (incoming k) (i + 1) (max_sd s))
        \<and> server_ok s' k' \<and> sd s' = sd s \<and> backlog k' = backlog k
        \<and> server_fd_set s' = server_fd_set s - gone R (incoming k) (i + 1)
        \<and> open_sds k' = open_sds k - gone R (incoming k) (i + 1)
        \<and> incoming k' = (\<lambda>d. if d \<in> R \<and> i + 1 \<le> d then drop 1024 (incoming k d) else incoming k d)"
      by (rule Suc.hyps(1)) (use Suc.hyps(2) Suc.prems i in auto)
    moreover have "tick_loop collect R i s k c = tick_loop collect R (i + 1) s k c"
      using False i by (subst tick_loop.simps) simp
    moreover have "(\<lambda>d. if d \<in> R \<and> i + 1 \<le> d then drop 1024 (incoming k d) else incoming k d)
        = (\<lambda>d. if d \<in> R \<and> i \<le> d then drop 1024 (incoming k d) else incoming k d)"
      using False unfolding after by auto
    ultimately show ?thesis using False heard_from_step [OF i(1), of R "incoming k"] gone_step [of R "incoming k" i] by simp
  next
    case True
    then have rd: "i \<in> server_fd_set s" "readable k i" using Suc.prems(3) by auto
    let ?c = "c @ (if incoming k i \<noteq> [] then [(Some i, take 1024 (incoming k i))] else [])"
    obtain s1 k1 where s1: "tcp_server_receive collect s i k c = Some (s1, k1, ?c)"
        "server_ok s1 k1" "sd s1 = sd s" "max_sd s1 = max_sd s \<or> i = max_sd s \<and> max_sd s1 = i - 1"
        "server_fd_set s1 = server_fd_set s - (if incoming k i = [] then {i} else {})" "backlog k1 = backlog k"
        "\<forall>d. d \<noteq> i \<longrightarrow> incoming k1 d = incoming k d \<and> readable k1 d = readable k d"
        "incoming k1 i = drop 1024 (incoming k i)" "open_sds k1 = open_sds k - (if incoming k i = [] then {i} else {})"
      using child_received [OF Suc.prems(1) rd(1) i(2) rd(2)] by blast
    have "\<exists>s' k'. tick_loop collect R (i + 1) s1 k1 ?c = Some (s', k', ?c @ heard_from R (incoming k1) (i + 1) (max_sd s1))
        \<and> server_ok s' k' \<and> sd s' = sd s1 \<and> backlog k' = backlog k1
        \<and> server_fd_set s' = server_fd_set s1 - gone R (incoming k1) (i + 1)
        \<and> open_sds k' = open_sds k1 - gone R (incoming k1) (i + 1)
        \<and> incoming k' = (\<lambda>d. if d \<in> R \<and> i + 1 \<le> d then drop 1024 (incoming k1 d) else incoming k1 d)"
      by (rule Suc.hyps(1)) (use Suc.hyps(2) Suc.prems s1 i in auto)
    moreover have "heard_from R (incoming k1) (i + 1) (max_sd s1) = heard_from R (incoming k) (i + 1) (max_sd s)"
      using heard_from_cong [of "i + 1" "incoming k1" "incoming k" R "max_sd s"] s1(4,7) by (auto simp: heard_from_def)
    moreover have "gone R (incoming k1) (i + 1) = gone R (incoming k) (i + 1)" by (rule gone_cong) (use s1(7) in auto)
    moreover have "tick_loop collect R i s k c = tick_loop collect R (i + 1) s1 k1 ?c"
      using True i s1(1) by (subst tick_loop.simps) simp
    moreover have "(\<lambda>d. if d \<in> R \<and> i + 1 \<le> d then drop 1024 (incoming k1 d) else incoming k1 d)
        = (\<lambda>d. if d \<in> R \<and> i \<le> d then drop 1024 (incoming k d) else incoming k d)"
    proof
      fix d
      show "(if d \<in> R \<and> i + 1 \<le> d then drop 1024 (incoming k1 d) else incoming k1 d)
        = (if d \<in> R \<and> i \<le> d then drop 1024 (incoming k d) else incoming k d)"
        using True s1(7,8) unfolding after by (cases "d = i") auto
    qed
    ultimately show ?thesis using True s1(3,5,6,9) heard_from_step [OF i(1), of R "incoming k"] gone_step [of R "incoming k" i]
      by (simp add: Diff_eq Int_assoc)
  qed
qed

subsection \<open>Properties\<close>

definition example_server :: tcp_server where
  "example_server = \<lparr>sd = 3, max_sd = 6, server_fd_set = {3, 5, 6},
     endpoints = [\<lparr>ep_addr = zero_addr, ep_sd = 6\<rparr>, \<lparr>ep_addr = zero_addr, ep_sd = 5\<rparr>]\<rparr>"

definition example_kernel :: kernel where
  "example_kernel = \<lparr>open_sds = {3, 4, 5, 6}, next_sd = 9, bind_ok = True, listen_ok = True, connect_ok = True,
     sockname = None, backlog = [(7, None)], incoming = (\<lambda>d. if d = 5 then [1, 2] else []), hung_up = (\<lambda>d. d = 6),
     broken = (\<lambda>_. False), outgoing = (\<lambda>_. []), accepts = (\<lambda>_. Some 100), net_alloc = True\<rparr>"

lemma example_server_ok: "server_ok example_server example_kernel" "backlog_ok example_kernel"
  by (simp_all add: server_ok_def backlog_ok_def example_server_def example_kernel_def FD_SETSIZE_def)

lemma select_children:
  assumes "server_ok s k" "\<forall>d \<in> server_fd_set s. \<not> broken k d"
  shows "sd s < d \<Longrightarrow> d \<in> k_select (sd s) (server_fd_set s) k \<longleftrightarrow> d \<in> server_fd_set s \<and> (incoming k d \<noteq> [] \<or> hung_up k d)"
    and "sd s \<in> k_select (sd s) (server_fd_set s) k \<longleftrightarrow> backlog k \<noteq> []"
    and "heard_from (k_select (sd s) (server_fd_set s) k) (incoming k) (sd s + 1) m = map (\<lambda>d. (Some d, take 1024 (incoming k d)))
      (filter (\<lambda>d. d \<in> server_fd_set s \<and> incoming k d \<noteq> []) [sd s + 1..m])"
    and "gone (k_select (sd s) (server_fd_set s) k) (incoming k) (sd s + 1)
      = {d \<in> server_fd_set s. sd s < d \<and> incoming k d = [] \<and> hung_up k d}"
proof -
  have "sd s \<in> server_fd_set s" using assms(1) by (auto simp: server_ok_def)
  then show "sd s \<in> k_select (sd s) (server_fd_set s) k \<longleftrightarrow> backlog k \<noteq> []" by (simp add: k_select_def)
  show R: "d \<in> k_select (sd s) (server_fd_set s) k \<longleftrightarrow> d \<in> server_fd_set s \<and> (incoming k d \<noteq> [] \<or> hung_up k d)"
    if "sd s < d" for d using that assms(2) by (auto simp: k_select_def)
  show "heard_from (k_select (sd s) (server_fd_set s) k) (incoming k) (sd s + 1) m = map (\<lambda>d. (Some d, take 1024 (incoming k d)))
      (filter (\<lambda>d. d \<in> server_fd_set s \<and> incoming k d \<noteq> []) [sd s + 1..m])"
    unfolding heard_from_def by (intro arg_cong [where f = "map _"] filter_cong) (use R in auto)
  show "gone (k_select (sd s) (server_fd_set s) k) (incoming k) (sd s + 1)
      = {d \<in> server_fd_set s. sd s < d \<and> incoming k d = [] \<and> hung_up k d}"
    unfolding gone_def using R by auto
qed



text \<open>C26: the invariant of a listening server (its descriptors are open, in range, at most \<open>max_sd\<close>, and
  every child has an endpoint) is kept by accepting a connection, which makes the new child findable under its
  descriptor with the address of its peer, and by closing a child, which takes it out of the set and lowers
  \<open>max_sd\<close> when it was the highest. When there is no memory for the endpoint of an accepted connection, the unchecked
  \<open>calloc\<close> makes the program fault.\<close>

theorem tcp_server_accept_close_invariant:
  assumes "server_ok s k" "backlog_ok k" "backlog k = (n, peer) # rest"
  shows "(net_alloc k \<or> n < 0 \<longrightarrow> (\<exists>r s' k'. tcp_server_accept s k = Some (r, s', k') \<and> server_ok s' k'
      \<and> (if n < 0 then r = 0 \<and> s' = s
         else r = 1 \<and> n \<in> server_fd_set s' \<and> max_sd s' = max n (max_sd s)
           \<and> get_endpoint (endpoints s') n = Some \<lparr>ep_addr = (case peer of None \<Rightarrow> zero_addr | Some a \<Rightarrow> a), ep_sd = n\<rparr>)
      \<and> (\<forall>d \<in> server_fd_set s'. d \<noteq> sd s' \<longrightarrow> (\<exists>s''. close_child_socket s' d k' = Some (s'', k_close d k')
           \<and> server_ok s'' (k_close d k') \<and> server_fd_set s'' = server_fd_set s' - {d}
           \<and> max_sd s'' = (if d = max_sd s' then max_sd s' - 1 else max_sd s')))))
    \<and> (\<not> net_alloc k \<and> 0 \<le> n \<longrightarrow> tcp_server_accept s k = None)"
proof (intro conjI impI)
  assume c: "net_alloc k \<or> n < 0"
  obtain r s' k' where a: "tcp_server_accept s k = Some (r, s', k')" "server_ok s' k'"
    using accept_ok [OF assms(1,2)] assms(3) c by auto
  have "if n < 0 then r = 0 \<and> s' = s
       else r = 1 \<and> n \<in> server_fd_set s' \<and> max_sd s' = max n (max_sd s)
         \<and> get_endpoint (endpoints s') n = Some \<lparr>ep_addr = (case peer of None \<Rightarrow> zero_addr | Some a \<Rightarrow> a), ep_sd = n\<rparr>"
    using a(1) assms(3) c
    by (auto simp: tcp_server_accept_def create_child_socket_def FD_SET_def Let_def max_def split: if_splits option.splits)
  with a close_child_ok [OF a(2)] show "\<exists>r s' k'. tcp_server_accept s k = Some (r, s', k') \<and> server_ok s' k'
      \<and> (if n < 0 then r = 0 \<and> s' = s
         else r = 1 \<and> n \<in> server_fd_set s' \<and> max_sd s' = max n (max_sd s)
           \<and> get_endpoint (endpoints s') n = Some \<lparr>ep_addr = (case peer of None \<Rightarrow> zero_addr | Some a \<Rightarrow> a), ep_sd = n\<rparr>)
      \<and> (\<forall>d \<in> server_fd_set s'. d \<noteq> sd s' \<longrightarrow> (\<exists>s''. close_child_socket s' d k' = Some (s'', k_close d k')
           \<and> server_ok s'' (k_close d k') \<and> server_fd_set s'' = server_fd_set s' - {d}
           \<and> max_sd s'' = (if d = max_sd s' then max_sd s' - 1 else max_sd s')))" by blast
next
  assume "\<not> net_alloc k \<and> 0 \<le> n"
  then show "tcp_server_accept s k = None"
    using assms(3) by (simp add: tcp_server_accept_def create_child_socket_def Let_def)
qed

theorem tcp_server_accept_close_invariant_witness:
  "\<exists>s' k' s''. tcp_server_accept example_server example_kernel = Some (1, s', k')
    \<and> close_child_socket s' 7 k' = Some (s'', k_close 7 k') \<and> server_ok s'' (k_close 7 k') \<and> max_sd s'' = 6"
proof -
  obtain r s' k' where "tcp_server_accept example_server example_kernel = Some (r, s', k')" "r = 1"
      "7 \<in> server_fd_set s'" "max_sd s' = max 7 (max_sd example_server)"
      "\<forall>d \<in> server_fd_set s'. d \<noteq> sd s' \<longrightarrow> (\<exists>s''. close_child_socket s' d k' = Some (s'', k_close d k')
         \<and> server_ok s'' (k_close d k') \<and> server_fd_set s'' = server_fd_set s' - {d}
         \<and> max_sd s'' = (if d = max_sd s' then max_sd s' - 1 else max_sd s'))"
    using tcp_server_accept_close_invariant [OF example_server_ok, of 7 None "[]"]
    by (force simp: example_kernel_def)
  moreover have "sd s' = 3"
    using calculation(1) by (auto simp: tcp_server_accept_def example_kernel_def create_child_socket_def FD_SET_def
        FD_SETSIZE_def Let_def example_server_def)
  ultimately show ?thesis by (force simp: example_server_def)
qed


lemma stop_loop_closes:
  assumes "0 \<le> sd s" "max_sd s < FD_SETSIZE"
  shows "\<exists>s' k'. stop_loop s k = Some (s', k') \<and> sd s' = sd s \<and> k' = k\<lparr>open_sds := open_sds k - {sd s<..max_sd s}\<rparr>"
  using assms
proof (induction "nat (max_sd s - sd s)" arbitrary: s k)
  case 0
  then show ?case by (subst stop_loop.simps) simp
next
  case (Suc n)
  define s1 where "s1 = s\<lparr>server_fd_set := server_fd_set s - {max_sd s}, max_sd := max_sd s - 1\<rparr>"
  have step: "close_child_socket s (max_sd s) k = Some (s1, k_close (max_sd s) k)"
    using Suc.hyps(2) Suc.prems by (simp add: close_child_socket_def FD_CLR_def s1_def Let_def)
  have n1: "n = nat (max_sd s1 - sd s1)" using Suc.hyps(2) by (simp add: s1_def)
  obtain s' k' where "stop_loop s1 (k_close (max_sd s) k) = Some (s', k')" "sd s' = sd s1"
      "k' = (k_close (max_sd s) k)\<lparr>open_sds := open_sds (k_close (max_sd s) k) - {sd s1<..max_sd s1}\<rparr>"
    using Suc.hyps(1) [OF n1, of "k_close (max_sd s) k"] Suc.prems by (auto simp: s1_def)
  moreover have "{sd s<..max_sd s} = insert (max_sd s) {sd s<..max_sd s - 1}" using Suc.hyps(2) by auto
  ultimately show ?case using Suc.hyps(2) step
    by (subst stop_loop.simps) (auto simp: s1_def k_close_def Diff_insert2 [symmetric] insert_commute)
qed

text \<open>\<open>tcp_server_stop\<close> always returns and closes every descriptor from the listening one up to
  \<open>max_sd\<close>, those in between that are not its own (sockets of other threads, files) included.\<close>

theorem tcp_server_stop_closes_all:
  assumes "0 \<le> sd s" "sd s \<le> max_sd s" "max_sd s < FD_SETSIZE"
  shows "tcp_server_stop (Some s) k = Some (k\<lparr>open_sds := open_sds k - {sd s..max_sd s}\<rparr>)"
proof -
  obtain s' where s': "stop_loop s k = Some (s', k\<lparr>open_sds := open_sds k - {sd s<..max_sd s}\<rparr>)" "sd s' = sd s"
    using stop_loop_closes [OF assms(1,3)] by auto
  have "{sd s..max_sd s} = insert (sd s) {sd s<..max_sd s}" using assms(2) by auto
  then have "open_sds k - {sd s<..max_sd s} - {sd s} = open_sds k - {sd s..max_sd s}" by auto
  then show ?thesis using s' by (simp add: tcp_server_stop_def k_close_def)
qed

theorem tcp_server_stop_closes_all_witness:
  "\<exists>k'. tcp_server_stop (Some example_server) example_kernel = Some k' \<and> 4 \<in> open_sds example_kernel \<and> 4 \<notin> server_fd_set example_server
    \<and> open_sds k' = {}"
proof -
  have "open_sds example_kernel - {sd example_server..max_sd example_server} = {}"
    by (auto simp: example_kernel_def example_server_def)
  then show ?thesis
    using tcp_server_stop_closes_all [of example_server example_kernel]
    by (auto simp: example_server_def FD_SETSIZE_def example_kernel_def)
qed

text \<open>what \<open>tcp_server_start\<close> returns. A server that satisfies the invariant comes back exactly when
  \<open>socket\<close>, \<open>bind\<close> and \<open>listen\<close> all succeed; when \<open>socket\<close> or \<open>bind\<close> fails the pointer returned is to the struct
  just freed, never NULL (which stands for a failed allocation only), and a failing \<open>bind\<close> leaves the
  socket open.\<close>

theorem tcp_server_start_result:
  assumes "next_sd k < FD_SETSIZE"
  shows "\<exists>r k'. tcp_server_start alloc k = Some (r, k')
    \<and> ((\<exists>s. r = Start_live s \<and> server_ok s k') \<longleftrightarrow> alloc \<and> 0 \<le> next_sd k \<and> bind_ok k \<and> listen_ok k)
    \<and> (r = Start_NULL \<longleftrightarrow> \<not> alloc)
    \<and> (r = Start_freed \<longleftrightarrow> alloc \<and> (next_sd k < 0 \<or> \<not> bind_ok k))
    \<and> (alloc \<and> 0 \<le> next_sd k \<longrightarrow> next_sd k \<in> open_sds k')"
  using assms by (auto simp: tcp_server_start_def k_socket_def FD_SET_def server_ok_def Let_def)

theorem tcp_server_start_result_witness:
  "\<exists>k'. tcp_server_start True (example_kernel\<lparr>bind_ok := False\<rparr>) = Some (Start_freed, k') \<and> 9 \<in> open_sds k'"
  using tcp_server_start_result [of "example_kernel\<lparr>bind_ok := False\<rparr>" True]
  by (auto simp: example_kernel_def FD_SETSIZE_def)

text \<open>C39: a read that fails is taken for data, because its result is stored in a \<open>size_t\<close>. On the server the
  length \<open>2^64 - 1\<close> goes to \<open>memcpy\<close>, outside of every buffer; on the client the callback is called with
  length \<open>-1\<close> and a buffer of zeros, and the disconnect callback is not.\<close>

theorem tcp_failed_read_taken_for_data:
  assumes "broken k d"
  shows "tcp_server_receive on_rx s d k c = None
    \<and> tcp_client_receive (Some rx) dis (Some \<lparr>client_sd = d, client_port = p, client_server = e\<rparr>) k c'
      = Some (k, rx \<lparr>sgmnt_data = replicate 1024 0, data_len = -1\<rparr> c')"
proof -
  have "unat (- 1 :: u64) = 2 ^ 64 - 1" by (simp add: unsigned_minus_1_eq_mask mask_eq_exp_minus_1)
  then have "\<not> unat (- 1 :: u64) \<le> 1024" "(0 :: u64) < - 1" by (simp_all add: word_less_nat_alt)
  then show ?thesis using assms
    by (simp add: tcp_server_receive_def tcp_client_receive_def k_read_def put_bytes_def get_bytes_def Let_def)
qed

theorem tcp_failed_read_taken_for_data_witness:
  "tcp_server_receive collect example_server 5 (example_kernel\<lparr>broken := (\<lambda>d. d = 5)\<rparr>) [] = None"
  using tcp_failed_read_taken_for_data [of "example_kernel\<lparr>broken := (\<lambda>d. d = 5)\<rparr>" 5 collect example_server "[]",
      THEN conjunct1]
  by simp

lemma tcp_client_send_correct:
  assumes "0 \<le> data_len g" "data_len g \<le> int (length (sgmnt_data g))" "length (sgmnt_data g) = 1024"
  shows "\<exists>r k1. tcp_client_send (Some cl) g k = Some (r, k1)
    \<and> (\<exists>n. outgoing k1 (client_sd cl) = outgoing k (client_sd cl) @ take n (take (nat (data_len g)) (sgmnt_data g)))
    \<and> (r = 0 \<longrightarrow> outgoing k1 (client_sd cl) = outgoing k (client_sd cl) @ take (nat (data_len g)) (sgmnt_data g))
    \<and> (r = 0 \<longleftrightarrow> (case accepts k (client_sd cl) of None \<Rightarrow> False | Some n \<Rightarrow> nat (data_len g) \<le> n))"
proof -
  let ?n = "nat (data_len g)" and ?xs = "take (nat (data_len g)) (sgmnt_data g)"
  have "unat (of_int (data_len g) :: u64) = ?n"
  proof -
    have "?n < 2 ^ LENGTH(64)" using assms(2,3) by simp
    then have "unat (of_nat ?n :: u64) = ?n" by (rule of_nat_inverse [OF refl])
    then show ?thesis using assms(1) by simp
  qed
  then have g: "get_bytes (sgmnt_data g) 0 (unat (of_int (data_len g) :: u64)) = Some ?xs"
    using assms by (simp add: get_bytes_def)
  have l: "int (length (take n ?xs)) = data_len g \<longleftrightarrow> ?n \<le> n" for n
    using assms by auto
  show ?thesis
  proof (cases "accepts k (client_sd cl)")
    case None
    then show ?thesis using g assms(1)
      by (auto simp: tcp_client_send_def k_send_def intro!: exI [of _ 0])
  next
    case (Some n)
    define k1 where "k1 = k\<lparr>outgoing := (outgoing k)(client_sd cl := outgoing k (client_sd cl) @ take n ?xs)\<rparr>"
    have "tcp_client_send (Some cl) g k = Some (if ?n \<le> n then 0 else 1, k1)"
      using g Some l [of n] unfolding k1_def by (simp add: tcp_client_send_def k_send_def del: take_take length_take)
    moreover have "outgoing k1 (client_sd cl) = outgoing k (client_sd cl) @ take n ?xs" by (simp add: k1_def)
    moreover have "?n \<le> n \<Longrightarrow> take n ?xs = ?xs" by simp
    moreover have "\<exists>m. ?xs = take m ?xs" by (rule exI [of _ ?n]) simp
    ultimately show ?thesis using Some by (auto simp del: take_take)
  qed
qed

text \<open>The client side. \<open>tcp_client_send\<close> puts a prefix of the segment's \<open>data_len\<close> bytes on the connection and
  returns 0 exactly when all of them were taken; \<open>tcp_client_connect\<close> gives a client exactly when the
  allocation, \<open>socket\<close> and \<open>connect\<close> succeed, and when \<open>connect\<close> fails the new socket stays open though no
  handle to it is left; \<open>tcp_client_disconnect\<close> closes the socket.\<close>

theorem tcp_client_correct:
  assumes "0 \<le> data_len g" "data_len g \<le> int (length (sgmnt_data g))" "length (sgmnt_data g) = 1024"
  shows "(\<exists>r k1. tcp_client_send (Some cl) g k = Some (r, k1)
      \<and> (\<exists>n. outgoing k1 (client_sd cl) = outgoing k (client_sd cl) @ take n (take (nat (data_len g)) (sgmnt_data g)))
      \<and> (r = 0 \<longrightarrow> outgoing k1 (client_sd cl) = outgoing k (client_sd cl) @ take (nat (data_len g)) (sgmnt_data g))
      \<and> (r = 0 \<longleftrightarrow> (case accepts k (client_sd cl) of None \<Rightarrow> False | Some n \<Rightarrow> nat (data_len g) \<le> n)))
    \<and> (case tcp_client_connect alloc port dest k of
        (None, k2) \<Rightarrow> \<not> (alloc \<and> 0 \<le> next_sd k \<and> connect_ok k)
          \<and> (alloc \<and> 0 \<le> next_sd k \<longrightarrow> next_sd k \<in> open_sds k2)
      | (Some c, k2) \<Rightarrow> alloc \<and> 0 \<le> next_sd k \<and> connect_ok k \<and> client_sd c = next_sd k
          \<and> next_sd k \<in> open_sds k2 \<and> client_sd c \<notin> open_sds (tcp_client_disconnect (Some c) k2))"
proof (rule conjI [OF tcp_client_send_correct [OF assms]])
  show "case tcp_client_connect alloc port dest k of
        (None, k2) \<Rightarrow> \<not> (alloc \<and> 0 \<le> next_sd k \<and> connect_ok k)
          \<and> (alloc \<and> 0 \<le> next_sd k \<longrightarrow> next_sd k \<in> open_sds k2)
      | (Some c, k2) \<Rightarrow> alloc \<and> 0 \<le> next_sd k \<and> connect_ok k \<and> client_sd c = next_sd k
          \<and> next_sd k \<in> open_sds k2 \<and> client_sd c \<notin> open_sds (tcp_client_disconnect (Some c) k2)"
    by (auto simp: tcp_client_connect_def k_socket_def tcp_client_disconnect_def k_close_def split: option.splits)
qed

theorem tcp_client_correct_witness:
  "\<exists>r k1. tcp_client_send (Some \<lparr>client_sd = 9, client_port = 1, client_server = \<lparr>ep_addr = zero_addr, ep_sd = -1\<rparr>\<rparr>)
     \<lparr>sgmnt_data = replicate 1024 7, data_len = 6\<rparr> example_kernel = Some (r, k1) \<and> r = 0 \<and> outgoing k1 9 = replicate 6 7"
  using tcp_client_correct [of "\<lparr>sgmnt_data = replicate 1024 7, data_len = 6\<rparr>"
      "\<lparr>client_sd = 9, client_port = 1, client_server = \<lparr>ep_addr = zero_addr, ep_sd = -1\<rparr>\<rparr>" example_kernel,
      THEN conjunct1]
  by (auto simp: example_kernel_def)

end
