(* ===== verification/Udp_Socket.thy ===== *)
theory Udp_Socket
  imports Ucp_Packet Tcp_Socket
begin

text \<open>
  \<open>udp_socket.h\<close> and \<open>udp_socket.c\<close>, and the functions of the client and the server that open a bound
  UDP socket. A socket is its answers (\<open>socket\<close>, \<open>bind\<close>), the datagrams that wait on it and
  those sent through it. \<open>None\<close> is an access through a null pointer, or a call that blocks.
\<close>

record udp_net =
  udp_next_sd :: int
  udp_bind_ok :: bool
  inbox :: "(sockaddr_in \<times> u8 list) list"
  sent :: "(sockaddr_in \<times> u8 list) list"
  send_ok :: bool

definition udp_socket_initialise :: "sockaddr_in option \<Rightarrow> u16 \<Rightarrow> udp_net \<Rightarrow> (int \<times> sockaddr_in option) option" where
  "udp_socket_initialise addr port u =
     (if udp_next_sd u < 0 then Some (-1, addr)
      else do {
        _ \<leftarrow> addr;
        Some (udp_next_sd u, Some \<lparr>sin_family = AF_INET, sin_port = htons port, s_addr = 0\<rparr>)
      })"

definition udp_socket_bind :: "udp_net \<Rightarrow> int" where
  "udp_socket_bind u = (if \<not> udp_bind_ok u then -1 else 0)"

definition udp_socket_send :: "sockaddr_in \<Rightarrow> u8 list \<Rightarrow> u64 \<Rightarrow> udp_net \<Rightarrow> (int \<times> udp_net) option" where
  "udp_socket_send addr buffer buf_len u = do {
     xs \<leftarrow> get_bytes buffer 0 (unat buf_len);
     Some (if send_ok u then (int (length xs), u\<lparr>sent := sent u @ [(addr, xs)]\<rparr>) else (-1, u))
   }"

text \<open>
  A datagram longer than the buffer is cut; the bytes of the buffer after a shorter one stay.
\<close>

definition udp_socket_receive_from ::
    "u8 list \<Rightarrow> bool \<Rightarrow> udp_net \<Rightarrow> (int \<times> u8 list \<times> sockaddr_in option \<times> udp_net) option" where
  "udp_socket_receive_from buffer blocking u = (case inbox u of
     [] \<Rightarrow> if blocking then None else Some (-1, buffer, None, u)
   | (from, xs) # rest \<Rightarrow> do {
       buffer' \<leftarrow> put_bytes buffer 0 (take (length buffer) xs);
       Some (int (length (take (length buffer) xs)), buffer', Some from, u\<lparr>inbox := rest\<rparr>)
     })"

text \<open>The client and the server open their socket the same way; \<open>free\<close> of the address is not observable.\<close>

definition create_socket :: "u16 \<Rightarrow> sockaddr_in option \<Rightarrow> udp_net \<Rightarrow> int option" where
  "create_socket port server_addr u = do {
     (sock_fd, addr) \<leftarrow> udp_socket_initialise server_addr port u;
     if sock_fd < 0 then Some (-1)
     else if udp_socket_bind u < 0 then Some (-1)
     else Some sock_fd
   }"

definition create_udp_socket_and_bind :: "u16 \<Rightarrow> sockaddr_in option \<Rightarrow> udp_net \<Rightarrow> int option" where
  "create_udp_socket_and_bind port server_addr u = do {
     (sock_fd, addr) \<leftarrow> udp_socket_initialise server_addr port u;
     if sock_fd < 0 then Some (-1)
     else let ret = udp_socket_bind u in
       if ret < 0 then Some (-1)
       else Some sock_fd
   }"

text \<open>What arrives in a buffer of the receiver's size: the datagram, then what was there before.\<close>

lemma receive_datagram:
  assumes "inbox u = (from, xs) # rest" "length xs \<le> length buffer"
  shows "udp_socket_receive_from buffer blocking u
    = Some (int (length xs), xs @ drop (length xs) buffer, Some from, u\<lparr>inbox := rest\<rparr>)"
  using assms by (simp add: udp_socket_receive_from_def put_bytes_def)

lemma receive_datagram_cut:
  assumes "inbox u = (from, xs) # rest"
  shows "udp_socket_receive_from buffer blocking u
    = Some (int (min (length buffer) (length xs)), take (length buffer) xs @ drop (length xs) buffer, Some from, u\<lparr>inbox := rest\<rparr>)"
  using assms by (simp add: udp_socket_receive_from_def put_bytes_def min_def)

lemma send_datagram:
  assumes "unat n \<le> length buffer" "send_ok u"
  shows "udp_socket_send addr buffer n u = Some (int (unat n), u\<lparr>sent := sent u @ [(addr, take (unat n) buffer)]\<rparr>)"
  using assms by (simp add: udp_socket_send_def get_bytes_def)

text \<open>a data packet that the client encodes and sends with \<open>udp_socket_send\<close> and that reaches the server's
  socket is received and decoded there as the same packet, in a receive buffer and a packet struct that
  still hold whatever an earlier datagram left.\<close>

theorem udp_data_packet_delivered:
  assumes "wf_packet p" "pkt_type p = UCP_PACKET_TYPE_DATA" "valid_data (data_packet p)" "wf_packet q"
    and "length b = UDP_PACKET_SIZE" "length rb = UDP_PACKET_SIZE" "send_ok u"
  shows "\<exists>len b' u' xs. ucp_packet_encode (Some p) (Some b) (of_nat UDP_PACKET_SIZE) = Some (len, Some b')
    \<and> udp_socket_send to b' len u = Some (int (length xs), u') \<and> sent u' = sent u @ [(to, xs)]
    \<and> (\<forall>v from. inbox v = [(from, xs)] \<longrightarrow> (\<exists>rb' v' q'.
        udp_socket_receive_from rb True v = Some (int (length xs), rb', Some from, v') \<and> 0 < length xs
        \<and> ucp_packet_decode (Some rb') (of_nat UDP_PACKET_SIZE) (Some q) = Some (Some q') \<and> wf_packet q'
        \<and> pkt_type q' = UCP_PACKET_TYPE_DATA \<and> same_data (data_packet q') (data_packet p)))"
proof -
  let ?n = "of_nat UDP_PACKET_SIZE :: u64" and ?xs = "data_wire (data_packet p)"
  have n: "unat ?n = UDP_PACKET_SIZE" "sizeof_ucp_packet \<le> unat ?n"
    by (simp_all add: UDP_PACKET_SIZE_val sizeof_ucp_packet_val)
  obtain len where len: "ucp_packet_encode (Some p) (Some b) ?n = Some (len, Some (?xs @ drop (unat len) b))"
      "unat len = length ?xs"
    using data_codec.enc [OF assms(1-3), of b ?n] n assms(5) by auto
  have fit: "0 < length ?xs" "length ?xs \<le> UDP_PACKET_SIZE"
    using assms(3) by (simp_all add: length_data_wire valid_data_def UDP_PACKET_SIZE_val UDP_PACKET_DATA_SIZE_val)
  have "udp_socket_send to (?xs @ drop (unat len) b) len u
      = Some (int (length ?xs), u\<lparr>sent := sent u @ [(to, ?xs)]\<rparr>)"
    using send_datagram [of len "?xs @ drop (unat len) b" u to] len(2) assms(7) by simp
  moreover obtain q' where "ucp_packet_decode (Some (?xs @ drop (length ?xs) rb)) ?n (Some q) = Some (Some q')"
      "wf_packet q'" "pkt_type q' = UCP_PACKET_TYPE_DATA" "same_data (data_packet q') (data_packet p)"
    using data_codec.dec [OF assms(4,3) n(2)] by blast
  ultimately show ?thesis using len(1) fit assms(6) receive_datagram [of _ _ ?xs "[]" rb True]
    by (intro exI [of _ len] exI [of _ "?xs @ drop (unat len) b"] exI [of _ "u\<lparr>sent := sent u @ [(to, ?xs)]\<rparr>"] exI [of _ ?xs])
       auto
qed

theorem udp_data_packet_delivered_witness:
  "\<exists>len b' u'. ucp_packet_encode (Some (example_packet 2)) (Some (replicate UDP_PACKET_SIZE 3)) (of_nat UDP_PACKET_SIZE)
      = Some (len, Some b')
    \<and> udp_socket_send zero_addr b' len \<lparr>udp_next_sd = 1, udp_bind_ok = True, inbox = [], sent = [], send_ok = True\<rparr>
      = Some (312, u')"
proof -
  have ok: "wf_packet (example_packet 2)" "pkt_type (example_packet 2) = UCP_PACKET_TYPE_DATA"
      "valid_data (data_packet (example_packet 2))"
    using example_packet_ok [of 2] by (simp_all add: packet_enums)
  let ?u = "\<lparr>udp_next_sd = 1, udp_bind_ok = True, inbox = [], sent = [], send_ok = True\<rparr> :: udp_net"
  obtain len b' u' and xs :: "u8 list" where s: "ucp_packet_encode (Some (example_packet 2)) (Some (replicate UDP_PACKET_SIZE 3))
      (of_nat UDP_PACKET_SIZE) = Some (len, Some b')" "udp_socket_send zero_addr b' len ?u = Some (int (length xs), u')"
    using udp_data_packet_delivered [OF ok ok(1), of "replicate UDP_PACKET_SIZE 3" "replicate UDP_PACKET_SIZE 0" ?u zero_addr]
    by auto
  have "len = 312"
    using s(1) encode_data_wire [OF ok(1,2), of "replicate UDP_PACKET_SIZE 3" "of_nat UDP_PACKET_SIZE"]
    by (simp add: example_packet_def UDP_PACKET_SIZE_val UDP_PACKET_DATA_SIZE_val sizeof_ucp_packet_val)
  with s show ?thesis by (auto simp: udp_socket_send_def get_bytes_def split: bind_splits if_splits)
qed

end
