(* ===== verification/Ucp_Server.thy ===== *)
theory Ucp_Server
  imports Sequencer File_IO Udp_Socket
begin

text \<open>
  \<open>ucp_server.c\<close>: the queue between the two threads of the server, the receiving thread, which saves
  the packets that arrive and queues their numbers, and the sequencing thread, which answers each
  number with a control packet, keeps the set of numbers and asks for the missing ones.
  The queue's operations run under the mutex, so they are atomic (\<open>Server_Threads\<close> proves it, statement by statement); the
  steps of the two threads interleave freely.
\<close>

subsection \<open>The queue between the threads\<close>

record sequencing_queue_item =
  item_seq_no :: u32
  item_flag :: u32
  item_is_last :: bool

record queue_mem = mem +
  qitems :: "addr \<rightharpoonup> sequencing_queue_item"

definition sequencing_queue_push :: "addr \<Rightarrow> queue_mem \<Rightarrow> u32 \<Rightarrow> u32 \<Rightarrow> bool \<Rightarrow> queue_mem option" where
  "sequencing_queue_push queue s seq_no flag is_last = (case malloc s of (p, s) \<Rightarrow>
     if p = NULL then None
     else do {
       let s = s\<lparr>qitems := (qitems s)(p \<mapsto> \<lparr>item_seq_no = seq_no, item_flag = flag, item_is_last = is_last\<rparr>)\<rparr>;
       (_, s) \<leftarrow> LinkedListAppend s queue p;
       Some s
     })"

definition sequencing_queue_pop :: "addr \<Rightarrow> queue_mem \<Rightarrow> (sequencing_queue_item option \<times> queue_mem) option" where
  "sequencing_queue_pop queue s = do {
     elem \<leftarrow> LinkedListFirst s queue;
     if elem \<noteq> NULL then do {
       e \<leftarrow> elems s elem;
       item \<leftarrow> qitems s (obj e);
       s \<leftarrow> LinkedListUnlink s queue elem;
       Some (Some item, s\<lparr>qitems := (qitems s)(obj e := None)\<rparr>)
     } else Some (None, s)
   }"

subsection \<open>Control packets\<close>

text \<open>
  The first \<open>send_ctrl_packet\<close> of the file (the one the sequencing thread's arguments fit), over the
  TCP connection, and its three uses. \<open>alloc\<close> says whether the \<open>malloc\<close> of the packet succeeds. When it does not,
  the encoder's \<open>-1\<close> is the length of a \<open>memcpy\<close>, a fault.
\<close>

definition send_ctrl_packet :: "bool \<Rightarrow> tcp_client option \<Rightarrow> u32 \<Rightarrow> u32 \<Rightarrow> kernel \<Rightarrow> kernel option" where
  "send_ctrl_packet alloc client seq_no flag k = do {
     let ctrl_packet = ucp_packet_init_ctrl alloc seq_no flag;
     (len, buf) \<leftarrow> ucp_packet_encode ctrl_packet (Some (replicate 10 0)) 10;
     buf \<leftarrow> buf;
     xs \<leftarrow> get_bytes buf 0 (unat len);
     data \<leftarrow> put_bytes (replicate 1024 0) 0 xs;
     (_, k) \<leftarrow> tcp_client_send client \<lparr>sgmnt_data = data, data_len = sint len\<rparr> k;
     Some k
   }"

definition send_ack :: "tcp_client option \<Rightarrow> u32 \<Rightarrow> kernel \<Rightarrow> kernel option" where
  "send_ack client seq_no k = send_ctrl_packet (net_alloc k) client seq_no UCP_FLAG_ACK k"

definition send_nack :: "tcp_client option \<Rightarrow> u32 \<Rightarrow> kernel \<Rightarrow> kernel option" where
  "send_nack client seq_no k = send_ctrl_packet (net_alloc k) client seq_no UCP_FLAG_NACK k"

definition send_fin :: "tcp_client option \<Rightarrow> u32 \<Rightarrow> kernel \<Rightarrow> kernel option" where
  "send_fin client seq_no k = send_ctrl_packet (net_alloc k) client seq_no UCP_FLAG_FIN k"

text \<open>
  The file defines the same four names a second time, over UDP, with 16-bit numbers and a buffer of
  5 bytes; a compiler accepts only one of the two.
\<close>

definition send_ctrl_packet_udp :: "bool \<Rightarrow> sockaddr_in \<Rightarrow> u16 \<Rightarrow> u32 \<Rightarrow> udp_net \<Rightarrow> udp_net option" where
  "send_ctrl_packet_udp alloc client_addr seq_no flag u = do {
     let ctrl_packet = ucp_packet_init_ctrl alloc (ucast seq_no) flag;
     (len, buf) \<leftarrow> ucp_packet_encode ctrl_packet (Some (replicate 5 0)) 5;
     buf \<leftarrow> buf;
     (_, u) \<leftarrow> udp_socket_send client_addr buf len u;
     Some u
   }"

definition send_ack_udp :: "bool \<Rightarrow> sockaddr_in \<Rightarrow> u16 \<Rightarrow> udp_net \<Rightarrow> udp_net option" where
  "send_ack_udp alloc client_addr seq_no u = send_ctrl_packet_udp alloc client_addr seq_no UCP_FLAG_ACK u"

definition send_nack_udp :: "bool \<Rightarrow> sockaddr_in \<Rightarrow> u16 \<Rightarrow> udp_net \<Rightarrow> udp_net option" where
  "send_nack_udp alloc client_addr seq_no u = send_ctrl_packet_udp alloc client_addr seq_no UCP_FLAG_NACK u"

definition send_fin_udp :: "bool \<Rightarrow> sockaddr_in \<Rightarrow> u16 \<Rightarrow> udp_net \<Rightarrow> udp_net option" where
  "send_fin_udp alloc client_addr seq_no u = send_ctrl_packet_udp alloc client_addr seq_no UCP_FLAG_FIN u"

subsection \<open>The receiving thread\<close>

record receiver =
  recv_handle :: file_io_partition_handle
  recv_buffer :: "u8 list"
  rcv_pkt :: ucp_packet

text \<open>
  One iteration of the loop of \<open>receiving_thread\<close>: the flag says whether the loop goes on. \<open>None\<close> is
  a fault, or that no datagram is there to return from \<open>udp_socket_receive_from\<close>.
\<close>

definition receiving_iteration ::
    "addr \<Rightarrow> receiver \<Rightarrow> queue_mem \<Rightarrow> udp_net \<Rightarrow> (bool \<times> receiver \<times> queue_mem \<times> udp_net) option" where
  "receiving_iteration queue r s u = do {
     (ret, buffer, _, u) \<leftarrow> udp_socket_receive_from (recv_buffer r) True u;
     let r = r\<lparr>recv_buffer := buffer\<rparr>;
     if ret > 0 then do {
       pkt \<leftarrow> ucp_packet_decode (Some buffer) (of_nat (length buffer)) (Some (rcv_pkt r));
       pkt \<leftarrow> pkt;
       let r = r\<lparr>rcv_pkt := pkt\<rparr>;
       if pkt_type pkt = UCP_PACKET_TYPE_DATA then do {
         (ok, h) \<leftarrow> file_io_save_packet (recv_handle r) pkt;
         let r = r\<lparr>recv_handle := h\<rparr>;
         if \<not> ok then do {
           s \<leftarrow> sequencing_queue_push queue s (data_seq_no (data_packet pkt)) UCP_FLAG_NACK False;
           Some (False, r, s, u)
         } else do {
           s \<leftarrow> sequencing_queue_push queue s (data_seq_no (data_packet pkt)) UCP_FLAG_ACK
             (data_flag (data_packet pkt) = UCP_FLAG_DATA_END);
           Some (True, r, s, u)
         }
       } else Some (True, r, s, u)
     } else Some (False, r, s, u)
   }"

subsection \<open>The sequencing thread\<close>

text \<open>
  One iteration of the loop of \<open>sequencing_thread\<close>, its condition included: the flag is the value of
  \<open>sequencer_complete\<close>, on which the loop ends. The local variables \<open>seq_no\<close>, \<open>flag\<close> and \<open>is_last\<close>
  are only read right after \<open>sequencing_queue_pop\<close> has set them, so they are local to the iteration.
\<close>

record sequencing =
  seq_memory :: seq_mem
  the_sequencer :: sequencer

definition sequencing_iteration ::
    "addr \<Rightarrow> tcp_client option \<Rightarrow> sequencing \<Rightarrow> queue_mem \<Rightarrow> kernel
      \<Rightarrow> (bool \<times> sequencing \<times> queue_mem \<times> kernel) option" where
  "sequencing_iteration queue client t s k = do {
     (complete, m) \<leftarrow> sequencer_complete (seq_memory t) (the_sequencer t);
     let t = t\<lparr>seq_memory := m\<rparr>;
     if complete then Some (True, t, s, k)
     else do {
       (item, s) \<leftarrow> sequencing_queue_pop queue s;
       case item of
         None \<Rightarrow> Some (False, t, s, k)
       | Some i \<Rightarrow> do {
           k \<leftarrow> send_ctrl_packet (net_alloc k) client (item_seq_no i) (item_flag i) k;
           (_, q, m) \<leftarrow> sequencer_add (seq_memory t) (the_sequencer t) (item_seq_no i)
             (item_flag i = UCP_FLAG_DATA_END);
           k \<leftarrow> sequencer_iterate_missing_segments m q
             (\<lambda>n ctx. case ctx of None \<Rightarrow> None | Some k \<Rightarrow> send_nack client n k) (Some k);
           k \<leftarrow> k;
           Some (False, t\<lparr>seq_memory := m, the_sequencer := q\<rparr>, s, k)
         }
     }
   }"

text \<open>The part of an iteration after the pop.\<close>

definition serve_item ::
    "tcp_client option \<Rightarrow> sequencing_queue_item \<Rightarrow> sequencing \<Rightarrow> kernel \<Rightarrow> (sequencing \<times> kernel) option" where
  "serve_item client i t k = do {
     k \<leftarrow> send_ctrl_packet (net_alloc k) client (item_seq_no i) (item_flag i) k;
     (_, q, m) \<leftarrow> sequencer_add (seq_memory t) (the_sequencer t) (item_seq_no i) (item_flag i = UCP_FLAG_DATA_END);
     k \<leftarrow> sequencer_iterate_missing_segments m q
       (\<lambda>n ctx. case ctx of None \<Rightarrow> None | Some k \<Rightarrow> send_nack client n k) (Some k);
     k \<leftarrow> k;
     Some (t\<lparr>seq_memory := m, the_sequencer := q\<rparr>, k)
   }"

lemma sequencing_split: "sequencing_iteration L cl t s k = do {
    (complete, m) \<leftarrow> sequencer_complete (seq_memory t) (the_sequencer t);
    if complete then Some (True, t\<lparr>seq_memory := m\<rparr>, s, k)
    else do {
      (it, s) \<leftarrow> sequencing_queue_pop L s;
      (case it of None \<Rightarrow> Some (False, t\<lparr>seq_memory := m\<rparr>, s, k)
       | Some i \<Rightarrow> do { (t, k) \<leftarrow> serve_item cl i (t\<lparr>seq_memory := m\<rparr>) k; Some (False, t, s, k) }) } }"
  by (auto simp: sequencing_iteration_def serve_item_def Let_def split: bind_splits option.splits)

text \<open>What follows the loop.\<close>

definition sequencing_exit :: "tcp_client option \<Rightarrow> sequencing \<Rightarrow> kernel \<Rightarrow> (seq_mem \<times> kernel) option" where
  "sequencing_exit client t k = do {
     k \<leftarrow> send_fin client (expectedLastSeqNo (the_sequencer t)) k;
     m \<leftarrow> sequencer_destroy (seq_memory t) (the_sequencer t);
     Some (m, k)
   }"

subsection \<open>The start of the server\<close>

text \<open>
  A C string in an array: the bytes before the first 0; reading an array without one runs past its
  end, which is a fault.
\<close>

definition c_string :: "u8 list \<Rightarrow> u8 list option" where
  "c_string b = (if 0 \<in> set b then Some (takeWhile (\<lambda>x. x \<noteq> 0) b) else None)"

text \<open>
  \<open>main\<close> up to the start of the threads: the UDP socket, the first datagram, the file it names, and
  the connection back to its sender. The result is \<open>None\<close> inside when \<open>main\<close> returns \<open>-1\<close>. \<open>fopen_wb\<close> is
  the stream that \<open>fopen\<close> of the named file returns; the uninitialised locals are arguments.
\<close>

definition server_setup ::
    "(u8 list \<Rightarrow> c_file option) \<Rightarrow> bool \<Rightarrow> u16 \<Rightarrow> u8 list \<Rightarrow> ucp_packet \<Rightarrow> file_io_partition_handle
      \<Rightarrow> udp_net \<Rightarrow> kernel \<Rightarrow> ((tcp_client \<times> file_io_partition_handle) option \<times> udp_net \<times> kernel) option" where
  "server_setup fopen_wb malloc_ok garbage buffer packet handle u k = do {
     (udp_fd, _) \<leftarrow> udp_socket_initialise (Some zero_addr) (of_nat SERVER_BASE_PORT) u;
     if udp_fd < 0 then Some (None, u, k)
     else if udp_socket_bind u \<noteq> 0 then Some (None, u, k)
     else do {
       (ret, buffer, client_addr, u) \<leftarrow> udp_socket_receive_from buffer True u;
       if ret < 0 then Some (None, u, k)
       else do {
         pkt \<leftarrow> ucp_packet_decode (Some buffer) (of_nat (length buffer)) (Some packet);
         packet \<leftarrow> pkt;
         handle \<leftarrow> (if pkt_type packet = UCP_PACKET_TYPE_METADATA then do {
             name \<leftarrow> c_string (desination_name (metadata_packet packet));
             Some (snd (file_io_open_file_of_size (fopen_wb name) handle (ucast (part_size (metadata_packet packet)))))
           } else Some handle);
         client_addr \<leftarrow> client_addr;
         let port = htons (sin_port client_addr);
         let endpoint = \<lparr>ep_addr = client_addr\<lparr>sin_port := htons port\<rparr>, ep_sd = - 1\<rparr>;
         let (client, k) = tcp_client_connect malloc_ok garbage endpoint k;
         (case client of
            None \<Rightarrow> Some (None, u, k)
          | Some cl \<Rightarrow> Some (Some (cl, handle), u, k))
       }
     }
   }"

lemma htons_htons [simp]: "htons (htons w) = w"
proof (rule bit_word_eqI)
  fix n assume "n < LENGTH(16)"
  then show "bit (htons (htons w)) n = bit w n" by (cases "n < 8") (auto simp: htons_def bit_simps)
qed

lemma server_setup_metadata:
  assumes "0 \<le> udp_next_sd u" "udp_bind_ok u" "inbox u = (src, meta_wire m) # rest"
    and "length buffer = UDP_PACKET_SIZE" "wf_packet q"
    and "length (desination_name m) = NAME_SIZE" "c_string (desination_name m) = Some name"
    and "fopen_wb name = Some f" "bytes f = []" "pos f = 0" "seekable f" "flushable f" "unat (part_size m) \<le> capacity f"
    and "0 \<le> next_sd k" "connect_ok k"
  shows "\<exists>cl h' k'. server_setup fopen_wb True garbage buffer q h u k = Some (Some (cl, h'), u\<lparr>inbox := rest\<rparr>, k')
    \<and> ready h' (unat (part_size m)) (replicate (unat (part_size m)) 0)
    \<and> ep_addr (client_server cl) = src \<and> client_sd cl \<in> open_sds k' \<and> outgoing k' = outgoing k \<and> accepts k' = accepts k
    \<and> client_sd cl = next_sd k \<and> net_alloc k' = net_alloc k"
proof -
  let ?n = "of_nat UDP_PACKET_SIZE :: u64" and ?w = "meta_wire m"
  have w: "length ?w = 26" using assms(6) by (simp add: meta_wire_def NAME_SIZE_def)
  define rb where "rb = ?w @ drop 26 buffer"
  have rb: "length rb = UDP_PACKET_SIZE" using w assms(4) by (simp add: rb_def UDP_PACKET_SIZE_val)
  have recv: "udp_socket_receive_from buffer True u = Some (26, rb, Some src, u\<lparr>inbox := rest\<rparr>)"
    using receive_datagram [OF assms(3), of buffer True] w assms(4) by (simp add: rb_def UDP_PACKET_SIZE_val)
  have n: "sizeof_ucp_packet \<le> unat ?n" by (simp add: UDP_PACKET_SIZE_val sizeof_ucp_packet_val)
  obtain p where p: "ucp_packet_decode (Some rb) ?n (Some q) = Some (Some p)" "pkt_type p = UCP_PACKET_TYPE_METADATA"
      "metadata_packet p = m"
    using meta_codec.dec [OF assms(5,6) n] unfolding rb_def by blast
  have sz: "unat (ucast (part_size m) :: u64) = unat (part_size m)"
    by (simp add: unsigned_ucast_eq take_bit_nat_eq_self order_less_trans [OF unsigned_less])
  obtain h' where h': "file_io_open_file_of_size (Some f) h (ucast (part_size m)) = (True, h')"
      "ready h' (unat (part_size m)) (replicate (unat (part_size m)) 0)"
    using open_file_ready [of f "ucast (part_size m)" h] assms(9-13) unfolding sz by blast
  show ?thesis
    using recv p h' assms(1,2,7,8,14,15) rb
    by (auto simp: server_setup_def udp_socket_initialise_def udp_socket_bind_def Let_def tcp_client_connect_def
        k_socket_def split: option.splits)
qed

text \<open>The locals of the two threads when they start, and the queue that \<open>main\<close> has initialised.\<close>

definition zero_packet :: ucp_packet where
  "zero_packet = (the (ucp_packet_init True 0))"

definition receiving_thread_start :: "file_io_partition_handle \<Rightarrow> receiver" where
  "receiving_thread_start handle = \<lparr>recv_handle = handle, recv_buffer = replicate UDP_PACKET_SIZE 0, rcv_pkt = zero_packet\<rparr>"

definition sequencing_thread_start :: "seq_mem \<Rightarrow> sequencing option" where
  "sequencing_thread_start m = do {
     (q, m) \<leftarrow> sequencer_init m;
     q \<leftarrow> q;
     Some \<lparr>seq_memory = m, the_sequencer = q\<rparr>
   }"

subsection \<open>The queue is a queue\<close>

type_synonym queue_frame = "(addr \<rightharpoonup> ll_elem) \<times> (addr \<rightharpoonup> sequencing_queue_item)"

definition qrep ::
    "queue_frame \<Rightarrow> addr \<Rightarrow> queue_mem \<Rightarrow> (addr \<times> addr) list \<Rightarrow> sequencing_queue_item list \<Rightarrow> bool" where
  "qrep F L s ps xs \<longleftrightarrow> dll (elems s) L ps \<and> distinct (map snd ps) \<and> map (\<lambda>p. qitems s (snd p)) ps = map Some xs
     \<and> wf_mem s \<and> dom (qitems s) \<subseteq> {0<..<brk s}
     \<and> outside (fst F) (elems s) (addrs L ps) \<and> outside (snd F) (qitems s) (set (map snd ps))"

lemma wf_mem_qitems [simp]: "wf_mem (s\<lparr>qitems := I\<rparr>) = wf_mem (s :: queue_mem)"
  by (simp add: wf_mem_def)

lemma map_other: "ob \<notin> set (map snd ps) \<Longrightarrow> map (\<lambda>p. (I(ob := x)) (snd p)) ps = map (\<lambda>p. I (snd p)) ps"
  by (induction ps) auto

lemma queue_push:
  assumes r: "qrep F L s ps xs" and a: "1 < avail s"
  shows "\<exists>s' ps'. sequencing_queue_push L s n f l = Some s'
    \<and> qrep F L s' ps' (xs @ [\<lparr>item_seq_no = n, item_flag = f, item_is_last = l\<rparr>]) \<and> avail s' = avail s - 2"
proof -
  let ?i = "\<lparr>item_seq_no = n, item_flag = f, item_is_last = l\<rparr>"
  note q = r [unfolded qrep_def]
  define s0 where "s0 = s\<lparr>brk := Suc (brk s), avail := avail s - 1, qitems := (qitems s)(brk s \<mapsto> ?i)\<rparr>"
  have m: "malloc s = (brk s, s\<lparr>brk := Suc (brk s), avail := avail s - 1\<rparr>)" "brk s \<noteq> NULL"
    using a q by (simp_all add: malloc_def wf_mem_def)
  have s0: "wf_mem s0" "dll (elems s0) L ps" "0 < avail s0" using q a by (auto simp: s0_def wf_mem_def)
  obtain s1 where s1: "LinkedListAppend s0 L (brk s) = Some (True, s1)" "ll_added s0 L (addrs L ps) s1"
      "dll (elems s1) L (ps @ [(brk s0, brk s)])"
    using Append_dll [OF s0] by blast
  obtain E where E: "s1 = s0\<lparr>brk := Suc (brk s0), avail := avail s0 - 1,
      elems := E, members := (members s0)(L := members s0 L + 1)\<rparr>"
      "\<forall>p. p \<notin> insert (brk s0) (addrs L ps) \<longrightarrow> E p = elems s0 p"
    using s1(2) unfolding ll_added_def by blast
  have fresh: "qitems s (brk s) = None" "elems s (brk s0) = None"
    using q by (auto simp: s0_def wf_mem_def)
  have some: "qitems s (snd p) \<noteq> None" if "p \<in> set ps" for p
  proof -
    have "qitems s (snd p) \<in> set (map (\<lambda>p. qitems s (snd p)) ps)" using that by simp
    then show ?thesis using q by auto
  qed
  then have ob: "brk s \<notin> set (map snd ps)" using fresh(1) by fastforce
  have el: "brk s0 \<notin> addrs L ps" using dll_dom [of "elems s" L ps "brk s0"] q fresh(2) by blast
  have push: "sequencing_queue_push L s n f l = Some s1"
    using m s1(1) by (simp add: sequencing_queue_push_def s0_def Let_def)
  have qi: "qitems s1 = (qitems s)(brk s \<mapsto> ?i)" by (simp add: E(1) s0_def)
  have "outside (fst F) E (insert (brk s0) (addrs L ps))"
    by (rule outside_add [of _ "elems s"]) (use q E(2) fresh(2) el in \<open>auto simp: s0_def\<close>)
  moreover have "insert (brk s0) (addrs L ps) = addrs L (ps @ [(brk s0, brk s)])" by auto
  moreover have "outside (snd F) (qitems s1) (insert (brk s) (set (map snd ps)))"
    by (rule outside_add [of _ "qitems s"]) (use q fresh(1) ob in \<open>auto simp: E(1) s0_def\<close>)
  moreover have "map (\<lambda>p. qitems s1 (snd p)) ps = map Some xs"
    unfolding qi by (rule trans [OF map_other [OF ob]]) (use q in simp)
  then have "map (\<lambda>p. qitems s1 (snd p)) (ps @ [(brk s0, brk s)]) = map Some (xs @ [?i])" by (simp add: qi)
  moreover have "dom (qitems s1) \<subseteq> {0<..<brk s1}" using q by (auto simp: E(1) s0_def wf_mem_def)
  ultimately have "qrep F L s1 (ps @ [(brk s0, brk s)]) (xs @ [?i])"
    using q s1(3) ob ll_added_wf [OF s0(1) s1(2)] by (simp add: qrep_def E(1))
  moreover have "avail s1 = avail s - 2" using a by (simp add: E(1) s0_def)
  ultimately show ?thesis using push by blast
qed

lemma queue_pop:
  assumes r: "qrep F L s ps xs"
  shows "\<exists>s' ps'. sequencing_queue_pop L s = Some (case xs of [] \<Rightarrow> None | x # _ \<Rightarrow> Some x, s')
    \<and> qrep F L s' ps' (tl xs) \<and> avail s' = avail s"
proof (cases xs)
  case Nil
  then have "ps = []" using r by (auto simp: qrep_def)
  then show ?thesis using r Nil First_dll [of s L ps] by (auto simp: qrep_def sequencing_queue_pop_def)
next
  case (Cons x xs')
  note q = r [unfolded qrep_def]
  obtain p ob qs where ps: "ps = [] @ (p, ob) # qs" using q Cons by (cases ps) auto
  have d: "dll (elems s) L ([] @ (p, ob) # qs)" using q ps by simp
  obtain e where e: "elems s p = Some e" "obj e = ob" "p \<noteq> NULL"
    using dll_at [OF d] dll_elem_not_NULL [OF d] by blast
  have x: "qitems s ob = Some x" using q ps Cons by simp
  obtain s1 where s1: "LinkedListUnlink s L p = Some s1" "dll (elems s1) L qs"
      "ll_removed s L (addrs L ps) p s1"
    using Unlink_dll [OF d] ps by auto
  obtain E where E: "s1 = s\<lparr>elems := E, members := (members s)(L := members s L - 1)\<rparr>"
      "dom E = dom (elems s) - {p}" "\<forall>w. w \<notin> insert p (addrs L ps) \<longrightarrow> E w = elems s w"
    using s1(3) unfolding ll_removed_def by blast
  define s2 where "s2 = s1\<lparr>qitems := (qitems s1)(ob := None)\<rparr>"
  have pop: "sequencing_queue_pop L s = Some (Some x, s2)"
    using First_dll [of s L ps] q ps e x s1(1) by (auto simp: sequencing_queue_pop_def s2_def E(1))
  have "outside (fst F) E (addrs L ps - {p})"
    by (rule outside_remove [OF _ _ _ E(3)]) (use q E(2) ps in auto)
  moreover have "addrs L ps - {p} = addrs L qs" using d ps by (auto simp: dll_def)
  moreover have "outside (snd F) ((qitems s)(ob := None)) (set (map snd ps) - {ob})"
    by (rule outside_remove [of _ "qitems s"]) (use q ps in auto)
  moreover have "set (map snd ps) - {ob} = set (map snd qs)" using q ps by auto
  moreover have "map (\<lambda>p. ((qitems s)(ob := None)) (snd p)) qs = map Some xs'"
    by (rule trans [OF map_other]) (use q ps Cons in simp_all)
  moreover have "wf_mem s1" using ll_removed_wf [OF _ s1(3)] q by blast
  moreover have "dom ((qitems s)(ob := None)) \<subseteq> {0<..<brk s}" using q by auto
  ultimately have "qrep F L s2 qs xs'"
    using s1(2) q ps by (simp add: qrep_def s2_def E(1) del: list.set fun_upd_apply)
  moreover have "avail s2 = avail s" by (simp add: s2_def E(1))
  ultimately show ?thesis using pop Cons by auto
qed

text \<open>
  The interface between the two threads: whatever the order in which they push and pop, what comes
  out is what went in, in order.
\<close>

datatype 'x queue_op = Push 'x | Pop

fun run_ops :: "('x \<Rightarrow> 's \<Rightarrow> 's option) \<Rightarrow> ('s \<Rightarrow> ('x option \<times> 's) option) \<Rightarrow> 's \<Rightarrow> 'x queue_op list
    \<Rightarrow> ('x list \<times> 's) option" where
  "run_ops push pop s [] = Some ([], s)"
| "run_ops push pop s (Push x # ops) = do {
     s \<leftarrow> push x s;
     run_ops push pop s ops
   }"
| "run_ops push pop s (Pop # ops) = do {
     (x, s) \<leftarrow> pop s;
     (out, s) \<leftarrow> run_ops push pop s ops;
     Some (case x of None \<Rightarrow> out | Some y \<Rightarrow> y # out, s)
   }"

fun pushed :: "'x queue_op list \<Rightarrow> 'x list" where
  "pushed [] = []"
| "pushed (Push x # ops) = x # pushed ops"
| "pushed (Pop # ops) = pushed ops"

locale fifo =
  fixes rep :: "'s \<Rightarrow> 'x list \<Rightarrow> bool"
    and room :: "'s \<Rightarrow> nat"
    and push :: "'x \<Rightarrow> 's \<Rightarrow> 's option"
    and pop :: "'s \<Rightarrow> ('x option \<times> 's) option"
  assumes push_law: "rep s xs \<Longrightarrow> 1 < room s \<Longrightarrow> \<exists>s'. push x s = Some s' \<and> rep s' (xs @ [x]) \<and> room s - 2 \<le> room s'"
    and pop_law: "rep s xs \<Longrightarrow> \<exists>s'. pop s = Some (case xs of [] \<Rightarrow> None | x # _ \<Rightarrow> Some x, s') \<and> rep s' (tl xs) \<and> room s \<le> room s'"
begin

lemma run_in_order:
  "rep s xs \<Longrightarrow> 2 * length (pushed ops) \<le> room s \<Longrightarrow>
    \<exists>out s' rest. run_ops push pop s ops = Some (out, s') \<and> rep s' rest \<and> out @ rest = xs @ pushed ops"
proof (induction ops arbitrary: s xs rule: pushed.induct)
  case 1
  then show ?case by auto
next
  case (2 x ops)
  then obtain s1 where s1: "push x s = Some s1" "rep s1 (xs @ [x])" "room s - 2 \<le> room s1"
    using push_law [OF "2.prems"(1), of x] by auto
  have "2 * length (pushed ops) \<le> room s1" using "2.prems"(2) s1(3) by simp
  from "2.IH" [OF s1(2) this] s1(1) show ?case by auto
next
  case (3 ops)
  obtain s1 where s1: "pop s = Some (case xs of [] \<Rightarrow> None | x # _ \<Rightarrow> Some x, s1)" "rep s1 (tl xs)" "room s \<le> room s1"
    using pop_law [OF "3.prems"(1)] by blast
  have "2 * length (pushed ops) \<le> room s1" using "3.prems"(2) s1(3) by simp
  from "3.IH" [OF s1(2) this] obtain out s' rest where
    "run_ops push pop s1 ops = Some (out, s')" "rep s' rest" "out @ rest = tl xs @ pushed ops" by blast
  with s1(1) show ?case by (cases xs) auto
qed

end

definition push_item :: "addr \<Rightarrow> sequencing_queue_item \<Rightarrow> queue_mem \<Rightarrow> queue_mem option" where
  "push_item L i s = sequencing_queue_push L s (item_seq_no i) (item_flag i) (item_is_last i)"

interpretation sq_queue: fifo "\<lambda>s xs. \<exists>ps. qrep F L s ps xs" avail "push_item L" "sequencing_queue_pop L" for F L
proof unfold_locales
  fix s :: queue_mem and xs x
  have eta: "\<lparr>item_seq_no = item_seq_no x, item_flag = item_flag x, item_is_last = item_is_last x\<rparr> = x"
    by (cases x) simp
  assume "\<exists>ps. qrep F L s ps xs" "1 < avail s"
  then show "\<exists>s'. push_item L x s = Some s' \<and> (\<exists>ps. qrep F L s' ps (xs @ [x])) \<and> avail s - 2 \<le> avail s'"
    using queue_push [of F L s _ xs "item_seq_no x" "item_flag x" "item_is_last x"]
    unfolding push_item_def eta by fastforce
next
  fix s :: queue_mem and xs
  assume "\<exists>ps. qrep F L s ps xs"
  then show "\<exists>s'. sequencing_queue_pop L s = Some (case xs of [] \<Rightarrow> None | x # _ \<Rightarrow> Some x, s')
      \<and> (\<exists>ps. qrep F L s' ps (tl xs)) \<and> avail s \<le> avail s'"
    using queue_pop [of F L s _ xs] by fastforce
qed

subsection \<open>Control packets on the wire\<close>

text \<open>The connection takes control packets, and there is memory to make them.\<close>

definition can_send :: "kernel \<Rightarrow> int \<Rightarrow> bool" where
  "can_send k d \<longleftrightarrow> net_alloc k \<and> (\<exists>n \<ge> 6. accepts k d = Some n)"

definition queue_out :: "int \<Rightarrow> u8 list \<Rightarrow> kernel \<Rightarrow> kernel" where
  "queue_out d xs k = k\<lparr>outgoing := (outgoing k)(d := outgoing k d @ xs)\<rparr>"

lemma queue_out_simps [simp]: "outgoing (queue_out d xs k) d = outgoing k d @ xs"
    "accepts (queue_out d xs k) = accepts k" "net_alloc (queue_out d xs k) = net_alloc k" "can_send (queue_out d xs k) = can_send k"
    "queue_out d ys (queue_out d xs k) = queue_out d (xs @ ys) k" "queue_out d [] k = k"
  by (simp_all add: queue_out_def can_send_def fun_eq_iff)

lemma send_ctrl_packet_ok:
  assumes "can_send k (client_sd cl)"
  shows "send_ctrl_packet True (Some cl) n f k = Some (queue_out (client_sd cl) (ctrl_wire (ctrl f n)) k)"
proof -
  let ?p = "(the (ucp_packet_init True UCP_PACKET_TYPE_CTRL))\<lparr>ctrl_packet := ctrl f n\<rparr>"
  have "pkt_type ?p = UCP_PACKET_TYPE_CTRL" by (simp add: ucp_packet_init_def)
  from encode_ctrl_wire [OF this, of "replicate 10 0" 10]
  have enc: "ucp_packet_encode (Some ?p) (Some (replicate 10 0)) 10 = Some (6, Some (ctrl_wire (ctrl f n) @ replicate 4 0))"
    by simp
  obtain m where m: "6 \<le> m" "accepts k (client_sd cl) = Some m" using assms by (auto simp: can_send_def)
  show ?thesis
    using m by (simp add: send_ctrl_packet_def init_ctrl_Some enc get_bytes_def put_bytes_def tcp_client_send_def
        k_send_def queue_out_def Let_def)
qed

lemma send_nacks:
  "can_send k (client_sd cl) \<Longrightarrow> fold (\<lambda>n ctx. case ctx of None \<Rightarrow> None | Some k \<Rightarrow> send_nack (Some cl) n k) ms (Some k)
    = Some (queue_out (client_sd cl) (concat (map (\<lambda>n. ctrl_wire (ctrl UCP_FLAG_NACK n)) ms)) k)"
proof (induction ms arbitrary: k)
  case (Cons m ms)
  then have "send_nack (Some cl) m k = Some (queue_out (client_sd cl) (ctrl_wire (ctrl UCP_FLAG_NACK m)) k)"
    using send_ctrl_packet_ok [of k cl m UCP_FLAG_NACK] by (simp add: send_nack_def can_send_def)
  then show ?case using Cons by simp
qed simp

subsection \<open>One step of each thread\<close>

lemma receiving_file_packet:
  assumes "inbox u = (from, data_wire (data_packet (file_packet b i))) # rest" "i < packet_count b" "length b < 2 ^ 32"
    and "length (recv_buffer r) = UDP_PACKET_SIZE" "wf_packet (rcv_pkt r)"
    and "ready (recv_handle r) (length b) c" "written b I c" "qrep F L s ps xs" "1 < avail s"
  shows "\<exists>r' s' ps' c'. receiving_iteration L r s u = Some (True, r', s', u\<lparr>inbox := rest\<rparr>)
    \<and> length (recv_buffer r') = UDP_PACKET_SIZE \<and> wf_packet (rcv_pkt r')
    \<and> ready (recv_handle r') (length b) c' \<and> written b (insert i I) c'
    \<and> qrep F L s' ps' (xs @ [\<lparr>item_seq_no = of_nat i, item_flag = UCP_FLAG_ACK,
        item_is_last = (file_packet_flag b i = UCP_FLAG_DATA_END)\<rparr>]) \<and> avail s' = avail s - 2
    \<and> pkt_type (rcv_pkt r') = UCP_PACKET_TYPE_DATA \<and> same_data (data_packet (rcv_pkt r')) (data_packet (file_packet b i))"
proof -
  let ?xs = "data_wire (data_packet (file_packet b i))" and ?n = "of_nat UDP_PACKET_SIZE :: u64"
  note v = file_packet_fields(6) [of b i]
  have fit: "0 < length ?xs" "length ?xs \<le> length (recv_buffer r)"
    using v assms(4) by (simp_all add: length_data_wire valid_data_def UDP_PACKET_SIZE_val UDP_PACKET_DATA_SIZE_val)
  define rb where "rb = ?xs @ drop (length ?xs) (recv_buffer r)"
  have rb: "length rb = UDP_PACKET_SIZE" using fit assms(4) by (simp add: rb_def)
  have recv: "udp_socket_receive_from (recv_buffer r) True u = Some (int (length ?xs), rb, Some from, u\<lparr>inbox := rest\<rparr>)"
    unfolding rb_def by (rule receive_datagram [OF assms(1) fit(2)])
  have n: "sizeof_ucp_packet \<le> unat ?n" by (simp add: UDP_PACKET_SIZE_val sizeof_ucp_packet_val)
  obtain q where q: "ucp_packet_decode (Some rb) ?n (Some (rcv_pkt r)) = Some (Some q)" "wf_packet q"
      "pkt_type q = UCP_PACKET_TYPE_DATA" "same_data (data_packet q) (data_packet (file_packet b i))"
    using data_codec.dec [OF assms(5) v n] unfolding rb_def by blast
  obtain h c' where h: "file_io_save_packet (recv_handle r) q = Some (True, h)" "ready h (length b) c'"
      "written b (insert i I) c'"
    using save_file_packet [OF assms(6,7,2,3) q(2,4)] by blast
  have fields: "data_seq_no (data_packet q) = of_nat i" "data_flag (data_packet q) = file_packet_flag b i"
    using q(4) by (simp_all add: same_data_def file_packet_fields)
  obtain s' ps' where s': "sequencing_queue_push L s (of_nat i) UCP_FLAG_ACK (file_packet_flag b i = UCP_FLAG_DATA_END) = Some s'"
      "qrep F L s' ps' (xs @ [\<lparr>item_seq_no = of_nat i, item_flag = UCP_FLAG_ACK,
        item_is_last = (file_packet_flag b i = UCP_FLAG_DATA_END)\<rparr>])" "avail s' = avail s - 2"
    using queue_push [OF assms(8,9)] by blast
  define r' where "r' = r\<lparr>recv_buffer := rb, rcv_pkt := q, recv_handle := h\<rparr>"
  have "receiving_iteration L r s u = Some (True, r', s', u\<lparr>inbox := rest\<rparr>)"
    using fit(1) q(1,3) h(1) s'(1) fields
    by (simp add: receiving_iteration_def recv rb Let_def r'_def)
  then show ?thesis using rb q(2-4) h s'(2,3)
    by (intro exI [of _ r'] exI [of _ s'] exI [of _ ps'] exI [of _ c']) (simp add: r'_def)
qed

text \<open>A datagram whose first byte names no type leaves the packet that was received last where it was.\<close>

lemma decode_unknown:
  assumes "x \<noteq> 1" "x \<noteq> 2" "x \<noteq> 3"
  shows "ucp_packet_decode (Some (x # xs)) n (Some p) = Some (Some p)"
proof -
  have "(ucast x :: u32) \<noteq> k" if "unat x \<noteq> unat k" for k using that by (metis unat_ucast_u8)
  moreover have "unat x \<noteq> 1" "unat x \<noteq> 2" "unat x \<noteq> 3" using assms word_unat_eq_iff [of x 1] word_unat_eq_iff [of x 2] word_unat_eq_iff [of x 3] by simp_all
  ultimately show ?thesis by (simp add: ucp_packet_decode_def get_byte_def packet_enums)
qed

lemma receiving_unknown:
  assumes ib: "inbox u = (from, x # xs) # rest" and x: "x \<noteq> 1" "x \<noteq> 2" "x \<noteq> 3" and len: "recv_buffer r \<noteq> []"
    and p: "pkt_type (rcv_pkt r) = UCP_PACKET_TYPE_DATA" "file_io_save_packet (recv_handle r) (rcv_pkt r) = Some (True, h)"
    and q: "qrep F L s ps ys" "1 < avail s"
  shows "\<exists>s' ps'. receiving_iteration L r s u = Some (True, r\<lparr>recv_buffer := take (length (recv_buffer r)) (x # xs)
        @ drop (length (x # xs)) (recv_buffer r), recv_handle := h\<rparr>, s', u\<lparr>inbox := rest\<rparr>)
    \<and> qrep F L s' ps' (ys @ [\<lparr>item_seq_no = data_seq_no (data_packet (rcv_pkt r)), item_flag = UCP_FLAG_ACK,
        item_is_last = (data_flag (data_packet (rcv_pkt r)) = UCP_FLAG_DATA_END)\<rparr>])"
proof -
  obtain s' ps' where s': "sequencing_queue_push L s (data_seq_no (data_packet (rcv_pkt r))) UCP_FLAG_ACK
        (data_flag (data_packet (rcv_pkt r)) = UCP_FLAG_DATA_END) = Some s'"
      "qrep F L s' ps' (ys @ [\<lparr>item_seq_no = data_seq_no (data_packet (rcv_pkt r)), item_flag = UCP_FLAG_ACK,
        item_is_last = (data_flag (data_packet (rcv_pkt r)) = UCP_FLAG_DATA_END)\<rparr>])"
    using queue_push [OF q] by blast
  obtain n where n: "length (recv_buffer r) = Suc n" using len by (cases "recv_buffer r") auto
  have buf: "take (length (recv_buffer r)) (x # xs) @ drop (length (x # xs)) (recv_buffer r)
      = x # (take n xs @ drop (length (x # xs)) (recv_buffer r))" unfolding n by simp
  have recv: "udp_socket_receive_from (recv_buffer r) True u = Some (int (min (length (recv_buffer r)) (length (x # xs))),
      x # (take n xs @ drop (length (x # xs)) (recv_buffer r)), Some from, u\<lparr>inbox := rest\<rparr>)"
    using receive_datagram_cut [OF ib, of "recv_buffer r" True] unfolding buf .
  have "0 < int (min (length (recv_buffer r)) (length (x # xs)))" using n by simp
  then show ?thesis unfolding buf using recv decode_unknown [OF x] p s'
    by (intro exI [of _ s'] exI [of _ ps']) (simp add: receiving_iteration_def Let_def)
qed

text \<open>A metadata packet that arrives once more changes only the thread's buffer and packet.\<close>

lemma receiving_metadata:
  assumes "inbox u = (from, meta_wire m) # rest" "length (desination_name m) = NAME_SIZE"
    and "length (recv_buffer r) = UDP_PACKET_SIZE" "wf_packet (rcv_pkt r)"
  shows "\<exists>r'. receiving_iteration L r s u = Some (True, r', s, u\<lparr>inbox := rest\<rparr>)
    \<and> length (recv_buffer r') = UDP_PACKET_SIZE \<and> wf_packet (rcv_pkt r') \<and> recv_handle r' = recv_handle r"
proof -
  let ?n = "of_nat UDP_PACKET_SIZE :: u64"
  have w: "length (meta_wire m) = 26" using assms(2) by (simp add: meta_wire_def NAME_SIZE_def)
  define rb where "rb = meta_wire m @ drop 26 (recv_buffer r)"
  have rb: "length rb = UDP_PACKET_SIZE" using w assms(3) by (simp add: rb_def UDP_PACKET_SIZE_val)
  have recv: "udp_socket_receive_from (recv_buffer r) True u = Some (26, rb, Some from, u\<lparr>inbox := rest\<rparr>)"
    using receive_datagram [OF assms(1), of "recv_buffer r" True] w assms(3) by (simp add: rb_def UDP_PACKET_SIZE_val)
  have n: "sizeof_ucp_packet \<le> unat ?n" by (simp add: UDP_PACKET_SIZE_val sizeof_ucp_packet_val)
  obtain q where q: "ucp_packet_decode (Some rb) ?n (Some (rcv_pkt r)) = Some (Some q)" "wf_packet q"
      "pkt_type q = UCP_PACKET_TYPE_METADATA"
    using meta_codec.dec [OF assms(4,2) n] unfolding rb_def by blast
  then have "receiving_iteration L r s u = Some (True, r\<lparr>recv_buffer := rb, rcv_pkt := q\<rparr>, s, u\<lparr>inbox := rest\<rparr>)"
    by (simp add: receiving_iteration_def recv rb Let_def packet_enums)
  then show ?thesis using rb q(2)
    by (intro exI [of _ "r\<lparr>recv_buffer := rb, rcv_pkt := q\<rparr>"]) simp
qed

text \<open>
  What the sequencing thread does with an item, for the ranges \<open>rs\<close> and \<open>rs'\<close> of its set before and after: the reply, the
  number added (unless it is below the first range), and the NACKs for the numbers that are missing.
\<close>

definition served ::
    "tcp_client \<Rightarrow> sequencing_queue_item \<Rightarrow> (u32 \<times> u32) list \<Rightarrow> sequencer \<Rightarrow> kernel \<Rightarrow> (u32 \<times> u32) list \<Rightarrow> sequencer \<Rightarrow> kernel \<Rightarrow> bool" where
  "served cl x rs q k rs' q' k' \<longleftrightarrow> seqs rs' = (if rs = [] \<or> \<not> item_seq_no x + 1 < fst (hd rs)
         then insert (item_seq_no x) (seqs rs) else seqs rs)
     \<and> q' = sequencer_mark q (item_seq_no x) (item_flag x = UCP_FLAG_DATA_END)
     \<and> (\<exists>ms. sorted_wrt (<) ms \<and> set ms = {n. n < maxSeqNo q' \<and> n \<notin> seqs rs'}
         \<and> k' = queue_out (client_sd cl) (ctrl_wire (ctrl (item_flag x) (item_seq_no x))
             @ concat (map (\<lambda>n. ctrl_wire (ctrl UCP_FLAG_NACK n)) ms)) k)"

lemma served_merge:
  assumes "ranges_ok rs" "served cl x (ranges_merge rs) q k rs' q' k'"
  shows "served cl x rs q k rs' q' k'"
proof -
  have "rs \<noteq> [] \<Longrightarrow> ranges_merge rs \<noteq> [] \<and> fst (hd (ranges_merge rs)) = fst (hd rs)"
    by (cases rs rule: ranges_merge.cases) auto
  then show ?thesis using assms(2) ranges_merge_props [OF assms(1)] unfolding served_def by (cases "rs = []") auto
qed

lemma serve_item_ok:
  assumes sr: "srep F (seq_memory t) (seq (the_sequencer t)) ps rs" and ok: "ranges_ok rs"
    and a: "1 < avail (seq_memory t)" and cs: "can_send k (client_sd cl)" and n: "item_seq_no x \<noteq> - 1"
  shows "\<exists>t' k' ps' rs'. serve_item (Some cl) x t k = Some (t', k')
    \<and> srep F (seq_memory t') (seq (the_sequencer t')) ps' rs' \<and> ranges_ok rs'
    \<and> avail (seq_memory t) - 2 \<le> avail (seq_memory t') \<and> served cl x rs (the_sequencer t) k rs' (the_sequencer t') k'"
proof -
  let ?q = "the_sequencer t" and ?n = "item_seq_no x" and ?last = "item_flag x = UCP_FLAG_DATA_END" and ?d = "client_sd cl"
  let ?r = "?n \<notin> seqs rs \<and> (rs = [] \<or> \<not> ?n + 1 < fst (hd rs))" and ?q' = "sequencer_mark ?q ?n ?last"
  obtain rs' where rs': "ranges_add ?n rs = (?r, rs')" "ranges_ok rs'" "if ?r then seqs rs' = insert ?n (seqs rs) else rs' = rs"
    using ranges_add_result [OF ok n] by blast
  obtain m ps' where m: "sequencer_add (seq_memory t) ?q ?n ?last = Some (?r, ?q', m)" "srep F m (seq ?q) ps' rs'"
      "avail (seq_memory t) - 2 \<le> avail m"
    using sequencer_add_ranges [OF sr, of ?n ?last] a rs'(1) by auto
  have ne: "rs' \<noteq> []" using rs'(3) by (auto split: if_splits)
  let ?k1 = "queue_out ?d (ctrl_wire (ctrl (item_flag x) ?n)) k" and ?ms = "ranges_missing rs' (maxSeqNo ?q')"
  have it: "sequencer_iterate_missing_segments m ?q' cb ctx = Some (fold cb ?ms ctx)" for cb and ctx :: "kernel option"
    using sequencer_iterate_missing_ranges [of F m ?q' ps' rs' cb ctx] m(2) ne by simp
  have k1: "send_ctrl_packet (net_alloc k) (Some cl) ?n (item_flag x) k = Some ?k1" "can_send ?k1 ?d"
    using send_ctrl_packet_ok [OF cs] cs by (simp_all add: can_send_def)
  let ?k' = "queue_out ?d (concat (map (\<lambda>n. ctrl_wire (ctrl UCP_FLAG_NACK n)) ?ms)) ?k1"
  have run: "serve_item (Some cl) x t k = Some (t\<lparr>seq_memory := m, the_sequencer := ?q'\<rparr>, ?k')"
    using k1 m(1) it send_nacks [OF k1(2)] by (simp add: serve_item_def)
  have "set ?ms = {n. n < maxSeqNo ?q' \<and> n \<notin> seqs rs'}" "sorted_wrt (<) ?ms"
    by (rule set_ranges_missing, rule ranges_missing_ascending)
  then have "served cl x rs ?q k rs' ?q' ?k'" using rs'(3) unfolding served_def
    by (intro conjI exI [of _ ?ms]) (auto split: if_splits)
  then show ?thesis using run m(2,3) rs'(2)
    by (intro exI [of _ "t\<lparr>seq_memory := m, the_sequencer := ?q'\<rparr>"] exI [of _ ?k'] exI [of _ ps'] exI [of _ rs']) simp
qed

lemma sequencing_iteration_cases:
  assumes sr: "srep F (seq_memory t) (seq (the_sequencer t)) ps rs" and ok: "ranges_ok rs"
    and a: "1 < avail (seq_memory t)" and qr: "qrep QF L s qs xs" and cs: "can_send k (client_sd cl)"
    and last: "\<forall>x \<in> set xs. item_seq_no x \<noteq> - 1"
  shows "\<exists>b t' s' k' ps' rs' qs'. sequencing_iteration L (Some cl) t s k = Some (b, t', s', k')
    \<and> srep F (seq_memory t') (seq (the_sequencer t')) ps' rs' \<and> ranges_ok rs'
    \<and> avail s' = avail s \<and> avail (seq_memory t) - 2 \<le> avail (seq_memory t')
    \<and> (b \<longrightarrow> seqs rs = {0..expectedLastSeqNo (the_sequencer t)})
    \<and> (\<not> b \<longrightarrow> qrep QF L s' qs' (tl xs) \<and> (case xs of
        [] \<Rightarrow> seqs rs' = seqs rs \<and> the_sequencer t' = the_sequencer t \<and> k' = k
      | x # _ \<Rightarrow> served cl x rs (the_sequencer t) k rs' (the_sequencer t') k'))"
proof -
  let ?q = "the_sequencer t"
  obtain m ps1 where m: "sequencer_complete (seq_memory t) ?q = Some (ranges_done (expectedLastSeqNo ?q) rs, m)"
      "srep F m (seq ?q) ps1 (ranges_merge rs)" "avail m = avail (seq_memory t)"
    using sequencer_complete_ranges [OF sr ok] by blast
  note mp = ranges_merge_props [OF ok]
  let ?t = "t\<lparr>seq_memory := m\<rparr>"
  show ?thesis
  proof (cases "ranges_done (expectedLastSeqNo ?q) rs")
    case True
    then have "sequencing_iteration L (Some cl) t s k = Some (True, ?t, s, k)" using m(1) by (simp add: sequencing_split)
    then show ?thesis using m(2,3) mp ranges_done_seqs [OF ok True]
      by (intro exI [of _ True] exI [of _ ?t] exI [of _ s] exI [of _ k] exI [of _ ps1] exI [of _ "ranges_merge rs"]) simp
  next
    case False
    obtain s' qs' where p: "sequencing_queue_pop L s = Some (case xs of [] \<Rightarrow> None | x # _ \<Rightarrow> Some x, s')"
        "qrep QF L s' qs' (tl xs)" "avail s' = avail s"
      using queue_pop [OF qr] by blast
    show ?thesis
    proof (cases xs)
      case Nil
      then have "sequencing_iteration L (Some cl) t s k = Some (False, ?t, s', k)"
        using m(1) p(1) False by (simp add: sequencing_split)
      then show ?thesis using m(2,3) mp p(2,3) Nil
        by (intro exI [of _ False] exI [of _ ?t] exI [of _ s'] exI [of _ k] exI [of _ ps1] exI [of _ "ranges_merge rs"]
            exI [of _ qs']) auto
    next
      case (Cons x xs')
      obtain t' k' ps' rs' where r: "serve_item (Some cl) x ?t k = Some (t', k')" "srep F (seq_memory t') (seq (the_sequencer t')) ps' rs'"
          "ranges_ok rs'" "avail m - 2 \<le> avail (seq_memory t')" "served cl x (ranges_merge rs) ?q k rs' (the_sequencer t') k'"
        using serve_item_ok [of F ?t ps1 "ranges_merge rs" k cl x] m(2,3) mp a cs last Cons by auto
      have "sequencing_iteration L (Some cl) t s k = Some (False, t', s', k')"
        using m(1) p(1) False Cons r(1) by (simp add: sequencing_split)
      then show ?thesis using r(2-4) m(3) p(2,3) Cons served_merge [OF ok r(5)]
        by (intro exI [of _ False] exI [of _ t'] exI [of _ s'] exI [of _ k'] exI [of _ ps'] exI [of _ rs'] exI [of _ qs']) simp
    qed
  qed
qed

subsection \<open>The two threads together\<close>

text \<open>
  A state of the running server, and its steps: a datagram of the network's choice arrives, the
  receiving thread does one iteration, the sequencing thread does one, or it leaves its loop and
  cancels the receiving thread. Both threads are at the head of their loops in every state, which
  loses no behaviour: they share only the queue, whose operations the mutex makes atomic, and each
  iteration uses it once. The runs are those in which allocations succeed.
\<close>

record server_state =
  rcvr :: receiver
  rcv_running :: bool
  seq_queue :: queue_mem
  seqr :: sequencing
  seq_running :: bool
  udp :: udp_net
  tcp :: kernel

inductive server_step ::
    "addr \<Rightarrow> tcp_client \<Rightarrow> (sockaddr_in \<times> u8 list) set \<Rightarrow> server_state \<Rightarrow> server_state \<Rightarrow> bool"
  for L cl D where
  arrive: "p \<in> D \<Longrightarrow> server_step L cl D S (S\<lparr>udp := (udp S)\<lparr>inbox := inbox (udp S) @ [p]\<rparr>\<rparr>)"
| receive: "rcv_running S \<Longrightarrow> 1 < avail (seq_queue S) \<Longrightarrow>
    receiving_iteration L (rcvr S) (seq_queue S) (udp S) = Some (go, r, s, u) \<Longrightarrow>
    server_step L cl D S (S\<lparr>rcvr := r, rcv_running := go, seq_queue := s, udp := u\<rparr>)"
| sequence: "seq_running S \<Longrightarrow> 1 < avail (seq_memory (seqr S)) \<Longrightarrow>
    sequencing_iteration L (Some cl) (seqr S) (seq_queue S) (tcp S) = Some (False, t, s, k) \<Longrightarrow>
    server_step L cl D S (S\<lparr>seq_queue := s, seqr := t, tcp := k\<rparr>)"
| finish: "seq_running S \<Longrightarrow> 1 < avail (seq_memory (seqr S)) \<Longrightarrow>
    sequencing_iteration L (Some cl) (seqr S) (seq_queue S) (tcp S) = Some (True, t, s, k) \<Longrightarrow>
    sequencing_exit (Some cl) t k = Some (m, k') \<Longrightarrow>
    server_step L cl D S (S\<lparr>rcv_running := False, seq_running := False, seq_queue := s,
      seqr := t\<lparr>seq_memory := m\<rparr>, tcp := k'\<rparr>)"

text \<open>
  The datagrams of a client that sends the part \<open>b\<close>, and late copies of the metadata packet; the network may
  lose, repeat and reorder them.
\<close>

definition part_datagrams :: "u8 list \<Rightarrow> (sockaddr_in \<times> u8 list) set" where
  "part_datagrams b = {(a, data_wire (data_packet (file_packet b i))) | a i. i < packet_count b}
     \<union> {(a, meta_wire m) | a m. length (desination_name m) = NAME_SIZE}"

definition server_start :: "u8 list \<Rightarrow> addr \<Rightarrow> tcp_client \<Rightarrow> server_state \<Rightarrow> bool" where
  "server_start b L cl S \<longleftrightarrow> length b < 2 ^ 32 \<and> rcv_running S \<and> seq_running S \<and> inbox (udp S) = []
     \<and> length (recv_buffer (rcvr S)) = UDP_PACKET_SIZE \<and> wf_packet (rcv_pkt (rcvr S))
     \<and> ready (recv_handle (rcvr S)) (length b) (replicate (length b) 0)
     \<and> (\<exists>QF. qrep QF L (seq_queue S) [] [])
     \<and> (\<exists>F. srep F (seq_memory (seqr S)) (seq (the_sequencer (seqr S))) [] [])
     \<and> expectedLastSeqNo (the_sequencer (seqr S)) = - 1 \<and> maxSeqNo (the_sequencer (seqr S)) = 0
     \<and> can_send (tcp S) (client_sd cl) \<and> outgoing (tcp S) (client_sd cl) = []"

text \<open>
  \<open>main\<close> up to the two running threads; \<open>L\<close> is the anchor of the queue in \<open>thread_ctx\<close>, \<open>s\<close> and \<open>m\<close> are the memory
  of the queue and that of the sequencer. \<open>pthread_create\<close> is taken to succeed.
\<close>

definition server_main ::
    "(u8 list \<Rightarrow> c_file option) \<Rightarrow> bool \<Rightarrow> u16 \<Rightarrow> u8 list \<Rightarrow> ucp_packet \<Rightarrow> file_io_partition_handle
      \<Rightarrow> addr \<Rightarrow> queue_mem \<Rightarrow> seq_mem \<Rightarrow> udp_net \<Rightarrow> kernel \<Rightarrow> ((tcp_client \<times> server_state) option) option" where
  "server_main fopen_wb malloc_ok garbage buffer packet handle L s m u k = do {
     (_, s) \<leftarrow> LinkedListInit s L;
     (r, u, k) \<leftarrow> server_setup fopen_wb malloc_ok garbage buffer packet handle u k;
     case r of
       None \<Rightarrow> Some None
     | Some (cl, h) \<Rightarrow> do {
         t \<leftarrow> sequencing_thread_start m;
         Some (Some (cl, \<lparr>rcvr = receiving_thread_start h, rcv_running = True, seq_queue = s, seqr = t, seq_running = True,
           udp = u, tcp = k\<rparr>))
       }
   }"

text \<open>The end of \<open>main\<close>: \<open>pthread_join\<close> does not return while the thread runs, which is \<open>None\<close>.\<close>

definition server_exit :: "tcp_client \<Rightarrow> server_state \<Rightarrow> kernel option" where
  "server_exit cl S = (if seq_running S \<or> rcv_running S then None else Some (tcp_client_disconnect (Some cl) (tcp S)))"

text \<open>What the host gives the server: a socket, a file that can be written, memory, and a peer that accepts.\<close>

definition server_host_ok :: "c_file \<Rightarrow> nat \<Rightarrow> u8 list \<Rightarrow> ucp_packet \<Rightarrow> addr \<Rightarrow> queue_mem \<Rightarrow> seq_mem \<Rightarrow> udp_net \<Rightarrow> kernel \<Rightarrow> bool" where
  "server_host_ok f n buffer packet L s m u k \<longleftrightarrow> 0 \<le> udp_next_sd u \<and> udp_bind_ok u
     \<and> length buffer = UDP_PACKET_SIZE \<and> wf_packet packet
     \<and> bytes f = [] \<and> pos f = 0 \<and> seekable f \<and> flushable f \<and> n \<le> capacity f
     \<and> 0 \<le> next_sd k \<and> connect_ok k \<and> can_send k (next_sd k) \<and> outgoing k (next_sd k) = []
     \<and> L \<noteq> NULL \<and> elems s L \<noteq> None \<and> wf_mem s \<and> dom (qitems s) \<subseteq> {0<..<brk s}
     \<and> wf_mem m \<and> dom (items m) \<subseteq> {0<..<brk m} \<and> 0 < avail m"

lemma wf_zero_packet: "wf_packet zero_packet"
  by (simp add: zero_packet_def wf_packet_def ucp_packet_init_def)

lemma sequencing_thread_starts:
  assumes "wf_mem m" "dom (items m) \<subseteq> {0<..<brk m}" "0 < avail m"
  shows "\<exists>t F. sequencing_thread_start m = Some t \<and> srep F (seq_memory t) (seq (the_sequencer t)) [] []
    \<and> expectedLastSeqNo (the_sequencer t) = - 1 \<and> maxSeqNo (the_sequencer t) = 0"
proof -
  obtain m' where "sequencer_init m = Some (Some \<lparr>seq = brk m, maxSeqNo = 0, expectedLastSeqNo = - 1\<rparr>, m')"
      "srep (elems m, items m) m' (brk m) [] []"
    using sequencer_init_srep [OF assms] by blast
  then show ?thesis
    by (intro exI [of _ "\<lparr>seq_memory = m', the_sequencer = \<lparr>seq = brk m, maxSeqNo = 0, expectedLastSeqNo = - 1\<rparr>\<rparr>"]
        exI [of _ "(elems m, items m)"]) (simp add: sequencing_thread_start_def)
qed

lemma queue_initialised:
  assumes "L \<noteq> NULL" "elems s L \<noteq> None" "wf_mem s" "dom (qitems s) \<subseteq> {0<..<brk s}"
  shows "\<exists>s' QF. LinkedListInit s L = Some (True, s') \<and> qrep QF L s' [] []"
proof -
  obtain a where "elems s L = Some a" using assms(2) by auto
  from Init_dll [OF this assms(1)] obtain E where E: "LinkedListInit s L = Some (True, s\<lparr>elems := E\<rparr>)" "dll E L []"
      "dom E = dom (elems s)" by blast
  have "qrep (E(L := None), qitems s) L (s\<lparr>elems := E\<rparr>) [] []"
    using E(2,3) assms by (auto simp: qrep_def wf_mem_def outside_def restrict_map_def fun_eq_iff)
  with E(1) show ?thesis by blast
qed

lemma server_main_starts:
  assumes h: "server_host_ok f n buffer packet L s m u k" and f: "fopen_wb name = Some f"
    and n: "n = length b" "unat (part_size md) = n" "length b < 2 ^ 32"
    and md: "length (desination_name md) = NAME_SIZE" "c_string (desination_name md) = Some name"
  shows "\<exists>cl S. server_main fopen_wb True garbage buffer packet handle L s m (u\<lparr>inbox := [(src, meta_wire md)]\<rparr>) k
      = Some (Some (cl, S)) \<and> server_start b L cl S \<and> ep_addr (client_server cl) = src"
proof -
  note h' = h [unfolded server_host_ok_def]
  obtain s' QF where q: "LinkedListInit s L = Some (True, s')" "qrep QF L s' [] []" using queue_initialised h' by blast
  obtain t F where t: "sequencing_thread_start m = Some t" "srep F (seq_memory t) (seq (the_sequencer t)) [] []"
      "expectedLastSeqNo (the_sequencer t) = - 1" "maxSeqNo (the_sequencer t) = 0" using sequencing_thread_starts h' by blast
  obtain cl hd k' where st: "server_setup fopen_wb True garbage buffer packet handle (u\<lparr>inbox := [(src, meta_wire md)]\<rparr>) k
        = Some (Some (cl, hd), u\<lparr>inbox := []\<rparr>, k')"
      "ready hd n (replicate n 0)" "ep_addr (client_server cl) = src" "outgoing k' = outgoing k" "accepts k' = accepts k"
      "client_sd cl = next_sd k" "net_alloc k' = net_alloc k"
    using server_setup_metadata [of "u\<lparr>inbox := [(src, meta_wire md)]\<rparr>" src md "[]" buffer packet name fopen_wb f k garbage handle]
      h' f n(2) md by auto
  have "can_send k' (next_sd k)" using h' st(5,7) by (simp add: can_send_def)
  moreover have "\<exists>QF. qrep QF L s' [] []" "\<exists>F. srep F (seq_memory t) (seq (the_sequencer t)) [] []" using q(2) t(2) by blast+
  ultimately have "server_start b L cl \<lparr>rcvr = receiving_thread_start hd, rcv_running = True, seq_queue = s', seqr = t, seq_running = True,
           udp = u\<lparr>inbox := []\<rparr>, tcp = k'\<rparr>"
    using h' t(3,4) st n wf_zero_packet by (simp add: server_start_def receiving_thread_start_def)
  then show ?thesis using q(1) t(1) st(1,3) by (simp add: server_main_def)
qed

text \<open>
  The invariant, for the set \<open>I\<close> of packets saved, the control packets \<open>ms\<close> sent so far and the numbers \<open>n\<close> in the queue: the
  file holds the packets of \<open>I\<close>; the queue, the sequencer and every ACK are about packets of
  \<open>I\<close>; and every packet of \<open>I\<close> is in the queue or acknowledged.
\<close>

definition file_inv :: "u8 list \<Rightarrow> nat set \<Rightarrow> receiver \<Rightarrow> bool" where
  "file_inv b I r \<longleftrightarrow> length (recv_buffer r) = UDP_PACKET_SIZE \<and> wf_packet (rcv_pkt r)
     \<and> (\<exists>c. ready (recv_handle r) (length b) c \<and> written b I c)"

definition queue_inv :: "addr \<Rightarrow> nat set \<Rightarrow> ucp_ctrl_packet list \<Rightarrow> u32 list \<Rightarrow> queue_mem \<Rightarrow> bool" where
  "queue_inv L I ms n s \<longleftrightarrow> (\<exists>QF qs xs. qrep QF L s qs xs \<and> map item_seq_no xs = n
     \<and> (\<forall>x \<in> set xs. item_flag x = UCP_FLAG_ACK \<and> item_seq_no x \<in> of_nat ` I)
     \<and> of_nat ` I \<subseteq> item_seq_no ` set xs \<union> {n. ctrl UCP_FLAG_ACK n \<in> set ms})"

definition seq_inv :: "nat set \<Rightarrow> sequencing \<Rightarrow> bool" where
  "seq_inv I t \<longleftrightarrow> expectedLastSeqNo (the_sequencer t) = - 1 \<and> maxSeqNo (the_sequencer t) \<in> insert 0 (of_nat ` I)
     \<and> (\<exists>F ps rs. srep F (seq_memory t) (seq (the_sequencer t)) ps rs \<and> ranges_ok rs \<and> seqs rs \<subseteq> of_nat ` I)"

definition sent_inv :: "tcp_client \<Rightarrow> nat set \<Rightarrow> ucp_ctrl_packet list \<Rightarrow> kernel \<Rightarrow> bool" where
  "sent_inv cl I ms k \<longleftrightarrow> can_send k (client_sd cl) \<and> outgoing k (client_sd cl) = concat (map ctrl_wire ms)
     \<and> (\<forall>m \<in> set ms. ctrl_flag m = UCP_FLAG_NACK \<and> (\<exists>i \<in> I. ctrl_seq_no m < of_nat i)
           \<or> ctrl_flag m = UCP_FLAG_ACK \<and> ctrl_seq_no m \<in> of_nat ` I)"

definition server_inv ::
    "u8 list \<Rightarrow> addr \<Rightarrow> tcp_client \<Rightarrow> nat set \<Rightarrow> ucp_ctrl_packet list \<Rightarrow> u32 list \<Rightarrow> server_state \<Rightarrow> bool" where
  "server_inv b L cl I ms n S \<longleftrightarrow> length b < 2 ^ 32 \<and> I \<subseteq> {0..<packet_count b} \<and> rcv_running S \<and> seq_running S
     \<and> set (inbox (udp S)) \<subseteq> part_datagrams b \<and> file_inv b I (rcvr S) \<and> queue_inv L I ms n (seq_queue S)
     \<and> seq_inv I (seqr S) \<and> sent_inv cl I ms (tcp S)"

lemma server_start_inv: "server_start b L cl S \<Longrightarrow> server_inv b L cl {} [] [] S"
  using written_zero [of b]
  by (fastforce simp: server_start_def server_inv_def file_inv_def queue_inv_def seq_inv_def sent_inv_def)

lemma seq_inv_mono: "seq_inv I t \<Longrightarrow> I \<subseteq> J \<Longrightarrow> seq_inv J t"
  unfolding seq_inv_def by (meson image_mono insert_mono order_trans subsetD)

lemma sent_inv_mono: "sent_inv cl I ms k \<Longrightarrow> I \<subseteq> J \<Longrightarrow> sent_inv cl J ms k"
  unfolding sent_inv_def by (meson image_mono subsetD)

lemma packet_number_not_max: "i < packet_count b \<Longrightarrow> length b < 2 ^ 32 \<Longrightarrow> of_nat i \<noteq> (- 1 :: u32)"
  using packet_number_small [of i b]
  by (auto simp: packet_count_iff UDP_PACKET_DATA_SIZE_val unsigned_minus_1_eq_mask mask_eq_exp_minus_1)

lemma server_receive_packet:
  assumes inv: "server_inv b L cl I ms n S" and a: "1 < avail (seq_queue S)" and i: "i < packet_count b"
    and ib: "inbox (udp S) = (src, data_wire (data_packet (file_packet b i))) # rest"
  shows "\<exists>r s. receiving_iteration L (rcvr S) (seq_queue S) (udp S) = Some (True, r, s, (udp S)\<lparr>inbox := rest\<rparr>)
    \<and> server_inv b L cl (insert i I) ms (n @ [of_nat i])
        (S\<lparr>rcvr := r, rcv_running := True, seq_queue := s, udp := (udp S)\<lparr>inbox := rest\<rparr>\<rparr>)
    \<and> avail s = avail (seq_queue S) - 2"
proof -
  note v = inv [unfolded server_inv_def]
  have len: "length b < 2 ^ 32" using v by blast
  obtain c where c: "length (recv_buffer (rcvr S)) = UDP_PACKET_SIZE" "wf_packet (rcv_pkt (rcvr S))"
      "ready (recv_handle (rcvr S)) (length b) c" "written b I c"
    using v unfolding file_inv_def by blast
  obtain QF qs items where q: "qrep QF L (seq_queue S) qs items" "map item_seq_no items = n"
      "\<forall>x \<in> set items. item_flag x = UCP_FLAG_ACK \<and> item_seq_no x \<in> of_nat ` I"
      "of_nat ` I \<subseteq> item_seq_no ` set items \<union> {n. ctrl UCP_FLAG_ACK n \<in> set ms}"
    using v unfolding queue_inv_def by blast
  let ?items = "items @ [\<lparr>item_seq_no = of_nat i, item_flag = UCP_FLAG_ACK,
        item_is_last = (file_packet_flag b i = UCP_FLAG_DATA_END)\<rparr>]"
  obtain r s ps' c' where it: "receiving_iteration L (rcvr S) (seq_queue S) (udp S)
        = Some (True, r, s, (udp S)\<lparr>inbox := rest\<rparr>)"
      "length (recv_buffer r) = UDP_PACKET_SIZE" "wf_packet (rcv_pkt r)"
      "ready (recv_handle r) (length b) c'" "written b (insert i I) c'"
      "qrep QF L s ps' ?items" "avail s = avail (seq_queue S) - 2"
    using receiving_file_packet [OF ib i len c q(1) a] by blast
  have "\<forall>x \<in> set ?items. item_flag x = UCP_FLAG_ACK \<and> item_seq_no x \<in> of_nat ` insert i I"
    using q(3) by auto
  moreover have "of_nat ` insert i I \<subseteq> item_seq_no ` set ?items \<union> {n. ctrl UCP_FLAG_ACK n \<in> set ms}"
    using q(4) by auto
  moreover have "map item_seq_no ?items = n @ [of_nat i]" using q(2) by simp
  ultimately have "queue_inv L (insert i I) ms (n @ [of_nat i]) s"
    unfolding queue_inv_def using it(6) by (intro exI [of _ QF] exI [of _ ps'] exI [of _ ?items] conjI)
  moreover have "file_inv b (insert i I) r"
    unfolding file_inv_def using it(2-5) by (intro conjI exI [of _ c'])
  moreover have "seq_inv (insert i I) (seqr S)"
    by (rule seq_inv_mono [OF _ subset_insertI]) (simp add: v)
  moreover have "sent_inv cl (insert i I) ms (tcp S)"
    by (rule sent_inv_mono [OF _ subset_insertI]) (simp add: v)
  moreover have "set rest \<subseteq> part_datagrams b" using v ib by simp
  moreover have "insert i I \<subseteq> {0..<packet_count b}" using v i by simp
  ultimately have "server_inv b L cl (insert i I) ms (n @ [of_nat i])
      (S\<lparr>rcvr := r, rcv_running := True, seq_queue := s, udp := (udp S)\<lparr>inbox := rest\<rparr>\<rparr>)"
    using v unfolding server_inv_def by simp
  then show ?thesis using it(1,7) by blast
qed

lemma server_receive_any:
  assumes inv: "server_inv b L cl I ms n S" and a: "1 < avail (seq_queue S)" and ne: "inbox (udp S) = x # rest"
  shows "\<exists>r s I' n'. receiving_iteration L (rcvr S) (seq_queue S) (udp S) = Some (True, r, s, (udp S)\<lparr>inbox := rest\<rparr>)
    \<and> I \<subseteq> I' \<and> length n' \<le> 1 \<and> avail (seq_queue S) - 2 \<le> avail s
    \<and> server_inv b L cl I' ms (n @ n') (S\<lparr>rcvr := r, rcv_running := True, seq_queue := s, udp := (udp S)\<lparr>inbox := rest\<rparr>\<rparr>)"
proof -
  obtain src xs where ib: "inbox (udp S) = (src, xs) # rest" using ne by (cases x) simp
  have "(src, xs) \<in> part_datagrams b" using inv ib by (auto simp: server_inv_def)
  then consider i where "i < packet_count b" "xs = data_wire (data_packet (file_packet b i))"
    | m where "xs = meta_wire m" "length (desination_name m) = NAME_SIZE"
    unfolding part_datagrams_def by blast
  then show ?thesis
  proof cases
    case 1
    obtain r s where "receiving_iteration L (rcvr S) (seq_queue S) (udp S) = Some (True, r, s, (udp S)\<lparr>inbox := rest\<rparr>)"
        "server_inv b L cl (insert i I) ms (n @ [of_nat i])
          (S\<lparr>rcvr := r, rcv_running := True, seq_queue := s, udp := (udp S)\<lparr>inbox := rest\<rparr>\<rparr>)"
        "avail s = avail (seq_queue S) - 2"
      using server_receive_packet [OF inv a 1(1) ib [unfolded 1(2)]] by blast
    then show ?thesis
      by (intro exI [of _ r] exI [of _ s] exI [of _ "insert i I"] exI [of _ "[of_nat i]"]) auto
  next
    case 2
    note v = inv [unfolded server_inv_def]
    have f: "length (recv_buffer (rcvr S)) = UDP_PACKET_SIZE" "wf_packet (rcv_pkt (rcvr S))"
      using v by (simp_all add: file_inv_def)
    obtain r where r: "receiving_iteration L (rcvr S) (seq_queue S) (udp S) = Some (True, r, seq_queue S, (udp S)\<lparr>inbox := rest\<rparr>)"
        "length (recv_buffer r) = UDP_PACKET_SIZE" "wf_packet (rcv_pkt r)" "recv_handle r = recv_handle (rcvr S)"
      using receiving_metadata [OF ib [unfolded 2(1)] 2(2) f] by blast
    have "file_inv b I r" using v r(2-4) by (simp add: file_inv_def)
    moreover have "set rest \<subseteq> part_datagrams b" using v ib by simp
    ultimately have "server_inv b L cl I ms n
        (S\<lparr>rcvr := r, rcv_running := True, seq_queue := seq_queue S, udp := (udp S)\<lparr>inbox := rest\<rparr>\<rparr>)"
      using v unfolding server_inv_def by simp
    then show ?thesis using r(1)
      by (intro exI [of _ r] exI [of _ "seq_queue S"] exI [of _ I] exI [of _ "[]"]) simp
  qed
qed

lemma server_inv_receive:
  assumes inv: "server_inv b L cl I ms n S" and a: "1 < avail (seq_queue S)"
    and step: "receiving_iteration L (rcvr S) (seq_queue S) (udp S) = Some (go, r, s, u)"
  shows "\<exists>I' n'. I \<subseteq> I' \<and> server_inv b L cl I' ms n' (S\<lparr>rcvr := r, rcv_running := go, seq_queue := s, udp := u\<rparr>)"
proof -
  obtain x rest where "inbox (udp S) = x # rest"
    using step by (cases "inbox (udp S)") (auto simp: receiving_iteration_def udp_socket_receive_from_def)
  from server_receive_any [OF inv a this] step show ?thesis by auto
qed

text \<open>The invariant after an item has been served.\<close>

lemma server_inv_served:
  assumes v: "server_inv b L cl I ms n S" and n: "map item_seq_no (x # xs) = n"
    and q: "\<forall>y \<in> set (x # xs). item_flag y = UCP_FLAG_ACK \<and> item_seq_no y \<in> of_nat ` I"
      "of_nat ` I \<subseteq> item_seq_no ` set (x # xs) \<union> {n. ctrl UCP_FLAG_ACK n \<in> set ms}" "qrep QF L s qs xs"
    and sr: "srep F (seq_memory t) (seq (the_sequencer t)) ps rs'" "ranges_ok rs'" "seqs rs \<subseteq> of_nat ` I"
      "expectedLastSeqNo (the_sequencer (seqr S)) = - 1"
    and sv: "served cl x rs (the_sequencer (seqr S)) (tcp S) rs' (the_sequencer t) k"
  shows "\<exists>ms'. server_inv b L cl I (ms @ ms') (tl n) (S\<lparr>seq_queue := s, seqr := t, tcp := k\<rparr>) \<and> ctrl UCP_FLAG_ACK (hd n) \<in> set ms'
    \<and> hd ms' = ctrl UCP_FLAG_ACK (hd n)"
proof -
  obtain ns where k: "k = queue_out (client_sd cl) (ctrl_wire (ctrl (item_flag x) (item_seq_no x))
      @ concat (map (\<lambda>n. ctrl_wire (ctrl UCP_FLAG_NACK n)) ns)) (tcp S)"
    and ns: "sorted_wrt (<) ns" "set ns = {n. n < maxSeqNo (the_sequencer t) \<and> n \<notin> seqs rs'}"
    using sv unfolding served_def by blast
  let ?ms = "ctrl (item_flag x) (item_seq_no x) # map (ctrl UCP_FLAG_NACK) ns"
  have x: "item_flag x = UCP_FLAG_ACK" "item_seq_no x \<in> of_nat ` I" using q(1) by simp_all
  then have mk: "the_sequencer t = sequencer_mark (the_sequencer (seqr S)) (item_seq_no x) False"
    using sv by (simp add: served_def packet_enums)
  have "maxSeqNo (the_sequencer (seqr S)) \<in> insert 0 (of_nat ` I)" using v by (simp add: server_inv_def seq_inv_def)
  then have mx: "maxSeqNo (the_sequencer t) \<in> insert 0 (of_nat ` I)" using x(2) by (simp add: mk sequencer_mark_def)
  have "seqs rs' \<subseteq> of_nat ` I" using sv sr(3) x(2) unfolding served_def by (auto split: if_splits)
  then have "seq_inv I t" unfolding seq_inv_def using sr(1,2,4) mx mk
    by (intro conjI exI [of _ F] exI [of _ ps] exI [of _ rs']) (simp_all add: sequencer_mark_def)
  moreover have "of_nat ` I \<subseteq> item_seq_no ` set xs \<union> {n. ctrl UCP_FLAG_ACK n \<in> set (ms @ ?ms)}"
    using q(2) x(1) by auto
  then have "queue_inv L I (ms @ ?ms) (tl n) s"
    unfolding queue_inv_def using q(1,3) n by (intro exI [of _ QF] exI [of _ qs] exI [of _ xs]) auto
  moreover have "\<exists>i \<in> I. m < of_nat i" if "m \<in> set ns" for m
  proof -
    have "m < maxSeqNo (the_sequencer t)" using ns(2) that by simp
    then show ?thesis using mx by auto
  qed
  then have "sent_inv cl I (ms @ ?ms) k"
    using v x unfolding server_inv_def sent_inv_def by (auto simp: k comp_def)
  ultimately have "server_inv b L cl I (ms @ ?ms) (tl n) (S\<lparr>seq_queue := s, seqr := t, tcp := k\<rparr>)"
    using v unfolding server_inv_def by simp
  then show ?thesis using n x(1) by (intro exI [of _ ?ms]) auto
qed

lemma server_sequence_item:
  assumes inv: "server_inv b L cl I ms n S" and a: "1 < avail (seq_memory (seqr S))"
  shows "\<exists>t s k ms'. sequencing_iteration L (Some cl) (seqr S) (seq_queue S) (tcp S) = Some (False, t, s, k)
    \<and> server_inv b L cl I (ms @ ms') (tl n) (S\<lparr>seq_queue := s, seqr := t, tcp := k\<rparr>)
    \<and> avail s = avail (seq_queue S) \<and> avail (seq_memory (seqr S)) - 2 \<le> avail (seq_memory t)
    \<and> (n = [] \<or> ctrl UCP_FLAG_ACK (hd n) \<in> set ms' \<and> hd ms' = ctrl UCP_FLAG_ACK (hd n))"
proof -
  note v = inv [unfolded server_inv_def]
  obtain QF qs xs where q: "qrep QF L (seq_queue S) qs xs" "map item_seq_no xs = n"
      "\<forall>x \<in> set xs. item_flag x = UCP_FLAG_ACK \<and> item_seq_no x \<in> of_nat ` I"
      "of_nat ` I \<subseteq> item_seq_no ` set xs \<union> {n. ctrl UCP_FLAG_ACK n \<in> set ms}"
    using v unfolding queue_inv_def by blast
  obtain F ps rs where sr: "srep F (seq_memory (seqr S)) (seq (the_sequencer (seqr S))) ps rs" "ranges_ok rs"
      "seqs rs \<subseteq> of_nat ` I" "expectedLastSeqNo (the_sequencer (seqr S)) = - 1"
      "maxSeqNo (the_sequencer (seqr S)) \<in> insert 0 (of_nat ` I)"
    using v unfolding seq_inv_def by blast
  have "n \<in> of_nat ` I \<Longrightarrow> n \<noteq> (- 1 :: u32)" for n
    using v packet_number_not_max [of _ b] by fastforce
  then have small: "\<forall>x \<in> set xs. item_seq_no x \<noteq> - 1" using q(3) by blast
  have cs: "can_send (tcp S) (client_sd cl)" using v unfolding sent_inv_def by blast
  obtain fin t s k ps' rs' qs' where run: "sequencing_iteration L (Some cl) (seqr S) (seq_queue S) (tcp S)
        = Some (fin, t, s, k)"
      "avail s = avail (seq_queue S)" "avail (seq_memory (seqr S)) - 2 \<le> avail (seq_memory t)"
    and it: "srep F (seq_memory t) (seq (the_sequencer t)) ps' rs'" "ranges_ok rs'"
      "fin \<longrightarrow> seqs rs = {0..expectedLastSeqNo (the_sequencer (seqr S))}"
      "\<not> fin \<longrightarrow> qrep QF L s qs' (tl xs) \<and> (case xs of
        [] \<Rightarrow> seqs rs' = seqs rs \<and> the_sequencer t = the_sequencer (seqr S) \<and> k = tcp S
      | x # _ \<Rightarrow> served cl x rs (the_sequencer (seqr S)) (tcp S) rs' (the_sequencer t) k)"
    using sequencing_iteration_cases [OF sr(1,2) a q(1) cs small] by blast
  have "- 1 \<in> {0..- 1 :: u32}" by simp
  then have nd: "fin = False" using it(3) ranges_ok_no_max [OF sr(2)] sr(4) by auto
  have "\<exists>ms'. server_inv b L cl I (ms @ ms') (tl n) (S\<lparr>seq_queue := s, seqr := t, tcp := k\<rparr>)
      \<and> (n = [] \<or> ctrl UCP_FLAG_ACK (hd n) \<in> set ms' \<and> hd ms' = ctrl UCP_FLAG_ACK (hd n))"
  proof (cases xs)
    case Nil
    then have k: "qrep QF L s qs' []" "seqs rs' = seqs rs" "the_sequencer t = the_sequencer (seqr S)" "k = tcp S" "n = []"
      using it(4) nd q(2) by simp_all
    have "queue_inv L I ms [] s"
      unfolding queue_inv_def using k(1) q(4) Nil by (intro exI [of _ QF] exI [of _ qs'] exI [of _ "[]"]) auto
    moreover have "seq_inv I t" unfolding seq_inv_def using it(1,2) k(2,3) sr(3-5)
      by (intro conjI exI [of _ F] exI [of _ ps'] exI [of _ rs']) simp_all
    ultimately have "server_inv b L cl I (ms @ []) (tl n) (S\<lparr>seq_queue := s, seqr := t, tcp := k\<rparr>)"
      using v k(4,5) unfolding server_inv_def by simp
    then show ?thesis using k(5) by blast
  next
    case (Cons x xs')
    then have "qrep QF L s qs' xs'" "served cl x rs (the_sequencer (seqr S)) (tcp S) rs' (the_sequencer t) k"
      using it(4) nd by simp_all
    then show ?thesis using server_inv_served [OF inv q(2-4) [unfolded Cons] _ it(1,2) sr(3,4)] by blast
  qed
  then show ?thesis using run unfolding nd by blast
qed

lemma server_inv_sequence:
  assumes inv: "server_inv b L cl I ms n S" and a: "1 < avail (seq_memory (seqr S))"
    and step: "sequencing_iteration L (Some cl) (seqr S) (seq_queue S) (tcp S) = Some (fin, t, s, k)"
  shows "\<not> fin \<and> (\<exists>ms'. server_inv b L cl I (ms @ ms') (tl n) (S\<lparr>seq_queue := s, seqr := t, tcp := k\<rparr>))"
  using server_sequence_item [OF inv a] step by auto

lemma server_step_inv:
  assumes "server_step L cl D S S'" "server_inv b L cl I ms n S" "D \<subseteq> part_datagrams b"
  shows "\<exists>I' ms' n'. I \<subseteq> I' \<and> server_inv b L cl I' (ms @ ms') n' S'"
  using assms(1)
proof (cases rule: server_step.cases)
  case (arrive p)
  then have "server_inv b L cl I (ms @ []) n S'" using assms(2,3) by (auto simp: server_inv_def)
  then show ?thesis by blast
next
  case (receive go r s u)
  obtain I' n' where "I \<subseteq> I'" "server_inv b L cl I' ms n' S'"
    using server_inv_receive [OF assms(2) receive(3,4)] receive(1) by blast
  then show ?thesis by (intro exI [of _ I'] exI [of _ "[]"] exI [of _ n']) simp
next
  case (sequence t s k)
  then show ?thesis using server_inv_sequence [OF assms(2) sequence(3,4)] by blast
next
  case (finish t s k m k')
  then show ?thesis using server_inv_sequence [OF assms(2) finish(3,4)] by blast
qed

lemma server_reachable_inv:
  assumes "(server_step L cl (part_datagrams b))\<^sup>*\<^sup>* S0 S" "server_start b L cl S0"
  shows "\<exists>I ms n. server_inv b L cl I ms n S"
  using assms(1)
proof (induction rule: rtranclp_induct)
  case base
  then show ?case using server_start_inv [OF assms(2)] by blast
next
  case (step S S')
  then show ?case using server_step_inv [OF step(2) _ order_refl] by blast
qed

subsection \<open>What the bytes on the wire say\<close>

text \<open>The control packets that a stream of bytes spells, six bytes each.\<close>

fun ctrl_frames :: "u8 list \<Rightarrow> u8 list list" where
  "ctrl_frames xs = (if length xs < 6 then [] else take 6 xs # ctrl_frames (drop 6 xs))"

declare ctrl_frames.simps [simp del]

definition acked :: "u8 list \<Rightarrow> nat \<Rightarrow> bool" where
  "acked out i \<longleftrightarrow> ctrl_wire (ctrl UCP_FLAG_ACK (of_nat i)) \<in> set (ctrl_frames out)"

lemma ctrl_frames_wire: "ctrl_frames (concat (map ctrl_wire ms)) = map ctrl_wire ms"
proof (induction ms)
  case Nil
  show ?case by (subst ctrl_frames.simps) simp
next
  case (Cons m ms)
  then show ?case by (subst ctrl_frames.simps) simp
qed

lemma flag_bytes: "byte_of 0 UCP_FLAG_ACK \<noteq> byte_of 0 UCP_FLAG_NACK"
  by (simp add: packet_enums byte_of_def)

lemma acked_wire:
  assumes "\<forall>m \<in> set ms. ctrl_flag m = UCP_FLAG_NACK \<or> ctrl_flag m = UCP_FLAG_ACK"
  shows "acked (concat (map ctrl_wire ms)) i \<longleftrightarrow> ctrl UCP_FLAG_ACK (of_nat i) \<in> set ms"
proof
  assume "acked (concat (map ctrl_wire ms)) i"
  then obtain m where m: "m \<in> set ms" "ctrl_wire (ctrl UCP_FLAG_ACK (of_nat i)) = ctrl_wire m"
    by (auto simp: acked_def ctrl_frames_wire)
  from ctrl_wire_inj [OF m(2)] assms m(1) flag_bytes have "m = ctrl UCP_FLAG_ACK (of_nat i)"
    by (cases m) auto
  with m(1) show "ctrl UCP_FLAG_ACK (of_nat i) \<in> set ms" by simp
qed (auto simp: acked_def ctrl_frames_wire)

lemma sent_inv_acked:
  assumes "sent_inv cl I ms k" "I \<subseteq> {0..<packet_count b}" "length b < 2 ^ 32" "i < packet_count b"
  shows "acked (outgoing k (client_sd cl)) i \<longleftrightarrow> ctrl UCP_FLAG_ACK (of_nat i) \<in> set ms"
    and "acked (outgoing k (client_sd cl)) i \<longrightarrow> i \<in> I"
proof -
  note s = assms(1) [unfolded sent_inv_def]
  show eq: "acked (outgoing k (client_sd cl)) i \<longleftrightarrow> ctrl UCP_FLAG_ACK (of_nat i) \<in> set ms"
    using s acked_wire [of ms i] by metis
  have "UCP_FLAG_ACK \<noteq> UCP_FLAG_NACK" by (simp add: packet_enums)
  then have "acked (outgoing k (client_sd cl)) i \<longrightarrow> of_nat i \<in> (of_nat :: nat \<Rightarrow> u32) ` I"
    using s eq by fastforce
  moreover have "i \<in> I" if w: "of_nat i \<in> (of_nat :: nat \<Rightarrow> u32) ` I"
  proof -
    obtain j where j: "j \<in> I" "of_nat i = (of_nat j :: u32)" using imageE [OF w] by metis
    have "j < packet_count b" using j(1) assms(2) by auto
    then have "i = j" using packet_number_inj [OF assms(4) _ assms(3) j(2)] by blast
    with j(1) show ?thesis by simp
  qed
  ultimately show "acked (outgoing k (client_sd cl)) i \<longrightarrow> i \<in> I" by blast
qed

lemma server_serves_packet:
  assumes inv: "server_inv b L cl I ms [] S" and e: "inbox (udp S) = []" and i: "i < packet_count b"
    and p: "(src, data_wire (data_packet (file_packet b i))) \<in> D" and D: "D \<subseteq> part_datagrams b"
    and a: "1 < avail (seq_queue S)" "1 < avail (seq_memory (seqr S))"
  shows "\<exists>S' new. (server_step L cl D)\<^sup>*\<^sup>* S S' \<and> server_inv b L cl (insert i I) (ms @ new) [] S'
    \<and> ctrl UCP_FLAG_ACK (of_nat i) \<in> set new \<and> hd new = ctrl UCP_FLAG_ACK (of_nat i)
    \<and> inbox (udp S') = [] \<and> avail (seq_queue S) - 2 \<le> avail (seq_queue S')
    \<and> avail (seq_memory (seqr S)) - 2 \<le> avail (seq_memory (seqr S'))"
proof -
  let ?p = "(src, data_wire (data_packet (file_packet b i)))"
  define S1 where "S1 = S\<lparr>udp := (udp S)\<lparr>inbox := [?p]\<rparr>\<rparr>"
  have s1: "server_step L cl D S S1"
    using server_step.arrive [OF p, of L cl S] e by (simp add: S1_def)
  have inv1: "server_inv b L cl I ms [] S1" using inv p D by (auto simp: server_inv_def S1_def)
  have S1: "inbox (udp S1) = ?p # []" "1 < avail (seq_queue S1)" "rcv_running S1" "seqr S1 = seqr S"
      "seq_queue S1 = seq_queue S"
    using a inv by (simp_all add: S1_def server_inv_def)
  obtain r s where rc: "receiving_iteration L (rcvr S1) (seq_queue S1) (udp S1) = Some (True, r, s, (udp S1)\<lparr>inbox := []\<rparr>)"
      "server_inv b L cl (insert i I) ms [of_nat i]
        (S1\<lparr>rcvr := r, rcv_running := True, seq_queue := s, udp := (udp S1)\<lparr>inbox := []\<rparr>\<rparr>)"
      "avail s = avail (seq_queue S1) - 2"
    using server_receive_packet [OF inv1 S1(2) i S1(1)] by auto
  define S2 where "S2 = S1\<lparr>rcvr := r, rcv_running := True, seq_queue := s, udp := (udp S1)\<lparr>inbox := []\<rparr>\<rparr>"
  have s2: "server_step L cl D S1 S2"
    unfolding S2_def by (rule server_step.receive [OF S1(3,2) rc(1)])
  have inv2: "server_inv b L cl (insert i I) ms [of_nat i] S2" using rc(2) by (simp add: S2_def)
  have S2: "seqr S2 = seqr S" "seq_queue S2 = s" "inbox (udp S2) = []" "seq_running S2"
    using S1 inv2 by (simp_all add: S2_def server_inv_def)
  have a2: "1 < avail (seq_memory (seqr S2))" using a(2) S2(1) by simp
  obtain t s' k ms' where sc: "sequencing_iteration L (Some cl) (seqr S2) (seq_queue S2) (tcp S2) = Some (False, t, s', k)"
      "server_inv b L cl (insert i I) (ms @ ms') [] (S2\<lparr>seq_queue := s', seqr := t, tcp := k\<rparr>)"
      "avail s' = avail (seq_queue S2)" "avail (seq_memory (seqr S2)) - 2 \<le> avail (seq_memory t)"
      "ctrl UCP_FLAG_ACK (of_nat i) \<in> set ms'" "hd ms' = ctrl UCP_FLAG_ACK (of_nat i)"
    using server_sequence_item [OF inv2 a2] by auto
  have s3: "server_step L cl D S2 (S2\<lparr>seq_queue := s', seqr := t, tcp := k\<rparr>)"
    by (rule server_step.sequence [OF S2(4) a2 sc(1)])
  have "(server_step L cl D)\<^sup>*\<^sup>* S (S2\<lparr>seq_queue := s', seqr := t, tcp := k\<rparr>)"
    using s1 s2 s3 by (meson r_into_rtranclp rtranclp_trans)
  then show ?thesis
    using sc(2-6) S2 S1 rc(3)
    by (intro exI [of _ "S2\<lparr>seq_queue := s', seqr := t, tcp := k\<rparr>"] exI [of _ ms']) simp
qed

lemma server_serves_all:
  "server_inv b L cl I ms [] S \<Longrightarrow> inbox (udp S) = [] \<Longrightarrow> D \<subseteq> part_datagrams b \<Longrightarrow>
    \<forall>i \<in> set is. i < packet_count b \<and> (\<exists>src. (src, data_wire (data_packet (file_packet b i))) \<in> D) \<Longrightarrow>
    2 * length is \<le> avail (seq_queue S) \<Longrightarrow> 2 * length is \<le> avail (seq_memory (seqr S)) \<Longrightarrow>
    \<exists>S' new. (server_step L cl D)\<^sup>*\<^sup>* S S' \<and> server_inv b L cl (I \<union> set is) (ms @ new) [] S'
      \<and> (\<forall>i \<in> set is. ctrl UCP_FLAG_ACK (of_nat i) \<in> set new)"
proof (induction "is" arbitrary: S I ms)
  case Nil
  then show ?case by (intro exI [of _ S] exI [of _ "[]"]) simp
next
  case (Cons i js)
  obtain src where src: "(src, data_wire (data_packet (file_packet b i))) \<in> D" using Cons.prems(4) by auto
  obtain S1 ms1 where S1: "(server_step L cl D)\<^sup>*\<^sup>* S S1" "server_inv b L cl (insert i I) (ms @ ms1) [] S1"
      "ctrl UCP_FLAG_ACK (of_nat i) \<in> set ms1" "inbox (udp S1) = []" "avail (seq_queue S) - 2 \<le> avail (seq_queue S1)"
      "avail (seq_memory (seqr S)) - 2 \<le> avail (seq_memory (seqr S1))"
    using server_serves_packet [OF Cons.prems(1,2) _ src Cons.prems(3)] Cons.prems(4-6) by auto
  have "\<exists>S' new. (server_step L cl D)\<^sup>*\<^sup>* S1 S' \<and> server_inv b L cl (insert i I \<union> set js) ((ms @ ms1) @ new) [] S'
      \<and> (\<forall>i \<in> set js. ctrl UCP_FLAG_ACK (of_nat i) \<in> set new)"
    by (rule Cons.IH [OF S1(2,4)]) (use Cons.prems S1(5,6) in auto)
  then obtain S' new where S': "(server_step L cl D)\<^sup>*\<^sup>* S1 S'" "server_inv b L cl (insert i I \<union> set js) ((ms @ ms1) @ new) [] S'"
      "\<forall>i \<in> set js. ctrl UCP_FLAG_ACK (of_nat i) \<in> set new" by blast
  have "(server_step L cl D)\<^sup>*\<^sup>* S S'" using S1(1) S'(1) by (rule rtranclp_trans)
  then show ?case using S'(2,3) S1(3) by (intro exI [of _ S'] exI [of _ "ms1 @ new"]) simp
qed

text \<open>From any state of the invariant: the threads first finish what has arrived, then serve every packet once more.\<close>

lemma server_drains_inbox:
  "server_inv b L cl I ms n S \<Longrightarrow> 2 * length (inbox (udp S)) \<le> avail (seq_queue S) \<Longrightarrow>
    \<exists>S' I' n'. (server_step L cl D)\<^sup>*\<^sup>* S S' \<and> server_inv b L cl I' ms n' S' \<and> inbox (udp S') = []
      \<and> length n' \<le> length n + length (inbox (udp S))
      \<and> avail (seq_queue S) - 2 * length (inbox (udp S)) \<le> avail (seq_queue S') \<and> seqr S' = seqr S"
proof (induction "inbox (udp S)" arbitrary: S I n)
  case Nil
  then show ?case by (intro exI [of _ S] exI [of _ I] exI [of _ n]) simp
next
  case (Cons x rest)
  have ib: "inbox (udp S) = x # rest" using Cons.hyps(2) by simp
  have a: "1 < avail (seq_queue S)" using Cons.prems(2) ib by simp
  obtain r s I1 n1 where r: "receiving_iteration L (rcvr S) (seq_queue S) (udp S) = Some (True, r, s, (udp S)\<lparr>inbox := rest\<rparr>)"
      "length n1 \<le> 1" "avail (seq_queue S) - 2 \<le> avail s"
      "server_inv b L cl I1 ms (n @ n1) (S\<lparr>rcvr := r, rcv_running := True, seq_queue := s, udp := (udp S)\<lparr>inbox := rest\<rparr>\<rparr>)"
    using server_receive_any [OF Cons.prems(1) a ib] by blast
  let ?S1 = "S\<lparr>rcvr := r, rcv_running := True, seq_queue := s, udp := (udp S)\<lparr>inbox := rest\<rparr>\<rparr>"
  have "rcv_running S" using Cons.prems(1) by (simp add: server_inv_def)
  from server_step.receive [OF this a r(1)] have st: "server_step L cl D S ?S1" .
  have "\<exists>S' I' n'. (server_step L cl D)\<^sup>*\<^sup>* ?S1 S' \<and> server_inv b L cl I' ms n' S' \<and> inbox (udp S') = []
      \<and> length n' \<le> length (n @ n1) + length (inbox (udp ?S1))
      \<and> avail (seq_queue ?S1) - 2 * length (inbox (udp ?S1)) \<le> avail (seq_queue S') \<and> seqr S' = seqr ?S1"
    by (rule Cons.hyps(1) [OF _ r(4)]) (use Cons.prems(2) r(3) ib in simp_all)
  then obtain S' I' n' where S': "(server_step L cl D)\<^sup>*\<^sup>* ?S1 S'" "server_inv b L cl I' ms n' S'" "inbox (udp S') = []"
      "length n' \<le> length (n @ n1) + length rest" "avail s - 2 * length rest \<le> avail (seq_queue S')" "seqr S' = seqr S"
    by auto
  have "(server_step L cl D)\<^sup>*\<^sup>* S S'" using st S'(1) by (rule converse_rtranclp_into_rtranclp)
  moreover have "length n' \<le> length n + length (inbox (udp S))"
      "avail (seq_queue S) - 2 * length (inbox (udp S)) \<le> avail (seq_queue S')"
    using S'(4,5) r(2,3) ib by simp_all
  ultimately show ?case using S'(2,3,6) by blast
qed

lemma server_drains_queue:
  "server_inv b L cl I ms n S \<Longrightarrow> 2 * length n \<le> avail (seq_memory (seqr S)) \<Longrightarrow>
    \<exists>S' new. (server_step L cl D)\<^sup>*\<^sup>* S S' \<and> server_inv b L cl I (ms @ new) [] S' \<and> inbox (udp S') = inbox (udp S)
      \<and> avail (seq_queue S') = avail (seq_queue S)
      \<and> avail (seq_memory (seqr S)) - 2 * length n \<le> avail (seq_memory (seqr S'))"
proof (induction n arbitrary: S ms)
  case Nil
  then show ?case by (intro exI [of _ S] exI [of _ "[]"]) simp
next
  case (Cons x n)
  have a: "1 < avail (seq_memory (seqr S))" using Cons.prems(2) by simp
  obtain t s k ms1 where t: "sequencing_iteration L (Some cl) (seqr S) (seq_queue S) (tcp S) = Some (False, t, s, k)"
      "server_inv b L cl I (ms @ ms1) n (S\<lparr>seq_queue := s, seqr := t, tcp := k\<rparr>)" "avail s = avail (seq_queue S)"
      "avail (seq_memory (seqr S)) - 2 \<le> avail (seq_memory t)"
    using server_sequence_item [OF Cons.prems(1) a] by auto
  let ?S1 = "S\<lparr>seq_queue := s, seqr := t, tcp := k\<rparr>"
  have "seq_running S" using Cons.prems(1) by (simp add: server_inv_def)
  from server_step.sequence [OF this a t(1)] have st: "server_step L cl D S ?S1" .
  have "\<exists>S' new. (server_step L cl D)\<^sup>*\<^sup>* ?S1 S' \<and> server_inv b L cl I ((ms @ ms1) @ new) [] S' \<and> inbox (udp S') = inbox (udp ?S1)
      \<and> avail (seq_queue S') = avail (seq_queue ?S1)
      \<and> avail (seq_memory (seqr ?S1)) - 2 * length n \<le> avail (seq_memory (seqr S'))"
    by (rule Cons.IH [OF t(2)]) (use Cons.prems(2) t(4) in simp)
  then obtain S' new where S': "(server_step L cl D)\<^sup>*\<^sup>* ?S1 S'" "server_inv b L cl I ((ms @ ms1) @ new) [] S'"
      "inbox (udp S') = inbox (udp S)" "avail (seq_queue S') = avail s"
      "avail (seq_memory t) - 2 * length n \<le> avail (seq_memory (seqr S'))" by auto
  have "(server_step L cl D)\<^sup>*\<^sup>* S S'" using st S'(1) by (rule converse_rtranclp_into_rtranclp)
  then show ?case using S'(2-5) t(3,4)
    by (intro exI [of _ S'] exI [of _ "ms1 @ new"]) simp
qed

lemma server_recovers:
  assumes inv: "server_inv b L cl I ms n S" and D: "D \<subseteq> part_datagrams b"
      "\<forall>i < packet_count b. \<exists>src. (src, data_wire (data_packet (file_packet b i))) \<in> D"
    and a: "2 * (length (inbox (udp S)) + packet_count b) \<le> avail (seq_queue S)"
      "2 * (length n + length (inbox (udp S)) + packet_count b) \<le> avail (seq_memory (seqr S))"
  shows "\<exists>S' new. (server_step L cl D)\<^sup>*\<^sup>* S S' \<and> server_inv b L cl {0..<packet_count b} (ms @ new) [] S'
    \<and> (\<forall>i < packet_count b. ctrl UCP_FLAG_ACK (of_nat i) \<in> set new)"
proof -
  have "2 * length (inbox (udp S)) \<le> avail (seq_queue S)" using a(1) by simp
  from server_drains_inbox [OF inv this, of D] obtain S1 I1 n1 where
    S1: "(server_step L cl D)\<^sup>*\<^sup>* S S1" "server_inv b L cl I1 ms n1 S1" "inbox (udp S1) = []"
      "length n1 \<le> length n + length (inbox (udp S))"
      "avail (seq_queue S) - 2 * length (inbox (udp S)) \<le> avail (seq_queue S1)" "seqr S1 = seqr S" by blast
  have "2 * length n1 \<le> avail (seq_memory (seqr S1))" using a(2) S1(4,6) by simp
  from server_drains_queue [OF S1(2) this, of D] obtain S2 new1 where
    S2: "(server_step L cl D)\<^sup>*\<^sup>* S1 S2" "server_inv b L cl I1 (ms @ new1) [] S2" "inbox (udp S2) = inbox (udp S1)"
      "avail (seq_queue S2) = avail (seq_queue S1)"
      "avail (seq_memory (seqr S1)) - 2 * length n1 \<le> avail (seq_memory (seqr S2))" by blast
  have "\<exists>S3 new. (server_step L cl D)\<^sup>*\<^sup>* S2 S3 \<and> server_inv b L cl (I1 \<union> set [0..<packet_count b]) ((ms @ new1) @ new) [] S3
      \<and> (\<forall>i \<in> set [0..<packet_count b]. ctrl UCP_FLAG_ACK (of_nat i) \<in> set new)"
    by (rule server_serves_all [OF S2(2) _ D(1)]) (use S2(3-5) S1(3-6) a D(2) in auto)
  then obtain S3 new where S3: "(server_step L cl D)\<^sup>*\<^sup>* S2 S3"
      "server_inv b L cl (I1 \<union> {0..<packet_count b}) (ms @ new1 @ new) [] S3"
      "\<forall>i < packet_count b. ctrl UCP_FLAG_ACK (of_nat i) \<in> set new" by auto
  have "I1 \<subseteq> {0..<packet_count b}" using S1(2) by (simp add: server_inv_def)
  then have "I1 \<union> {0..<packet_count b} = {0..<packet_count b}" by blast
  moreover have "(server_step L cl D)\<^sup>*\<^sup>* S S3" using S1(1) S2(1) S3(1) by (meson rtranclp_trans)
  ultimately show ?thesis using S3(2,3) by (intro exI [of _ S3] exI [of _ "new1 @ new"]) simp
qed

lemma server_inv_idle_acked:
  assumes v: "server_inv b L cl I ms [] S" and i: "i \<in> I"
  shows "acked (outgoing (tcp S) (client_sd cl)) i"
proof -
  have lt: "length b < 2 ^ 32" "I \<subseteq> {0..<packet_count b}" "sent_inv cl I ms (tcp S)" "queue_inv L I ms [] (seq_queue S)"
    using v by (simp_all add: server_inv_def)
  then have "ctrl UCP_FLAG_ACK (of_nat i) \<in> set ms" using i unfolding queue_inv_def by fastforce
  moreover have "i < packet_count b" using i lt(2) by auto
  ultimately show ?thesis using sent_inv_acked(1) [OF lt(3,2,1)] by blast
qed

lemma server_inv_empty_acked:
  assumes v: "server_inv b L cl I ms n S" and e: "LinkedListEmpty (seq_queue S) L = Some True" and i: "i \<in> I"
  shows "acked (outgoing (tcp S) (client_sd cl)) i"
proof -
  obtain QF qs xs where q: "qrep QF L (seq_queue S) qs xs" "map item_seq_no xs = n"
    using v unfolding server_inv_def queue_inv_def by blast
  have "qs = []" using q Empty_dll [of "seq_queue S" L qs] e by (simp add: qrep_def)
  then have "n = []" using q by (simp add: qrep_def)
  with v i show ?thesis using server_inv_idle_acked by blast
qed

subsection \<open>Properties\<close>

text \<open>C14: whatever the order in which the two threads push and pop, no item of the queue is lost,
  repeated or overtaken: what was popped, followed by what is still in memory, is what was pushed, and every
  operation returns as long as memory lasts.\<close>

theorem sequencing_queue_in_order:
  assumes "qrep F L s [] []" "2 * length (pushed ops) \<le> avail s"
  shows "\<exists>out s' ps rest. run_ops (push_item L) (sequencing_queue_pop L) s ops = Some (out, s')
    \<and> qrep F L s' ps rest \<and> out @ rest = pushed ops"
  using sq_queue.run_in_order [of F L s "[]" ops] assms by auto

definition empty_queue :: queue_mem where
  "empty_queue = \<lparr>elems = [1 \<mapsto> \<lparr>obj = 0, nxt = 1, prv = 1\<rparr>], members = (\<lambda>_. 0), brk = 2, avail = 20, qitems = Map.empty\<rparr>"

abbreviation ack_item :: "u32 \<Rightarrow> sequencing_queue_item" where
  "ack_item n \<equiv> \<lparr>item_seq_no = n, item_flag = UCP_FLAG_ACK, item_is_last = False\<rparr>"

lemma empty_queue_ok: "qrep ((elems empty_queue)(1 := None), Map.empty) 1 empty_queue [] []"
  by (simp add: qrep_def empty_queue_def dll_def nxts_def prvs_def wf_mem_def outside_def)

theorem sequencing_queue_in_order_witness:
  "\<exists>out s' ps rest. run_ops (push_item 1) (sequencing_queue_pop 1) empty_queue
      [Push (ack_item 4), Pop, Pop, Push (ack_item 5), Push (ack_item 6), Pop] = Some (out, s')
    \<and> qrep ((elems empty_queue)(1 := None), Map.empty) 1 s' ps rest \<and> out @ rest = [ack_item 4, ack_item 5, ack_item 6]"
  using sequencing_queue_in_order [OF empty_queue_ok,
      of "[Push (ack_item 4), Pop, Pop, Push (ack_item 5), Push (ack_item 6), Pop]"]
  by (simp add: empty_queue_def)


definition one_queue :: queue_mem where
  "one_queue = \<lparr>elems = [1 \<mapsto> \<lparr>obj = 0, nxt = 3, prv = 3\<rparr>, 3 \<mapsto> \<lparr>obj = 2, nxt = 1, prv = 1\<rparr>],
     members = (\<lambda>_. 1), brk = 4, avail = 20, qitems = [2 \<mapsto> ack_item 9]\<rparr>"

lemma one_queue_ok: "qrep (Map.empty, Map.empty) 1 one_queue [(3, 2)] [ack_item 9]"
  by (auto simp: qrep_def one_queue_def dll_def nxts_def prvs_def objs_def wf_mem_def outside_def)

definition example_client :: tcp_client where
  "example_client = \<lparr>client_sd = 4, client_port = 6341, client_server = \<lparr>ep_addr = zero_addr, ep_sd = - 1\<rparr>\<rparr>"

definition example_tcp :: kernel where
  "example_tcp = \<lparr>open_sds = {4}, next_sd = 5, bind_ok = True, listen_ok = True, connect_ok = True, sockname = None,
     backlog = [], incoming = (\<lambda>_. []), hung_up = (\<lambda>_. False), broken = (\<lambda>_. False), outgoing = (\<lambda>_. []),
     accepts = (\<lambda>_. Some 1500), net_alloc = True\<rparr>"

lemma example_tcp_ok: "can_send example_tcp (client_sd example_client)" "outgoing example_tcp d = []"
  by (simp_all add: can_send_def example_tcp_def)


text \<open>C6: in every interleaving of the network, the receiving thread and the sequencing thread, while the
  network loses, repeats and reorders the packets of a part: the file of the server holds exactly the bytes of
  a set of packets and zeros elsewhere, a packet is acknowledged only if its bytes are in the file, and when the
  queue is empty every packet in the file has been acknowledged.\<close>

theorem server_acks_saved_packets:
  assumes "(server_step L cl (part_datagrams b))\<^sup>*\<^sup>* S0 S" "server_start b L cl S0"
  shows "\<exists>c I. ready (recv_handle (rcvr S)) (length b) c \<and> written b I c \<and> I \<subseteq> {0..<packet_count b}
    \<and> (\<forall>i < packet_count b. acked (outgoing (tcp S) (client_sd cl)) i \<longrightarrow> i \<in> I)
    \<and> (LinkedListEmpty (seq_queue S) L = Some True \<longrightarrow> (\<forall>i \<in> I. acked (outgoing (tcp S) (client_sd cl)) i))"
proof -
  obtain I ms n where v: "server_inv b L cl I ms n S" using server_reachable_inv [OF assms] by blast
  then have lt: "length b < 2 ^ 32" "I \<subseteq> {0..<packet_count b}" "sent_inv cl I ms (tcp S)" by (simp_all add: server_inv_def)
  note a = sent_inv_acked [OF lt(3,2,1)]
  obtain c where c: "ready (recv_handle (rcvr S)) (length b) c" "written b I c"
    using v by (auto simp: server_inv_def file_inv_def)
  have "acked (outgoing (tcp S) (client_sd cl)) i" if e: "LinkedListEmpty (seq_queue S) L = Some True" and i: "i \<in> I" for i
    using server_inv_empty_acked [OF v e i] .
  with c lt(2) a(2) show ?thesis by blast
qed

definition example_server_state :: "u8 list \<Rightarrow> server_state" where
  "example_server_state b = \<lparr>
     rcvr = \<lparr>recv_handle = example_handle (replicate (length b) 0), recv_buffer = replicate UDP_PACKET_SIZE 0,
       rcv_pkt = the (ucp_packet_init True UCP_PACKET_TYPE_DATA)\<rparr>,
     rcv_running = True, seq_queue = empty_queue,
     seqr = \<lparr>seq_memory = \<lparr>elems = [1 \<mapsto> \<lparr>obj = 0, nxt = 1, prv = 1\<rparr>], members = (\<lambda>_. 0), brk = 2, avail = 20,
         items = Map.empty\<rparr>, the_sequencer = \<lparr>seq = 1, maxSeqNo = 0, expectedLastSeqNo = - 1\<rparr>\<rparr>,
     seq_running = True,
     udp = \<lparr>udp_next_sd = 3, udp_bind_ok = True, inbox = [], sent = [], send_ok = True\<rparr>,
     tcp = example_tcp\<rparr>"

lemma example_server_start: "length b \<le> 40000 \<Longrightarrow> server_start b 1 example_client (example_server_state b)"
proof -
  assume b: "length b \<le> 40000"
  let ?m = "\<lparr>elems = [1 \<mapsto> \<lparr>obj = 0, nxt = 1, prv = 1\<rparr>], members = (\<lambda>_. 0), brk = 2, avail = 20,
         items = Map.empty\<rparr> :: seq_mem"
  have "srep (Map.empty, Map.empty) ?m 1 [] []"
    by (auto simp: srep_def dll_def nxts_def prvs_def holds_def wf_mem_def outside_def)
  then have "\<exists>F. srep F ?m 1 [] []" by blast
  moreover have "ready (example_handle (replicate (length b) 0)) (length b) (replicate (length b) 0)"
    using b by (simp add: ready_def example_handle_ok(2)) (simp add: example_file_def)
  moreover have "wf_packet (the (ucp_packet_init True UCP_PACKET_TYPE_DATA))"
    by (simp add: wf_packet_def ucp_packet_init_def)
  moreover have "\<exists>QF. qrep QF 1 empty_queue [] []" using empty_queue_ok by blast
  ultimately show ?thesis
    using b example_tcp_ok by (simp add: server_start_def example_server_state_def)
qed

theorem server_acks_saved_packets_witness:
  "\<exists>S c I. (server_step 1 example_client (part_datagrams [7, 8]))\<^sup>*\<^sup>* (example_server_state [7, 8]) S
    \<and> acked (outgoing (tcp S) (client_sd example_client)) 0 \<and> written [7, 8] I c \<and> 0 \<in> I"
proof -
  have st: "server_start [7, 8] 1 example_client (example_server_state [7, 8])" by (rule example_server_start) simp
  have pc: "packet_count [7, 8] = 1" by (simp add: packet_count_def UDP_PACKET_DATA_SIZE_val)
  obtain S ms where S: "(server_step 1 example_client (part_datagrams [7, 8]))\<^sup>*\<^sup>* (example_server_state [7, 8]) S"
      "server_inv [7, 8] 1 example_client {0} ms [] S"
    using server_serves_all [OF server_start_inv [OF st] _ order_refl, of "[0]"] pc
    by (auto simp: example_server_state_def empty_queue_def part_datagrams_def)
  have "acked (outgoing (tcp S) (client_sd example_client)) 0"
    by (rule server_inv_idle_acked [OF S(2)]) simp
  with S(1) server_acks_saved_packets [OF S(1) st] pc show ?thesis by auto
qed

text \<open>
  A run on given deliveries: the datagrams \<open>xs\<close> carry the packets \<open>is\<close>, the first \<open>k\<close> have been taken out of the socket.
\<close>

definition delivered_inv ::
    "u8 list \<Rightarrow> addr \<Rightarrow> tcp_client \<Rightarrow> nat list \<Rightarrow> (sockaddr_in \<times> u8 list) list \<Rightarrow> nat \<Rightarrow> server_state \<Rightarrow> bool" where
  "delivered_inv b L cl is xs k S \<longleftrightarrow> k \<le> length is \<and> inbox (udp S) = drop k xs
     \<and> (\<exists>ms n. length n \<le> k \<and> server_inv b L cl (set (take k is)) ms n S)"

lemma delivered_inv_step:
  assumes step: "server_step L cl {} S S'" and inv: "delivered_inv b L cl is xs k S"
    and xs: "map snd xs = map (\<lambda>i. data_wire (data_packet (file_packet b i))) is" "\<forall>i \<in> set is. i < packet_count b"
  shows "\<exists>k'. delivered_inv b L cl is xs k' S'"
proof -
  obtain ms n where v: "k \<le> length is" "inbox (udp S) = drop k xs" "length n \<le> k" "server_inv b L cl (set (take k is)) ms n S"
    using inv unfolding delivered_inv_def by blast
  have len: "length xs = length is" using arg_cong [OF xs(1), of length] by simp
  show ?thesis
    using step
  proof (cases rule: server_step.cases)
    case (arrive p)
    then show ?thesis by simp
  next
    case (receive go r s u)
    have "inbox (udp S) \<noteq> []" using receive(4) by (auto simp: receiving_iteration_def udp_socket_receive_from_def)
    then have k: "k < length is" using v(2) len by simp
    obtain src w where w: "xs ! k = (src, w)" by (cases "xs ! k")
    have "w = data_wire (data_packet (file_packet b (is ! k)))"
      using arg_cong [OF xs(1), of "\<lambda>ys. ys ! k"] k len w by simp
    then have ib: "inbox (udp S) = (src, data_wire (data_packet (file_packet b (is ! k)))) # drop (Suc k) xs"
      using v(2) k len w Cons_nth_drop_Suc [of k xs] by simp
    have ik: "is ! k < packet_count b" using xs(2) k by simp
    have st: "set (take (Suc k) is) = insert (is ! k) (set (take k is))" using k by (simp add: take_Suc_conv_app_nth)
    obtain r' s' where it: "receiving_iteration L (rcvr S) (seq_queue S) (udp S) = Some (True, r', s', (udp S)\<lparr>inbox := drop (Suc k) xs\<rparr>)"
        "server_inv b L cl (insert (is ! k) (set (take k is))) ms (n @ [of_nat (is ! k)])
          (S\<lparr>rcvr := r', rcv_running := True, seq_queue := s', udp := (udp S)\<lparr>inbox := drop (Suc k) xs\<rparr>\<rparr>)"
      using server_receive_packet [OF v(4) receive(3) ik ib] by blast
    then have "S' = S\<lparr>rcvr := r', rcv_running := True, seq_queue := s', udp := (udp S)\<lparr>inbox := drop (Suc k) xs\<rparr>\<rparr>"
      using receive(1,4) by simp
    with it(2) have "delivered_inv b L cl is xs (Suc k) S'"
      unfolding delivered_inv_def st using k v(3) by (intro conjI exI [of _ ms] exI [of _ "n @ [of_nat (is ! k)]"]) simp_all
    then show ?thesis ..
  next
    case (sequence t s k0)
    obtain ms' where "server_inv b L cl (set (take k is)) (ms @ ms') (tl n) S'"
      using server_inv_sequence [OF v(4) sequence(3,4)] sequence(1) by blast
    then have "delivered_inv b L cl is xs k S'"
      unfolding delivered_inv_def using v(1-3) sequence(1) by (intro conjI exI [of _ "ms @ ms'"] exI [of _ "tl n"]) simp_all
    then show ?thesis ..
  next
    case (finish t s k0 m k')
    then show ?thesis using server_inv_sequence [OF v(4) finish(3,4)] by blast
  qed
qed

lemma delivered_reachable:
  assumes "(server_step L cl {})\<^sup>*\<^sup>* S1 S" "delivered_inv b L cl is xs k S1"
    and "map snd xs = map (\<lambda>i. data_wire (data_packet (file_packet b i))) is" "\<forall>i \<in> set is. i < packet_count b"
  shows "\<exists>k. delivered_inv b L cl is xs k S"
  using assms(1)
proof (induction rule: rtranclp_induct)
  case base
  show ?case using assms(2) by blast
next
  case (step S S')
  then show ?case using delivered_inv_step [OF step(2) _ assms(3,4)] by blast
qed

lemma delivered_finishes:
  assumes inv: "delivered_inv b L cl is xs k S"
    and xs: "map snd xs = map (\<lambda>i. data_wire (data_packet (file_packet b i))) is" "\<forall>i \<in> set is. i < packet_count b"
    and a: "2 * length is \<le> avail (seq_queue S)" "2 * length is \<le> avail (seq_memory (seqr S))"
  shows "\<exists>S'. (server_step L cl {})\<^sup>*\<^sup>* S S' \<and> inbox (udp S') = [] \<and> LinkedListEmpty (seq_queue S') L = Some True"
proof -
  obtain ms n where v: "k \<le> length is" "inbox (udp S) = drop k xs" "length n \<le> k" "server_inv b L cl (set (take k is)) ms n S"
    using inv unfolding delivered_inv_def by blast
  have len: "length xs = length is" using arg_cong [OF xs(1), of length] by simp
  have "2 * length (inbox (udp S)) \<le> avail (seq_queue S)" using a(1) v(2) len by simp
  from server_drains_inbox [OF v(4) this] obtain S1 I1 n1 where
    S1: "(server_step L cl {})\<^sup>*\<^sup>* S S1" "server_inv b L cl I1 ms n1 S1" "inbox (udp S1) = []"
      "length n1 \<le> length n + length (inbox (udp S))" "seqr S1 = seqr S" by blast
  have "2 * length n1 \<le> avail (seq_memory (seqr S1))" using a(2) S1(4,5) v(1-3) len by simp
  from server_drains_queue [OF S1(2) this] obtain S2 new where
    S2: "(server_step L cl {})\<^sup>*\<^sup>* S1 S2" "server_inv b L cl I1 (ms @ new) [] S2" "inbox (udp S2) = inbox (udp S1)" by blast
  obtain QF qs where q: "qrep QF L (seq_queue S2) qs []" using S2(2) by (auto simp: server_inv_def queue_inv_def)
  then have "LinkedListEmpty (seq_queue S2) L = Some True" using Empty_dll [of "seq_queue S2" L qs] by (auto simp: qrep_def)
  then show ?thesis using S1(1,3) S2(1,3) rtranclp_trans [of _ S S1 S2] by metis
qed

text \<open>C9: the server on given deliveries. The datagrams in its socket are packets of the part, any of them, in any order and
  with any repetitions. In every state that the two threads reach from there, in whatever order they run, the
  first \<open>k\<close> datagrams have been taken, the file holds exactly the bytes of their packets and zeros elsewhere, only they
  are acknowledged, and all of them are when the queue is empty. From every such state that has memory left the
  threads can go on until the socket and the queue are empty; then the file holds exactly the packets delivered, it is
  the part if all were, and exactly the packets delivered are acknowledged.\<close>

theorem server_saves_and_acks:
  assumes "server_start b L cl S0" "\<forall>i \<in> set is. i < packet_count b"
    and "map snd xs = map (\<lambda>i. data_wire (data_packet (file_packet b i))) is"
    and "(server_step L cl {})\<^sup>*\<^sup>* (S0\<lparr>udp := (udp S0)\<lparr>inbox := xs\<rparr>\<rparr>) S"
  shows "(\<exists>k c. k \<le> length is \<and> inbox (udp S) = drop k xs \<and> ready (recv_handle (rcvr S)) (length b) c
      \<and> written b (set (take k is)) c
      \<and> (\<forall>i < packet_count b. acked (outgoing (tcp S) (client_sd cl)) i \<longrightarrow> i \<in> set (take k is))
      \<and> (LinkedListEmpty (seq_queue S) L = Some True \<longrightarrow> (\<forall>i \<in> set (take k is). acked (outgoing (tcp S) (client_sd cl)) i))
      \<and> (k = length is \<and> {0..<packet_count b} \<subseteq> set is \<longrightarrow> c = b))
    \<and> (2 * length is \<le> avail (seq_queue S) \<and> 2 * length is \<le> avail (seq_memory (seqr S)) \<longrightarrow>
      (\<exists>S'. (server_step L cl {})\<^sup>*\<^sup>* S S' \<and> inbox (udp S') = [] \<and> LinkedListEmpty (seq_queue S') L = Some True))"
proof -
  have "set xs \<subseteq> part_datagrams b"
  proof
    fix x assume "x \<in> set xs"
    then have "snd x \<in> set (map (\<lambda>i. data_wire (data_packet (file_packet b i))) is)" unfolding assms(3) [symmetric] by simp
    then show "x \<in> part_datagrams b" using assms(2) by (cases x) (auto simp: part_datagrams_def)
  qed
  then have "server_inv b L cl (set (take 0 is)) [] [] (S0\<lparr>udp := (udp S0)\<lparr>inbox := xs\<rparr>\<rparr>)"
    using server_start_inv [OF assms(1)] by (simp add: server_inv_def)
  then have "delivered_inv b L cl is xs 0 (S0\<lparr>udp := (udp S0)\<lparr>inbox := xs\<rparr>\<rparr>)" by (fastforce simp: delivered_inv_def)
  from delivered_reachable [OF assms(4) this assms(3,2)] obtain k where k: "delivered_inv b L cl is xs k S" by blast
  then obtain ms n where v: "k \<le> length is" "inbox (udp S) = drop k xs" "server_inv b L cl (set (take k is)) ms n S"
    unfolding delivered_inv_def by blast
  then have lt: "length b < 2 ^ 32" "set (take k is) \<subseteq> {0..<packet_count b}" "sent_inv cl (set (take k is)) ms (tcp S)"
    by (simp_all add: server_inv_def)
  obtain c where c: "ready (recv_handle (rcvr S)) (length b) c" "written b (set (take k is)) c"
    using v(3) by (auto simp: server_inv_def file_inv_def)
  have "acked (outgoing (tcp S) (client_sd cl)) i"
    if e: "LinkedListEmpty (seq_queue S) L = Some True" and i: "i \<in> set (take k is)" for i
    using server_inv_empty_acked [OF v(3) e i] .
  moreover have "c = b" if "k = length is \<and> {0..<packet_count b} \<subseteq> set is" using written_all [OF c(2)] that by simp
  ultimately have A: "\<exists>k c. k \<le> length is \<and> inbox (udp S) = drop k xs \<and> ready (recv_handle (rcvr S)) (length b) c
      \<and> written b (set (take k is)) c
      \<and> (\<forall>i < packet_count b. acked (outgoing (tcp S) (client_sd cl)) i \<longrightarrow> i \<in> set (take k is))
      \<and> (LinkedListEmpty (seq_queue S) L = Some True \<longrightarrow> (\<forall>i \<in> set (take k is). acked (outgoing (tcp S) (client_sd cl)) i))
      \<and> (k = length is \<and> {0..<packet_count b} \<subseteq> set is \<longrightarrow> c = b)"
    using v(1,2) c sent_inv_acked(2) [OF lt(3,2,1)] by blast
  have "2 * length is \<le> avail (seq_queue S) \<and> 2 * length is \<le> avail (seq_memory (seqr S)) \<longrightarrow>
      (\<exists>S'. (server_step L cl {})\<^sup>*\<^sup>* S S' \<and> inbox (udp S') = [] \<and> LinkedListEmpty (seq_queue S') L = Some True)"
    using delivered_finishes [OF k assms(3,2)] by blast
  with A show ?thesis ..
qed

theorem server_saves_and_acks_witness:
  "\<exists>S' c. (server_step 1 example_client {})\<^sup>*\<^sup>* ((example_server_state (replicate 9200 5))\<lparr>udp := (udp (example_server_state (replicate 9200 5)))
      \<lparr>inbox := map (\<lambda>i. (zero_addr, data_wire (data_packet (file_packet (replicate 9200 5) i)))) [1, 0, 1]\<rparr>\<rparr>) S'
    \<and> inbox (udp S') = [] \<and> ready (recv_handle (rcvr S')) 9200 c \<and> c = replicate 9200 5
    \<and> acked (outgoing (tcp S') (client_sd example_client)) 1"
proof -
  let ?b = "replicate 9200 5 :: u8 list" and ?is = "[1, 0, 1 :: nat]"
  let ?xs = "map (\<lambda>i. (zero_addr, data_wire (data_packet (file_packet ?b i)))) ?is"
  let ?S = "(example_server_state ?b)\<lparr>udp := (udp (example_server_state ?b))\<lparr>inbox := ?xs\<rparr>\<rparr>"
  have pc: "packet_count ?b = 2" by (simp add: packet_count_def UDP_PACKET_DATA_SIZE_val)
  have st: "server_start ?b 1 example_client (example_server_state ?b)" by (rule example_server_start) simp
  have i: "\<forall>i \<in> set ?is. i < packet_count ?b" unfolding pc by simp
  have m: "map snd ?xs = map (\<lambda>i. data_wire (data_packet (file_packet ?b i))) ?is" by (simp add: comp_def)
  have mem: "2 * length ?is \<le> avail (seq_queue ?S) \<and> 2 * length ?is \<le> avail (seq_memory (seqr ?S))"
    by (simp add: example_server_state_def empty_queue_def)
  obtain S' where S': "(server_step 1 example_client {})\<^sup>*\<^sup>* ?S S'" "inbox (udp S') = []"
      "LinkedListEmpty (seq_queue S') 1 = Some True"
    using server_saves_and_acks [OF st i m rtranclp.rtrancl_refl, THEN conjunct2] mem by blast
  from server_saves_and_acks [OF st i m S'(1), THEN conjunct1] obtain k c where kc: "k \<le> length ?is" "inbox (udp S') = drop k ?xs"
      "ready (recv_handle (rcvr S')) (length ?b) c"
      "LinkedListEmpty (seq_queue S') 1 = Some True \<longrightarrow> (\<forall>i \<in> set (take k ?is). acked (outgoing (tcp S') (client_sd example_client)) i)"
      "k = length ?is \<and> {0..<packet_count ?b} \<subseteq> set ?is \<longrightarrow> c = ?b" by blast
  have k: "k = length ?is" using kc(1,2) S'(2) by simp
  have "{0..<2 :: nat} \<subseteq> set ?is" by auto
  then have "c = ?b" using kc(5) k pc by simp
  moreover have "acked (outgoing (tcp S') (client_sd example_client)) 1" using kc(4) S'(3) unfolding k by simp
  ultimately show ?thesis using S' kc(3) by auto
qed

text \<open>C27: as long as the disk takes every write, the server never notices that a part is complete. An item queued after a
  successful save carries ACK, which is not \<open>UCP_FLAG_DATA_END\<close>, so the expected last number stays at \<open>-1\<close>; in no state that
  the server reaches from its start on such a disk, on the datagrams of a part, can the loop of the sequencing thread
  end; no FIN is ever sent, even when every packet is saved and acknowledged, and \<open>main\<close> does not get past the joins to
  close the connection.\<close>

theorem server_never_finishes:
  assumes "(server_step L cl (part_datagrams b))\<^sup>*\<^sup>* S0 S" "server_start b L cl S0"
  shows "seq_running S \<and> rcv_running S \<and> expectedLastSeqNo (the_sequencer (seqr S)) = - 1
    \<and> server_exit cl S = None
    \<and> (1 < avail (seq_memory (seqr S)) \<longrightarrow> (\<exists>t s k.
        sequencing_iteration L (Some cl) (seqr S) (seq_queue S) (tcp S) = Some (False, t, s, k)))
    \<and> (\<forall>n. ctrl_wire (ctrl UCP_FLAG_FIN n) \<notin> set (ctrl_frames (outgoing (tcp S) (client_sd cl))))"
proof -
  obtain I ms n where v: "server_inv b L cl I ms n S" using server_reachable_inv [OF assms] by blast
  then have "expectedLastSeqNo (the_sequencer (seqr S)) = - 1" "seq_running S" "rcv_running S"
    by (simp_all add: server_inv_def seq_inv_def)
  moreover have "1 < avail (seq_memory (seqr S)) \<Longrightarrow> \<exists>t s k.
        sequencing_iteration L (Some cl) (seqr S) (seq_queue S) (tcp S) = Some (False, t, s, k)"
    using server_sequence_item [OF v] by blast
  moreover have "ctrl_wire (ctrl UCP_FLAG_FIN n) \<noteq> ctrl_wire m" if m: "m \<in> set ms" for n m
  proof
    assume "ctrl_wire (ctrl UCP_FLAG_FIN n) = ctrl_wire m"
    from ctrl_wire_inj [OF this] have "byte_of 0 UCP_FLAG_FIN = byte_of 0 (ctrl_flag m)" by simp
    moreover have "ctrl_flag m = UCP_FLAG_NACK \<or> ctrl_flag m = UCP_FLAG_ACK"
      using v m by (auto simp: server_inv_def sent_inv_def)
    ultimately show False by (auto simp: packet_enums byte_of_def)
  qed
  moreover have "outgoing (tcp S) (client_sd cl) = concat (map ctrl_wire ms)"
    using v by (simp add: server_inv_def sent_inv_def)
  ultimately show ?thesis by (auto simp: ctrl_frames_wire server_exit_def)
qed

theorem server_never_finishes_witness:
  "\<exists>S. (server_step 1 example_client (part_datagrams [7, 8]))\<^sup>*\<^sup>* (example_server_state [7, 8]) S
    \<and> acked (outgoing (tcp S) (client_sd example_client)) 0 \<and> seq_running S
    \<and> ctrl_wire (ctrl UCP_FLAG_FIN 0) \<notin> set (ctrl_frames (outgoing (tcp S) (client_sd example_client)))"
proof -
  have st: "server_start [7, 8] 1 example_client (example_server_state [7, 8])" by (rule example_server_start) simp
  have pc: "packet_count [7, 8] = 1" by (simp add: packet_count_def UDP_PACKET_DATA_SIZE_val)
  obtain S ms where S: "(server_step 1 example_client (part_datagrams [7, 8]))\<^sup>*\<^sup>* (example_server_state [7, 8]) S"
      "server_inv [7, 8] 1 example_client {0} ms [] S"
    using server_serves_all [OF server_start_inv [OF st] _ order_refl, of "[0]"] pc
    by (auto simp: example_server_state_def empty_queue_def part_datagrams_def)
  have "acked (outgoing (tcp S) (client_sd example_client)) 0"
    by (rule server_inv_idle_acked [OF S(2)]) simp
  with S(1) server_never_finishes [OF S(1) st] show ?thesis by blast
qed

text \<open>When the set is \<open>0..expectedLastSeqNo\<close> and the queue is empty, the sequencing thread polls a few times and leaves its loop.\<close>

lemma sequencing_ends:
  assumes "srep F (seq_memory (seqr S)) (seq (the_sequencer (seqr S))) ps rs" "ranges_ok rs"
    and "(ranges_merge ^^ Suc j) rs = [(0, expectedLastSeqNo (the_sequencer (seqr S)))]"
    and "qrep QF L (seq_queue S) qs []" "1 < avail (seq_memory (seqr S))" "can_send (tcp S) (client_sd cl)" "seq_running S"
  shows "\<exists>S'. (server_step L cl D)\<^sup>*\<^sup>* S S' \<and> \<not> rcv_running S' \<and> \<not> seq_running S' \<and> udp S' = udp S
    \<and> outgoing (tcp S') (client_sd cl)
      = outgoing (tcp S) (client_sd cl) @ ctrl_wire (ctrl UCP_FLAG_FIN (expectedLastSeqNo (the_sequencer (seqr S))))"
  using assms
proof (induction j arbitrary: S ps rs qs)
  case (0 S)
  let ?q = "the_sequencer (seqr S)" and ?d = "client_sd cl"
  have fin: "ranges_done (expectedLastSeqNo ?q) rs" using 0(3) by (simp add: ranges_done_def)
  obtain m ps1 where m: "sequencer_complete (seq_memory (seqr S)) ?q = Some (True, m)" "srep F m (seq ?q) ps1 (ranges_merge rs)"
    using sequencer_complete_ranges [OF 0(1,2)] fin by auto
  obtain m' where m': "sequencer_destroy m ?q = Some m'" using sequencer_destroy_frame [OF m(2)] by blast
  let ?t = "(seqr S)\<lparr>seq_memory := m\<rparr>"
  let ?k = "queue_out ?d (ctrl_wire (ctrl UCP_FLAG_FIN (expectedLastSeqNo ?q))) (tcp S)"
  have it: "sequencing_iteration L (Some cl) (seqr S) (seq_queue S) (tcp S) = Some (True, ?t, seq_queue S, tcp S)"
    using m(1) by (simp add: sequencing_split)
  have "sequencing_exit (Some cl) ?t (tcp S) = Some (m', ?k)"
    using send_ctrl_packet_ok [OF 0(6)] 0(6) m' by (simp add: sequencing_exit_def send_fin_def can_send_def)
  from server_step.finish [OF 0(7,5) it this] show ?case by (intro exI conjI, rule r_into_rtranclp) simp_all
next
  case (Suc j S)
  let ?q = "the_sequencer (seqr S)"
  obtain m ps1 where m: "sequencer_complete (seq_memory (seqr S)) ?q = Some (ranges_done (expectedLastSeqNo ?q) rs, m)"
      "srep F m (seq ?q) ps1 (ranges_merge rs)" "avail m = avail (seq_memory (seqr S))"
    using sequencer_complete_ranges [OF Suc.prems(1,2)] by blast
  show ?case
  proof (cases "ranges_done (expectedLastSeqNo ?q) rs")
    case True
    then have "(ranges_merge ^^ Suc 0) rs = [(0, expectedLastSeqNo ?q)]" by (simp add: ranges_done_def)
    moreover have "(ranges_merge ^^ j) [(0, expectedLastSeqNo ?q)] = [(0, expectedLastSeqNo ?q)]" for j
      by (induction j) simp_all
    ultimately have "(ranges_merge ^^ Suc j) rs = [(0, expectedLastSeqNo ?q)]" by (simp add: funpow_swap1)
    then show ?thesis using Suc.IH [OF Suc.prems(1,2) _ Suc.prems(4-7)] by blast
  next
    case False
    obtain s' qs' where p: "sequencing_queue_pop L (seq_queue S) = Some (None, s')" "qrep QF L s' qs' []"
      using queue_pop [OF Suc.prems(4)] by auto
    let ?t = "(seqr S)\<lparr>seq_memory := m\<rparr>"
    let ?S = "S\<lparr>seq_queue := s', seqr := ?t, tcp := tcp S\<rparr>"
    have "sequencing_iteration L (Some cl) (seqr S) (seq_queue S) (tcp S) = Some (False, ?t, s', tcp S)"
      using m(1) p(1) False by (simp add: sequencing_split)
    from server_step.sequence [OF Suc.prems(7,5) this] have st: "server_step L cl D S ?S" .
    have "(ranges_merge ^^ Suc j) (ranges_merge rs) = [(0, expectedLastSeqNo ?q)]"
      using Suc.prems(3) by (simp add: funpow_swap1)
    then have "\<exists>S'. (server_step L cl D)\<^sup>*\<^sup>* ?S S' \<and> \<not> rcv_running S' \<and> \<not> seq_running S' \<and> udp S' = udp ?S
      \<and> outgoing (tcp S') (client_sd cl)
        = outgoing (tcp ?S) (client_sd cl) @ ctrl_wire (ctrl UCP_FLAG_FIN (expectedLastSeqNo (the_sequencer (seqr ?S))))"
      by (intro Suc.IH [of ?S ps1 "ranges_merge rs" qs']) (use m p Suc.prems ranges_merge_props [OF Suc.prems(2)] in simp_all)
    then show ?thesis using converse_rtranclp_into_rtranclp [of "server_step L cl D", OF st] by auto
  qed
qed

lemma receiving_failed_save:
  assumes "inbox u = (from, data_wire (data_packet (file_packet b i))) # rest" "i < packet_count b" "length b < 2 ^ 32"
    and "length (recv_buffer r) = UDP_PACKET_SIZE" "wf_packet (rcv_pkt r)"
    and "fp (recv_handle r) = Some f" "\<not> takes_segment f (i * 9166) (length (chunk b i))" "qrep F L s ps xs" "1 < avail s"
  shows "\<exists>r' s' ps'. receiving_iteration L r s u = Some (False, r', s', u\<lparr>inbox := rest\<rparr>)
    \<and> qrep F L s' ps' (xs @ [\<lparr>item_seq_no = of_nat i, item_flag = UCP_FLAG_NACK, item_is_last = False\<rparr>])"
proof -
  let ?xs = "data_wire (data_packet (file_packet b i))" and ?n = "of_nat UDP_PACKET_SIZE :: u64"
  note v = file_packet_fields(6) [of b i]
  have fit: "0 < length ?xs" "length ?xs \<le> length (recv_buffer r)"
    using v assms(4) by (simp_all add: length_data_wire valid_data_def UDP_PACKET_SIZE_val UDP_PACKET_DATA_SIZE_val)
  define rb where "rb = ?xs @ drop (length ?xs) (recv_buffer r)"
  have rb: "length rb = UDP_PACKET_SIZE" using fit assms(4) by (simp add: rb_def)
  have recv: "udp_socket_receive_from (recv_buffer r) True u = Some (int (length ?xs), rb, Some from, u\<lparr>inbox := rest\<rparr>)"
    unfolding rb_def by (rule receive_datagram [OF assms(1) fit(2)])
  have n: "sizeof_ucp_packet \<le> unat ?n" by (simp add: UDP_PACKET_SIZE_val sizeof_ucp_packet_val)
  obtain q where q: "ucp_packet_decode (Some rb) ?n (Some (rcv_pkt r)) = Some (Some q)" "wf_packet q"
      "pkt_type q = UCP_PACKET_TYPE_DATA" "same_data (data_packet q) (data_packet (file_packet b i))"
    using data_codec.dec [OF assms(5) v n] unfolding rb_def by blast
  have same: "payload q = chunk b i" "unat (offset (data_packet q)) = i * 9166" "data_seq_no (data_packet q) = of_nat i"
      "unat (seg_len (data_packet q)) \<le> length (segment_data (data_packet q))"
    using q(2,4) payload_file_packet [of b i] offset_file_packet [OF assms(2,3)] file_packet_fields(3,4) [of b i] length_chunk [of b i]
    by (auto simp: same_data_def payload_def wf_packet_def UDP_PACKET_DATA_SIZE_val)
  obtain h where h: "file_io_save_packet (recv_handle r) q = Some (False, h)"
    using save_packet_result [OF assms(6) same(4)] assms(7) same by auto
  obtain s' ps' where s': "sequencing_queue_push L s (of_nat i) UCP_FLAG_NACK False = Some s'"
      "qrep F L s' ps' (xs @ [\<lparr>item_seq_no = of_nat i, item_flag = UCP_FLAG_NACK, item_is_last = False\<rparr>])"
    using queue_push [OF assms(8,9)] by blast
  have "receiving_iteration L r s u = Some (False, r\<lparr>recv_buffer := rb, rcv_pkt := q, recv_handle := h\<rparr>, s', u\<lparr>inbox := rest\<rparr>)"
    using fit(1) q(1,3) h s'(1) same(3) by (simp add: receiving_iteration_def recv rb Let_def)
  with s'(2) show ?thesis by blast
qed

text \<open>C28: a failed save ends the transfer as if it were complete. \<open>UCP_FLAG_NACK\<close> and \<open>UCP_FLAG_DATA_END\<close> are both 2, so the item
  that the receiving thread queues when \<open>file_io_save_packet\<close> returns FALSE tells the sequencing thread that its packet is
  the last. When the packets before packet \<open>n\<close> have been added and the disk does not take packet \<open>n\<close>, the threads have
  a run in which the number of the packet that was not saved is added to the set, the set counts as complete, a FIN
  follows the NACK, and \<open>main\<close> reports success, whatever packets come after \<open>n\<close> in the part.\<close>

theorem failed_save_finishes_transfer:
  assumes "rcv_running S" "seq_running S" "1 < avail (seq_queue S)" "3 < avail (seq_memory (seqr S))"
    and "can_send (tcp S) (client_sd cl)" "qrep QF L (seq_queue S) qs []"
    and "srep F (seq_memory (seqr S)) (seq (the_sequencer (seqr S))) ps rs" "ranges_ok rs"
    and "seqs rs = {m. m < of_nat n}" "expectedLastSeqNo (the_sequencer (seqr S)) = - 1"
    and "inbox (udp S) = (src, data_wire (data_packet (file_packet b n))) # rest" "n < packet_count b" "length b < 2 ^ 32"
    and "length (recv_buffer (rcvr S)) = UDP_PACKET_SIZE" "wf_packet (rcv_pkt (rcvr S))"
    and "fp (recv_handle (rcvr S)) = Some f" "\<not> takes_segment f (n * 9166) (length (chunk b n))"
  shows "\<exists>S'. (server_step L cl D)\<^sup>*\<^sup>* S S' \<and> inbox (udp S') = rest
    \<and> outgoing (tcp S') (client_sd cl) = outgoing (tcp S) (client_sd cl)
        @ ctrl_wire (ctrl UCP_FLAG_NACK (of_nat n)) @ ctrl_wire (ctrl UCP_FLAG_FIN (of_nat n))
    \<and> server_exit cl S' = Some (tcp_client_disconnect (Some cl) (tcp S'))"
proof -
  let ?x = "\<lparr>item_seq_no = of_nat n, item_flag = UCP_FLAG_NACK, item_is_last = False\<rparr>"
  let ?q = "the_sequencer (seqr S)"
  have nm: "of_nat n \<noteq> (- 1 :: u32)" by (rule packet_number_not_max [OF assms(12,13)])
  obtain r s ps1 where r: "receiving_iteration L (rcvr S) (seq_queue S) (udp S) = Some (False, r, s, (udp S)\<lparr>inbox := rest\<rparr>)"
      "qrep QF L s ps1 [?x]"
    using receiving_failed_save [OF assms(11-17,6,3)] by auto
  define S1 where "S1 = S\<lparr>rcvr := r, rcv_running := False, seq_queue := s, udp := (udp S)\<lparr>inbox := rest\<rparr>\<rparr>"
  have s1: "server_step L cl D S S1" unfolding S1_def by (rule server_step.receive [OF assms(1,3) r(1)])
  have S1: "seqr S1 = seqr S" "tcp S1 = tcp S" "seq_queue S1 = s" "seq_running S1" "inbox (udp S1) = rest"
    using assms(2) by (simp_all add: S1_def)
  have a: "1 < avail (seq_memory (seqr S))" using assms(4) by simp
  have items: "\<forall>x \<in> set [?x]. item_seq_no x \<noteq> - 1" using nm by simp
  obtain d t s' k' ps' rs' qs' where it: "sequencing_iteration L (Some cl) (seqr S) s (tcp S) = Some (d, t, s', k')"
    "srep F (seq_memory t) (seq (the_sequencer t)) ps' rs'" "ranges_ok rs'" "avail (seq_memory (seqr S)) - 2 \<le> avail (seq_memory t)"
    "d \<longrightarrow> seqs rs = {0..expectedLastSeqNo ?q}" "\<not> d \<longrightarrow> qrep QF L s' qs' (tl [?x]) \<and> (case [?x] of
        [] \<Rightarrow> seqs rs' = seqs rs \<and> the_sequencer t = ?q \<and> k' = tcp S
      | x # _ \<Rightarrow> served cl x rs ?q (tcp S) rs' (the_sequencer t) k')"
    using sequencing_iteration_cases [OF assms(7,8) a r(2) assms(5) items] by blast
  have "- 1 \<notin> {m :: u32. m < of_nat n}" by (simp add: not_less)
  then have d: "d = False" using it(5) assms(9,10) by auto
  have sv: "qrep QF L s' qs' []" "served cl ?x rs ?q (tcp S) rs' (the_sequencer t) k'" using it(6) d by simp_all
  have t: "the_sequencer t = sequencer_mark ?q (of_nat n) True" using sv(2) by (simp add: served_def packet_enums)
  then have last: "expectedLastSeqNo (the_sequencer t) = of_nat n" "maxSeqNo (the_sequencer t) = of_nat n"
    by (simp_all add: sequencer_mark_def)
  have "rs = [] \<or> \<not> of_nat n + 1 < fst (hd rs)"
  proof (cases rs)
    case (Cons p ps2)
    then have "fst p \<in> seqs rs" using assms(8) by (auto simp: ranges_ok_def)
    then have "fst p < of_nat n" unfolding assms(9) by simp
    then have "\<not> of_nat n + 1 < fst p" using unat_succ [OF nm] by (simp add: word_nat)
    then show ?thesis using Cons by simp
  qed simp
  then have ins: "seqs rs' = insert (of_nat n) {m. m < of_nat n}" using sv(2) assms(9) unfolding served_def by simp
  have "x \<in> insert (of_nat n) {m. m < of_nat n} \<longleftrightarrow> x \<in> {0..of_nat n}" for x :: u32
    unfolding insert_iff mem_Collect_eq atLeastAtMost_iff le_less [of x "of_nat n"] using word_zero_le [of x] by blast
  then have set: "seqs rs' = {0..expectedLastSeqNo (the_sequencer t)}" unfolding last ins by blast
  obtain ms where ms: "set ms = {m. m < of_nat n \<and> m \<notin> seqs rs'}" "k' = queue_out (client_sd cl)
        (ctrl_wire (ctrl UCP_FLAG_NACK (of_nat n)) @ concat (map (\<lambda>n. ctrl_wire (ctrl UCP_FLAG_NACK n)) ms)) (tcp S)"
    using sv(2) unfolding served_def last by auto
  have "set ms = {}" unfolding ms(1) ins by blast
  then have "ms = []" by simp
  then have k': "k' = queue_out (client_sd cl) (ctrl_wire (ctrl UCP_FLAG_NACK (of_nat n))) (tcp S)" using ms(2) by simp
  let ?S2 = "S1\<lparr>seq_queue := s', seqr := t, tcp := k'\<rparr>"
  have s2: "server_step L cl D S1 ?S2"
    by (rule server_step.sequence) (use it(1) d S1 a in simp_all)
  have "(ranges_merge ^^ (length rs' - 1)) rs' = [(0, expectedLastSeqNo (the_sequencer t))]"
    by (rule ranges_merge_iterate [OF it(3) set]) simp
  then have "(ranges_merge ^^ Suc (length rs' - 1)) rs' = [(0, expectedLastSeqNo (the_sequencer t))]" by simp
  moreover have at: "1 < avail (seq_memory t)" using it(4) assms(4) by simp
  ultimately obtain S' where S': "(server_step L cl D)\<^sup>*\<^sup>* ?S2 S'" "\<not> rcv_running S'" "\<not> seq_running S'" "udp S' = udp ?S2"
      "outgoing (tcp S') (client_sd cl) = outgoing (tcp ?S2) (client_sd cl)
        @ ctrl_wire (ctrl UCP_FLAG_FIN (expectedLastSeqNo (the_sequencer (seqr ?S2))))"
    using sequencing_ends [of F ?S2 ps' rs' "length rs' - 1" QF L qs' cl D] it(2,3) at sv(1) k' assms(5) S1(4) by auto
  have "(server_step L cl D)\<^sup>*\<^sup>* S S'" using s1 s2 S'(1) by (meson converse_rtranclp_into_rtranclp)
  then show ?thesis using S'(2-5) S1(5) k' last(1) by (intro exI [of _ S']) (simp add: server_exit_def)
qed

text \<open>A disk that takes one byte only: nothing of the part \<open>[7, 8]\<close> is saved, and yet the server finishes.\<close>

theorem failed_save_finishes_transfer_witness:
  "\<exists>S'. (server_step 1 example_client {})\<^sup>*\<^sup>* ((example_server_state [7, 8])\<lparr>
        rcvr := (rcvr (example_server_state [7, 8]))\<lparr>recv_handle := zero_handle\<lparr>fp := Some ((example_file [])\<lparr>capacity := 1\<rparr>)\<rparr>\<rparr>,
        udp := (udp (example_server_state [7, 8]))\<lparr>inbox := [(zero_addr, data_wire (data_packet (file_packet [7, 8] 0)))]\<rparr>\<rparr>) S'
    \<and> outgoing (tcp S') 4 = ctrl_wire (ctrl UCP_FLAG_NACK 0) @ ctrl_wire (ctrl UCP_FLAG_FIN 0)
    \<and> server_exit example_client S' \<noteq> None"
proof -
  let ?S = "(example_server_state [7, 8])\<lparr>
        rcvr := (rcvr (example_server_state [7, 8]))\<lparr>recv_handle := zero_handle\<lparr>fp := Some ((example_file [])\<lparr>capacity := 1\<rparr>)\<rparr>\<rparr>,
        udp := (udp (example_server_state [7, 8]))\<lparr>inbox := [(zero_addr, data_wire (data_packet (file_packet [7, 8] 0)))]\<rparr>\<rparr>"
  have st: "server_start [7, 8] 1 example_client (example_server_state [7, 8])" by (rule example_server_start) simp
  note v = st [unfolded server_start_def]
  obtain QF F where q: "qrep QF 1 (seq_queue ?S) [] []" "srep F (seq_memory (seqr ?S)) (seq (the_sequencer (seqr ?S))) [] []"
    using v by auto
  have pc: "0 < packet_count [7, 8]" by (simp add: packet_count_def UDP_PACKET_DATA_SIZE_val)
  have S: "rcv_running ?S" "seq_running ?S" "1 < avail (seq_queue ?S)" "3 < avail (seq_memory (seqr ?S))"
      "can_send (tcp ?S) (client_sd example_client)" "expectedLastSeqNo (the_sequencer (seqr ?S)) = - 1"
      "outgoing (tcp ?S) (client_sd example_client) = []"
      "length (recv_buffer (rcvr ?S)) = UDP_PACKET_SIZE" "wf_packet (rcv_pkt (rcvr ?S))"
    using v by simp_all (simp_all add: example_server_state_def empty_queue_def)
  have rs: "ranges_ok []" "seqs [] = {m. m < of_nat 0}" by (simp_all add: ranges_ok_def)
  have ib: "inbox (udp ?S) = (zero_addr, data_wire (data_packet (file_packet [7, 8] 0))) # []" by simp
  have f: "fp (recv_handle (rcvr ?S)) = Some ((example_file [])\<lparr>capacity := 1\<rparr>)" by simp
  have "length (chunk [7, 8 :: u8] 0) = 2" by (simp add: chunk_def UDP_PACKET_DATA_SIZE_val)
  then have full: "\<not> takes_segment ((example_file [])\<lparr>capacity := 1\<rparr>) (0 * 9166) (length (chunk [7, 8] 0))"
    by (simp add: takes_segment_def)
  have len: "length [7 :: u8, 8] < 2 ^ 32" by simp
  show ?thesis
    using failed_save_finishes_transfer [OF S(1-5) q rs S(6) ib pc len S(8,9) f full, of "{}"] S(7)
    by (auto simp: example_client_def)
qed

text \<open>the second \<open>send_ctrl_packet\<close> of the file always faults, and so do the three functions that call it: its buffer of five bytes is too small for a
  control packet, the encoder's \<open>-1\<close> becomes the length \<open>2^64 - 1\<close>, and the send reads past the buffer.\<close>

theorem send_ctrl_packet_udp_faults:
  "send_ctrl_packet_udp alloc a n f u = None \<and> send_ack_udp alloc a n u = None \<and> send_nack_udp alloc a n u = None
    \<and> send_fin_udp alloc a n u = None"
proof -
  have "ucp_packet_encode (ucp_packet_init_ctrl alloc (ucast n) f) (Some (replicate 5 0)) 5
      = Some (- 1, Some (replicate 5 0))" for f
    by (auto simp: ucp_packet_init_ctrl_def ucp_packet_init_def ucp_packet_encode_def ucp_packet_encode_ctrl_data_def
        packet_enums Let_def)
  then have "send_ctrl_packet_udp alloc a n f u = None" for f
    by (simp add: send_ctrl_packet_udp_def udp_socket_send_def get_bytes_def unsigned_minus_1_eq_mask mask_eq_exp_minus_1)
  then show ?thesis by (simp add: send_ack_udp_def send_nack_udp_def send_fin_udp_def)
qed

text \<open>C31: a stray datagram acknowledges a packet again. After a packet of the part, a datagram of any length whose first byte names
  no type is not refused, and neither is one that is longer than the buffer and therefore cut: the packet that came before it
  is written to the file and put into the queue once more.\<close>

theorem stray_datagram_repeats_packet:
  assumes "inbox u = (from, data_wire (data_packet (file_packet b i))) # (stray, x # xs) # rest"
    and "x \<noteq> 1" "x \<noteq> 2" "x \<noteq> 3" "i < packet_count b" "length b < 2 ^ 32"
    and "length (recv_buffer r) = UDP_PACKET_SIZE" "wf_packet (rcv_pkt r)" "ready (recv_handle r) (length b) c" "written b I c"
    and "qrep F L s ps ys" "3 < avail s"
  shows "\<exists>r1 s1 u1 r2 s2 ps' c'. receiving_iteration L r s u = Some (True, r1, s1, u1)
    \<and> receiving_iteration L r1 s1 u1 = Some (True, r2, s2, u\<lparr>inbox := rest\<rparr>)
    \<and> ready (recv_handle r2) (length b) c' \<and> written b (insert i I) c'
    \<and> qrep F L s2 ps' (ys @ replicate 2 \<lparr>item_seq_no = of_nat i, item_flag = UCP_FLAG_ACK,
        item_is_last = (file_packet_flag b i = UCP_FLAG_DATA_END)\<rparr>)"
proof -
  have a: "1 < avail s" using assms(12) by simp
  from receiving_file_packet [OF assms(1,5-11) a] obtain r1 s1 ps1 c1 where
    1: "receiving_iteration L r s u = Some (True, r1, s1, u\<lparr>inbox := (stray, x # xs) # rest\<rparr>)"
      "length (recv_buffer r1) = UDP_PACKET_SIZE" "wf_packet (rcv_pkt r1)" "ready (recv_handle r1) (length b) c1"
      "written b (insert i I) c1" "qrep F L s1 ps1 (ys @ [\<lparr>item_seq_no = of_nat i, item_flag = UCP_FLAG_ACK,
        item_is_last = (file_packet_flag b i = UCP_FLAG_DATA_END)\<rparr>])" "avail s1 = avail s - 2"
      "pkt_type (rcv_pkt r1) = UCP_PACKET_TYPE_DATA" "same_data (data_packet (rcv_pkt r1)) (data_packet (file_packet b i))" by blast
  obtain h c' where h: "file_io_save_packet (recv_handle r1) (rcv_pkt r1) = Some (True, h)" "ready h (length b) c'"
      "written b (insert i I) c'"
    using save_file_packet [OF 1(4,5) assms(5,6) 1(3,9)] by auto
  have fields: "data_seq_no (data_packet (rcv_pkt r1)) = of_nat i" "data_flag (data_packet (rcv_pkt r1)) = file_packet_flag b i"
    using 1(9) by (simp_all add: same_data_def file_packet_fields)
  have a1: "1 < avail s1" using 1(7) assms(12) by simp
  have "inbox (u\<lparr>inbox := (stray, x # xs) # rest\<rparr>) = (stray, x # xs) # rest" by simp
  moreover have "recv_buffer r1 \<noteq> []" using 1(2) by (auto simp: UDP_PACKET_SIZE_val)
  ultimately obtain s2 ps2 where "receiving_iteration L r1 s1 (u\<lparr>inbox := (stray, x # xs) # rest\<rparr>)
        = Some (True, r1\<lparr>recv_buffer := take (length (recv_buffer r1)) (x # xs) @ drop (length (x # xs)) (recv_buffer r1),
            recv_handle := h\<rparr>, s2, u\<lparr>inbox := rest\<rparr>)"
      "qrep F L s2 ps2 ((ys @ [\<lparr>item_seq_no = of_nat i, item_flag = UCP_FLAG_ACK,
        item_is_last = (file_packet_flag b i = UCP_FLAG_DATA_END)\<rparr>]) @ [\<lparr>item_seq_no = of_nat i, item_flag = UCP_FLAG_ACK,
        item_is_last = (file_packet_flag b i = UCP_FLAG_DATA_END)\<rparr>])"
    using receiving_unknown [OF _ assms(2-4) _ 1(8) h(1) 1(6) a1] unfolding fields by fastforce
  with 1(1) h(2,3) show ?thesis
    by (intro exI [of _ r1] exI [of _ s1] exI [of _ "u\<lparr>inbox := (stray, x # xs) # rest\<rparr>"]
      exI [of _ "r1\<lparr>recv_buffer := take (length (recv_buffer r1)) (x # xs) @ drop (length (x # xs)) (recv_buffer r1), recv_handle := h\<rparr>"]
      exI [of _ s2] exI [of _ ps2] exI [of _ c']) (simp add: numeral_2_eq_2)
qed

theorem stray_datagram_repeats_packet_witness:
  "\<exists>r1 s1 u1 r2 s2 u2. receiving_iteration 1 (rcvr (example_server_state [7, 8])) empty_queue
      \<lparr>udp_next_sd = 3, udp_bind_ok = True, inbox = [(zero_addr, data_wire (data_packet (file_packet [7, 8] 0))),
        (zero_addr, 9 # replicate 20000 1)], sent = [], send_ok = True\<rparr> = Some (True, r1, s1, u1)
    \<and> receiving_iteration 1 r1 s1 u1 = Some (True, r2, s2, u2) \<and> inbox u2 = []"
proof -
  have st: "server_start [7, 8] 1 example_client (example_server_state [7, 8])" by (rule example_server_start) simp
  then obtain QF where q: "qrep QF 1 empty_queue [] []" by (auto simp: server_start_def example_server_state_def)
  have pc: "0 < packet_count [7, 8]" by (simp add: packet_count_def UDP_PACKET_DATA_SIZE_val)
  let ?r = "rcvr (example_server_state [7, 8])" and ?u = "\<lparr>udp_next_sd = 3, udp_bind_ok = True,
      inbox = [(zero_addr, data_wire (data_packet (file_packet [7, 8] 0))), (zero_addr, 9 # replicate 20000 1)],
      sent = [], send_ok = True\<rparr>"
  have r: "length (recv_buffer ?r) = UDP_PACKET_SIZE" "wf_packet (rcv_pkt ?r)"
      "ready (recv_handle ?r) (length [7 :: u8, 8]) (replicate (length [7 :: u8, 8]) 0)"
    using st by (simp_all add: server_start_def)
  have x: "inbox ?u = (zero_addr, data_wire (data_packet (file_packet [7, 8] 0))) # (zero_addr, 9 # replicate 20000 1) # []" by simp
  have n: "(9 :: u8) \<noteq> 1" "(9 :: u8) \<noteq> 2" "(9 :: u8) \<noteq> 3" "length [7 :: u8, 8] < 2 ^ 32" "3 < avail empty_queue"
    by (simp_all add: empty_queue_def)
  show ?thesis
    using stray_datagram_repeats_packet [OF x n(1-3) pc n(4) r written_zero q n(5)] by fastforce
qed

end
