(* ===== verification/Ucp_Client.thy ===== *)
theory Ucp_Client
  imports Linked_List File_IO Udp_Socket
begin

text \<open>
  \<open>ucp_client.c\<close>: the two lists of packets (in flight and pending), the choice of the next packet
  to send, the callback on the control packets of the server and the loop of \<open>block_thread\<close>, with what
  the operations do to the window of the client (its two lists and its position in the part).
  Both lists live in one heap with the packets they point to. The lists are global and shared by
  the threads of the program without a lock; the model runs one thread on them.
\<close>

subsection \<open>State\<close>

record client_mem = mem +
  packets :: "addr \<rightharpoonup> ucp_packet"

text \<open>The anchors of the two static lists.\<close>

definition in_flight_packet_list :: addr where "in_flight_packet_list = 1"
definition pending_packet_list :: addr where "pending_packet_list = 2"

text \<open>\<open>done\<close> and \<open>packet_count\<close> are static variables of the file.\<close>

record client =
  memory :: client_mem
  done_flag :: bool
  created :: int

subsection \<open>The packet lists\<close>

partial_function (option) find_packet_loop :: "client_mem \<Rightarrow> addr \<Rightarrow> u32 \<Rightarrow> addr \<Rightarrow> addr option" where
  "find_packet_loop s packet_list seq_no elem =
     (if elem \<noteq> packet_list then do {
        e \<leftarrow> elems s elem;
        packet \<leftarrow> packets s (obj e);
        if data_seq_no (data_packet packet) = seq_no then Some elem
        else find_packet_loop s packet_list seq_no (nxt e)
      } else Some NULL)"

definition find_packet :: "client_mem \<Rightarrow> addr \<Rightarrow> u32 \<Rightarrow> addr option" where
  "find_packet s packet_list seq_no = do {
     anchor \<leftarrow> elems s packet_list;
     find_packet_loop s packet_list seq_no (nxt anchor)
   }"

text \<open>
  \<open>file_io_get_next_packet\<close> with the packet it allocates placed in the heap: the result is its
  address, or NULL at the end of the part.
\<close>

definition new_file_packet ::
    "file_io_partition_handle \<Rightarrow> client_mem \<Rightarrow> (addr \<times> file_io_partition_handle \<times> client_mem) option" where
  "new_file_packet handle s = (case malloc s of (a, s') \<Rightarrow> do {
     (packet, handle) \<leftarrow> file_io_get_next_packet (a \<noteq> NULL) handle;
     case packet of
       None \<Rightarrow> Some (NULL, handle, s)
     | Some p \<Rightarrow> Some (a, handle, s'\<lparr>packets := (packets s')(a \<mapsto> p)\<rparr>)
   })"

text \<open>The pending packets first, then the file, then the oldest packet in flight once more.\<close>

definition get_next_packet ::
    "addr \<Rightarrow> addr \<Rightarrow> file_io_partition_handle \<Rightarrow> client \<Rightarrow> (addr \<times> file_io_partition_handle \<times> client) option" where
  "get_next_packet pending inflight handle c = do {
     let s = memory c;
     pending_empty \<leftarrow> LinkedListEmpty s pending;
     if \<not> pending_empty then do {
       elem \<leftarrow> LinkedListFirst s pending;
       e \<leftarrow> elems s elem;
       s \<leftarrow> LinkedListUnlink s pending elem;
       Some (obj e, handle, c\<lparr>memory := s\<rparr>)
     } else do {
       (file_packet, handle, s) \<leftarrow> new_file_packet handle s;
       if file_packet \<noteq> NULL then Some (file_packet, handle, c\<lparr>memory := s, created := created c + 1\<rparr>)
       else do {
         inflight_empty \<leftarrow> LinkedListEmpty s inflight;
         if \<not> inflight_empty then do {
           elem \<leftarrow> LinkedListFirst s inflight;
           e \<leftarrow> elems s elem;
           s \<leftarrow> LinkedListUnlink s inflight elem;
           Some (obj e, handle, c\<lparr>memory := s\<rparr>)
         } else Some (NULL, handle, c\<lparr>memory := s\<rparr>)
       }
     }
   }"

text \<open>
  The receive callback of the TCP server. \<open>rsp_pkt\<close> is the uninitialised local of that name. It
  decodes the head of the segment only. An acknowledged packet is unlinked and its memory is kept.
\<close>

definition on_ack_received :: "ucp_packet \<Rightarrow> client on_rx" where
  "on_ack_received rsp_pkt dest res_sgmnt c = do {
     pkt \<leftarrow> ucp_packet_decode (Some (sgmnt_data res_sgmnt)) (of_int (data_len res_sgmnt)) (Some rsp_pkt);
     rsp_pkt \<leftarrow> pkt;
     if pkt_type rsp_pkt = UCP_PACKET_TYPE_CTRL then
       if ctrl_flag (ctrl_packet rsp_pkt) = UCP_FLAG_ACK then do {
         elem \<leftarrow> find_packet (memory c) in_flight_packet_list (ctrl_seq_no (ctrl_packet rsp_pkt));
         if elem \<noteq> NULL then do {
           s \<leftarrow> LinkedListUnlink (memory c) in_flight_packet_list elem;
           Some (c\<lparr>memory := s\<rparr>)
         } else Some c
       }
       else if ctrl_flag (ctrl_packet rsp_pkt) = UCP_FLAG_NACK then do {
         elem \<leftarrow> find_packet (memory c) in_flight_packet_list (ctrl_seq_no (ctrl_packet rsp_pkt));
         if elem \<noteq> NULL then do {
           e \<leftarrow> elems (memory c) elem;
           (_, s) \<leftarrow> LinkedListAppend (memory c) pending_packet_list (obj e);
           s \<leftarrow> LinkedListUnlink s in_flight_packet_list elem;
           Some (c\<lparr>memory := s\<rparr>)
         } else Some c
       }
       else if ctrl_flag (ctrl_packet rsp_pkt) = UCP_FLAG_FIN then Some (c\<lparr>done_flag := True\<rparr>)
       else Some c
     else Some c
   }"

subsection \<open>The sending loop\<close>

record sender =
  client_state :: client
  sender_handle :: file_io_partition_handle
  send_buffer :: "u8 list"
  ack_server :: tcp_server

text \<open>
  One iteration of the loop of \<open>block_thread\<close>, its condition included: the flag says whether the
  loop goes on. \<open>garbage\<close> is what the callback's local holds.
\<close>

definition block_iteration ::
    "ucp_packet \<Rightarrow> sockaddr_in \<Rightarrow> sender \<Rightarrow> udp_net \<Rightarrow> kernel \<Rightarrow> (bool \<times> sender \<times> udp_net \<times> kernel) option" where
  "block_iteration garbage remote_addr S u k = do {
     (packet, h, c) \<leftarrow> get_next_packet pending_packet_list in_flight_packet_list (sender_handle S) (client_state S);
     let S = S\<lparr>sender_handle := h, client_state := c\<rparr>;
     if packet \<noteq> NULL then do {
       p \<leftarrow> packets (memory c) packet;
       (len, buf) \<leftarrow> ucp_packet_encode (Some p) (Some (send_buffer S)) (of_nat (length (send_buffer S)));
       buf \<leftarrow> buf;
       (_, u) \<leftarrow> udp_socket_send remote_addr buf len u;
       (_, s) \<leftarrow> LinkedListAppend (memory c) in_flight_packet_list packet;
       (srv, k, c) \<leftarrow> tcp_server_tick (on_ack_received garbage) (Some (ack_server S)) k (c\<lparr>memory := s\<rparr>);
       srv \<leftarrow> srv;
       Some (\<not> done_flag c, S\<lparr>client_state := c, send_buffer := buf, ack_server := srv\<rparr>, u, k)
     } else Some (False, S, u, k)
   }"

subsection \<open>The two lists, abstractly\<close>

definition seq_of :: "ucp_packet \<Rightarrow> u32" where
  "seq_of p = data_seq_no (data_packet p)"

text \<open>
  Two lists in one heap: the ring of \<open>A\<close> carries the packets \<open>xs\<close> and that of \<open>B\<close> the packets \<open>ys\<close>.
\<close>

definition two_lists :: "client_mem \<Rightarrow> addr \<Rightarrow> (addr \<times> addr) list \<Rightarrow> ucp_packet list
    \<Rightarrow> addr \<Rightarrow> (addr \<times> addr) list \<Rightarrow> ucp_packet list \<Rightarrow> bool" where
  "two_lists s A ps xs B qs ys \<longleftrightarrow> dll (elems s) A ps \<and> dll (elems s) B qs \<and> addrs A ps \<inter> addrs B qs = {}
     \<and> map (\<lambda>p. packets s (snd p)) ps = map Some xs \<and> map (\<lambda>p. packets s (snd p)) qs = map Some ys
     \<and> wf_mem s \<and> dom (packets s) \<subseteq> {0<..<brk s}"

lemma two_lists_swap: "two_lists s A ps xs B qs ys \<Longrightarrow> two_lists s B qs ys A ps xs"
  unfolding two_lists_def by blast

lemma wf_mem_packets [simp]: "wf_mem (s\<lparr>packets := I\<rparr>) = wf_mem (s :: client_mem)"
  by (simp add: wf_mem_def)

lemma two_lists_append:
  assumes r: "two_lists s A ps xs B qs ys" and p: "packets s ob = Some p" and a: "0 < avail s"
  shows "\<exists>s' n. LinkedListAppend s A ob = Some (True, s') \<and> two_lists s' A (ps @ [(n, ob)]) (xs @ [p]) B qs ys
    \<and> avail s' = avail s - 1 \<and> packets s' = packets s"
proof -
  note v = r [unfolded two_lists_def]
  obtain s' where s': "LinkedListAppend s A ob = Some (True, s')" "ll_added s A (addrs A ps) s'"
      "dll (elems s') A (ps @ [(brk s, ob)])"
    using Append_dll [of s A ps ob] v a by blast
  obtain E where E: "s' = s\<lparr>brk := Suc (brk s), avail := avail s - 1, elems := E,
      members := (members s)(A := members s A + 1)\<rparr>" "\<forall>p. p \<notin> insert (brk s) (addrs A ps) \<longrightarrow> E p = elems s p"
    using s'(2) unfolding ll_added_def by blast
  have new: "brk s \<notin> addrs B qs" using dll_dom [of "elems s" B qs "brk s"] v wf_mem_fresh [of s] by metis
  have same: "E w = elems s w" if "w \<in> addrs B qs" for w
  proof -
    have "w \<notin> addrs A ps" using that v by blast
    moreover have "w \<noteq> brk s" using that new by blast
    ultimately show ?thesis using E(2) by blast
  qed
  have "dll E B qs = dll (elems s) B qs" by (rule dll_cong) (rule same)
  moreover have "addrs A (ps @ [(brk s, ob)]) \<inter> addrs B qs = {}" using v new by auto
  moreover have "dom (packets s) \<subseteq> {0<..<Suc (brk s)}" using v by auto
  ultimately have "two_lists s' A (ps @ [(brk s, ob)]) (xs @ [p]) B qs ys"
    using s'(3) v p ll_added_wf [OF _ s'(2)] unfolding two_lists_def E(1) by simp
  then show ?thesis using s'(1) E(1) by auto
qed

lemma two_lists_unlink:
  assumes r: "two_lists s A (ps1 @ (e, ob) # ps2) (xs1 @ x # xs2) B qs ys" and l: "length ps1 = length xs1"
  shows "\<exists>s'. LinkedListUnlink s A e = Some s' \<and> two_lists s' A (ps1 @ ps2) (xs1 @ xs2) B qs ys
    \<and> avail s' = avail s \<and> packets s' = packets s \<and> packets s ob = Some x"
proof -
  note v = r [unfolded two_lists_def]
  have pk: "map (\<lambda>p. packets s (snd p)) ps1 = map Some xs1" "packets s ob = Some x"
      "map (\<lambda>p. packets s (snd p)) ps2 = map Some xs2"
    using v l by simp_all
  obtain s' where s': "LinkedListUnlink s A e = Some s'" "ll_removed s A (addrs A (ps1 @ (e, ob) # ps2)) e s'"
      "dll (elems s') A (ps1 @ ps2)"
    using Unlink_dll [of s A ps1 e ob ps2] v by blast
  obtain E where E: "s' = s\<lparr>elems := E, members := (members s)(A := members s A - 1)\<rparr>"
      "\<forall>p. p \<notin> insert e (addrs A (ps1 @ (e, ob) # ps2)) \<longrightarrow> E p = elems s p"
    using s'(2) unfolding ll_removed_def by blast
  have same: "E w = elems s w" if "w \<in> addrs B qs" for w
  proof -
    have "w \<notin> addrs A (ps1 @ (e, ob) # ps2)" using that v by blast
    then show ?thesis using E(2) by auto
  qed
  have "dll E B qs = dll (elems s) B qs" by (rule dll_cong) (rule same)
  moreover have "addrs A (ps1 @ ps2) \<inter> addrs B qs = {}" using v by auto
  ultimately have "two_lists s' A (ps1 @ ps2) (xs1 @ xs2) B qs ys"
    using s'(3) v pk ll_removed_wf [OF _ s'(2)] unfolding two_lists_def E(1) by simp
  then show ?thesis using s'(1) E(1) pk(2) by auto
qed

lemma two_lists_new_packet:
  assumes r: "two_lists s A ps xs B qs ys" and a: "0 < avail s"
  shows "malloc s = (brk s, s\<lparr>brk := Suc (brk s), avail := avail s - 1\<rparr>)" "brk s \<noteq> NULL"
    and "two_lists (s\<lparr>brk := Suc (brk s), avail := avail s - 1, packets := (packets s)(brk s \<mapsto> p)\<rparr>) A ps xs B qs ys"
proof -
  note v = r [unfolded two_lists_def]
  show "malloc s = (brk s, s\<lparr>brk := Suc (brk s), avail := avail s - 1\<rparr>)" "brk s \<noteq> NULL"
    using a v by (auto simp: malloc_def wf_mem_def)
  have fresh: "packets s (brk s) = None" using v by auto
  have other: "map (\<lambda>p. ((packets s)(brk s \<mapsto> q)) (snd p)) zs = map (\<lambda>p. packets s (snd p)) zs"
    if "map (\<lambda>p. packets s (snd p)) zs = map Some us" for zs :: "(addr \<times> addr) list" and us q
  proof (rule map_cong [OF refl])
    fix z assume "z \<in> set zs"
    then have "packets s (snd z) \<in> set (map Some us)" unfolding that [symmetric] by simp
    then show "((packets s)(brk s \<mapsto> q)) (snd z) = packets s (snd z)" using fresh by auto
  qed
  have "map (\<lambda>p. ((packets s)(brk s \<mapsto> p')) (snd p)) ps = map Some xs"
      "map (\<lambda>p. ((packets s)(brk s \<mapsto> p')) (snd p)) qs = map Some ys" for p'
    using v other by metis+
  moreover have "dom ((packets s)(brk s \<mapsto> p)) \<subseteq> {0<..<Suc (brk s)}" using v by (auto simp: wf_mem_def)
  moreover have "wf_mem (s\<lparr>brk := Suc (brk s), avail := avail s - 1\<rparr>)" using v by (auto simp: wf_mem_def)
  ultimately show "two_lists (s\<lparr>brk := Suc (brk s), avail := avail s - 1, packets := (packets s)(brk s \<mapsto> p)\<rparr>) A ps xs B qs ys"
    using v by (simp add: two_lists_def del: fun_upd_apply)
qed

subsection \<open>Searching\<close>

text \<open>\<open>split_first n xs\<close>: the packets before the first one numbered \<open>n\<close>, that packet, and those after it.\<close>

fun split_first :: "u32 \<Rightarrow> ucp_packet list \<Rightarrow> (ucp_packet list \<times> ucp_packet \<times> ucp_packet list) option" where
  "split_first n [] = None"
| "split_first n (x # xs) = (if seq_of x = n then Some ([], x, xs)
     else map_option (\<lambda>(us, y, vs). (x # us, y, vs)) (split_first n xs))"

lemma split_first_Some: "split_first n xs = Some (us, y, vs) \<longleftrightarrow>
    xs = us @ y # vs \<and> seq_of y = n \<and> (\<forall>u \<in> set us. seq_of u \<noteq> n)"
proof (induction xs arbitrary: us)
  case (Cons x xs)
  show ?case
  proof (cases us)
    case (Cons u us')
    then show ?thesis using Cons.IH [of us'] by (auto split: if_splits)
  qed (auto split: if_splits)
qed simp

lemma split_first_None: "split_first n xs = None \<longleftrightarrow> n \<notin> seq_of ` set xs"
  by (induction xs) auto

lemma find_packet_loop_from:
  assumes "dll (elems s) A (as @ bs)" "map (\<lambda>p. packets s (snd p)) bs = map Some ys"
  shows "find_packet_loop s A n (case bs of [] \<Rightarrow> A | (q, _) # _ \<Rightarrow> q) = Some (case split_first n ys of
      None \<Rightarrow> NULL | Some (us, _, _) \<Rightarrow> fst (bs ! length us))"
  using assms
proof (induction bs arbitrary: as ys)
  case Nil
  then show ?case by (simp add: find_packet_loop.simps)
next
  case (Cons b bs)
  obtain q ob where b: "b = (q, ob)" by (cases b)
  obtain y ys' where y: "ys = y # ys'" "packets s ob = Some y" "map (\<lambda>p. packets s (snd p)) bs = map Some ys'"
    using Cons.prems(2) b by (cases ys) auto
  have d: "dll (elems s) A (as @ (q, ob) # bs)" using Cons.prems(1) b by simp
  obtain e where e: "elems s q = Some e" "obj e = ob" "nxt e = hd (map fst bs @ [A])" using dll_at [OF d] by auto
  have nx: "hd (map fst bs @ [A]) = (case bs of [] \<Rightarrow> A | (q, _) # _ \<Rightarrow> q)" by (cases bs) auto
  have "dll (elems s) A ((as @ [b]) @ bs)" using Cons.prems(1) by simp
  from Cons.IH [OF this y(3)] have IH: "find_packet_loop s A n (nxt e) = Some (case split_first n ys' of
      None \<Rightarrow> NULL | Some (us, _, _) \<Rightarrow> fst (bs ! length us))" unfolding e(3) nx .
  have "q \<noteq> A" using dll_elem_not_NULL [OF d] by simp
  then show ?case using e(1,2) y IH b
    by (subst find_packet_loop.simps) (auto simp: seq_of_def split: option.splits)
qed

lemma find_packet_two:
  assumes "two_lists s A ps xs B qs ys"
  shows "find_packet s A n = Some (case split_first n xs of None \<Rightarrow> NULL | Some (us, _, _) \<Rightarrow> fst (ps ! length us))"
proof -
  note v = assms [unfolded two_lists_def]
  obtain a where a: "elems s A = Some a" "nxt a = hd (map fst ps @ [A])" using v dll_anchor by blast
  have "hd (map fst ps @ [A]) = (case ps of [] \<Rightarrow> A | (q, _) # _ \<Rightarrow> q)" by (cases ps) auto
  then show ?thesis
    using find_packet_loop_from [of s A "[]" ps xs n] v a by (simp add: find_packet_def)
qed

text \<open>The search, with what the caller needs for unlinking the element found.\<close>

lemma find_packet_found:
  assumes r: "two_lists s A ps xs B qs ys" and f: "split_first n xs = Some (us, y, vs)"
  shows "\<exists>ps1 e ob ps2. find_packet s A n = Some e \<and> ps = ps1 @ (e, ob) # ps2 \<and> length ps1 = length us \<and> e \<noteq> NULL
    \<and> (\<exists>c. elems s e = Some c \<and> obj c = ob) \<and> packets s ob = Some y"
proof -
  note v = r [unfolded two_lists_def]
  have xs: "xs = us @ y # vs" using f by (simp add: split_first_Some)
  have "length ps = length xs" using v map_eq_imp_length_eq [of _ ps Some xs] by blast
  then have l: "length us < length ps" using xs by simp
  obtain e ob where e: "ps ! length us = (e, ob)" by (cases "ps ! length us")
  define ps1 ps2 where "ps1 = take (length us) ps" and "ps2 = drop (Suc (length us)) ps"
  have ps: "ps = ps1 @ (e, ob) # ps2" "length ps1 = length us"
    using id_take_nth_drop [OF l] e l by (simp_all add: ps1_def ps2_def)
  have d: "dll (elems s) A (ps1 @ (e, ob) # ps2)" using v ps(1) by simp
  have "packets s ob = Some y" using v ps xs by simp
  moreover have "find_packet s A n = Some e" using find_packet_two [OF r, of n] f e by simp
  ultimately show ?thesis using ps dll_at [OF d] dll_elem_not_NULL [OF d] by blast
qed

subsection \<open>What the operations do to the lists\<close>

abbreviation crep :: "client_mem \<Rightarrow> ucp_packet list \<Rightarrow> ucp_packet list \<Rightarrow> bool" where
  "crep s pend infl \<equiv> (\<exists>ps qs. two_lists s pending_packet_list ps pend in_flight_packet_list qs infl)"

text \<open>\<open>file_io_get_next_packet\<close> seen from the client: the next packet of the part \<open>b\<close> is packet \<open>j\<close>.\<close>

definition reading :: "file_io_partition_handle \<Rightarrow> u8 list \<Rightarrow> nat \<Rightarrow> bool" where
  "reading h b j \<longleftrightarrow> j \<le> packet_count b \<and> (\<exists>f. fp h = Some f \<and> bytes f = b
     \<and> pos f = min (j * UDP_PACKET_DATA_SIZE) (length b)
     \<and> (j < packet_count b \<longrightarrow> last_seq_no h = of_nat j \<and> \<not> eof f))"

lemma reading_fresh: "fresh_handle h b \<Longrightarrow> reading h b 0"
  by (auto simp: reading_def fresh_handle_def)

lemma reading_packet:
  assumes "reading h b j" "length b < 2 ^ 32" "j < packet_count b"
  shows "\<exists>h'. file_io_get_next_packet True h = Some (Some (file_packet b j), h') \<and> reading h' b (Suc j)"
proof -
  obtain f where f: "fp h = Some f" "bytes f = b" "pos f = min (j * UDP_PACKET_DATA_SIZE) (length b)"
      "last_seq_no h = of_nat j" "\<not> eof f"
    using assms(1,3) by (auto simp: reading_def)
  have kl: "j * UDP_PACKET_DATA_SIZE < length b" using assms(3) by (simp add: packet_count_iff)
  define f1 where "f1 = f\<lparr>pos := j * UDP_PACKET_DATA_SIZE + length (chunk b j), eof := length (chunk b j) < UDP_PACKET_DATA_SIZE\<rparr>"
  have np: "file_io_get_next_packet True h
      = Some (Some (file_packet b j), h\<lparr>fp := Some f1, last_seq_no := of_nat (Suc j)\<rparr>)"
    using next_packet [of h f j] f assms(2,3) kl by (simp add: f1_def)
  have lc: "length (chunk b j) = min UDP_PACKET_DATA_SIZE (length b - j * UDP_PACKET_DATA_SIZE)"
    by (simp add: chunk_def min.commute)
  have "Suc j < packet_count b \<longrightarrow> \<not> eof f1"
    using packet_count_iff [of "Suc j" b] lc by (auto simp: f1_def)
  moreover have "pos f1 = min (Suc j * UDP_PACKET_DATA_SIZE) (length b)" "bytes f1 = b"
    using lc kl f(2) by (simp_all add: f1_def)
  ultimately have "reading (h\<lparr>fp := Some f1, last_seq_no := of_nat (Suc j)\<rparr>) b (Suc j)"
    using assms(3) by (simp add: reading_def)
  with np show ?thesis by blast
qed

lemma reading_end:
  assumes "reading h b j" "\<not> j < packet_count b"
  shows "\<exists>h'. file_io_get_next_packet alloc h = Some (None, h') \<and> reading h' b j"
proof -
  obtain f where f: "fp h = Some f" "bytes f = b" "pos f = min (j * UDP_PACKET_DATA_SIZE) (length b)"
    using assms(1) by (auto simp: reading_def)
  have "length b \<le> j * UDP_PACKET_DATA_SIZE" using assms(2) packet_count_iff [of j b] by simp
  then have p: "pos f = length b" using f(3) by simp
  have "file_io_get_next_packet alloc h = Some (None, h\<lparr>fp := Some (f\<lparr>eof := True\<rparr>)\<rparr>)"
    using f p by (simp add: file_io_get_next_packet_def fread_def put_bytes_def Let_def UDP_PACKET_DATA_SIZE_val)
  moreover have "reading (h\<lparr>fp := Some (f\<lparr>eof := True\<rparr>)\<rparr>) b j"
    using assms f by (auto simp: reading_def)
  ultimately show ?thesis by blast
qed

text \<open>
  The window of the client: how many packets of the part it has read, those to send again first, and
  those in flight.
\<close>

record window =
  w_read :: nat
  w_pend :: "ucp_packet list"
  w_infl :: "ucp_packet list"

definition wrep :: "client_mem \<Rightarrow> file_io_partition_handle \<Rightarrow> u8 list \<Rightarrow> window \<Rightarrow> bool" where
  "wrep s h b w \<longleftrightarrow> crep s (w_pend w) (w_infl w) \<and> reading h b (w_read w)"

definition win_next :: "u8 list \<Rightarrow> window \<Rightarrow> ucp_packet option \<times> window" where
  "win_next b w = (case w_pend w of
     p # ps \<Rightarrow> (Some p, w\<lparr>w_pend := ps\<rparr>)
   | [] \<Rightarrow> if w_read w < packet_count b then (Some (file_packet b (w_read w)), w\<lparr>w_read := Suc (w_read w)\<rparr>)
          else (case w_infl w of p # qs \<Rightarrow> (Some p, w\<lparr>w_infl := qs\<rparr>) | [] \<Rightarrow> (None, w)))"

definition win_sent :: "ucp_packet \<Rightarrow> window \<Rightarrow> window" where
  "win_sent p w = w\<lparr>w_infl := w_infl w @ [p]\<rparr>"

definition win_ctrl :: "ucp_ctrl_packet \<Rightarrow> window \<Rightarrow> window" where
  "win_ctrl m w = (if ctrl_flag m = UCP_FLAG_ACK \<or> ctrl_flag m = UCP_FLAG_NACK then
       (case split_first (ctrl_seq_no m) (w_infl w) of
          None \<Rightarrow> w
        | Some (us, y, vs) \<Rightarrow> w\<lparr>w_infl := us @ vs,
            w_pend := (if ctrl_flag m = UCP_FLAG_NACK then w_pend w @ [y] else w_pend w)\<rparr>)
     else w)"

lemma Empty_two: "two_lists s A ps xs B qs ys \<Longrightarrow> LinkedListEmpty s A = Some (xs = [])"
  using Empty_dll [of s A ps] by (auto simp: two_lists_def)

lemma take_head:
  assumes r: "two_lists s A ps (x # xs) B qs ys"
  shows "\<exists>e el s' ps'. LinkedListFirst s A = Some e \<and> elems s e = Some el \<and> LinkedListUnlink s A e = Some s'
    \<and> two_lists s' A ps' xs B qs ys \<and> avail s' = avail s \<and> packets s' = packets s \<and> packets s (obj el) = Some x
    \<and> obj el \<noteq> NULL"
proof -
  note v = r [unfolded two_lists_def]
  obtain e ob ps' where ps: "ps = (e, ob) # ps'" using v by (cases ps) auto
  have d: "dll (elems s) A ([] @ (e, ob) # ps')" using v ps by simp
  obtain el where el: "elems s e = Some el" "obj el = ob" using dll_at [OF d] by auto
  have f: "LinkedListFirst s A = Some e" using First_dll [of s A ps] v ps by simp
  obtain s' where s': "LinkedListUnlink s A e = Some s'" "two_lists s' A ps' xs B qs ys" "avail s' = avail s"
      "packets s' = packets s" "packets s ob = Some x"
    using two_lists_unlink [of s A "[]" e ob ps' "[]" x xs B qs ys] r ps by auto
  have "ob \<in> dom (packets s)" using s'(5) by blast
  then have "ob \<noteq> NULL" using v by auto
  with f el s' show ?thesis by blast
qed

text \<open>The call of \<open>get_next_packet\<close> does to the state what \<open>win_next\<close> does to the window.\<close>

definition next_refined :: "client \<Rightarrow> file_io_partition_handle \<Rightarrow> u8 list \<Rightarrow> window \<Rightarrow> bool" where
  "next_refined c h b w \<longleftrightarrow> (\<exists>p h' c'. get_next_packet pending_packet_list in_flight_packet_list h c = Some (p, h', c')
     \<and> wrep (memory c') h' b (snd (win_next b w)) \<and> avail (memory c) - 1 \<le> avail (memory c')
     \<and> done_flag c' = done_flag c
     \<and> (case fst (win_next b w) of None \<Rightarrow> p = NULL | Some x \<Rightarrow> p \<noteq> NULL \<and> packets (memory c') p = Some x))"

lemma next_pending:
  assumes r: "two_lists (memory c) pending_packet_list ps (x # xs) in_flight_packet_list qs (w_infl w)"
    and rd: "reading h b (w_read w)" and pend: "w_pend w = x # xs"
  shows "next_refined c h b w"
proof -
  obtain e el s' ps' where t: "LinkedListFirst (memory c) pending_packet_list = Some e" "elems (memory c) e = Some el"
      "LinkedListUnlink (memory c) pending_packet_list e = Some s'"
      "two_lists s' pending_packet_list ps' xs in_flight_packet_list qs (w_infl w)"
      "avail s' = avail (memory c)" "packets s' = packets (memory c)" "packets (memory c) (obj el) = Some x" "obj el \<noteq> NULL"
    using take_head [OF r] by blast
  have "get_next_packet pending_packet_list in_flight_packet_list h c = Some (obj el, h, c\<lparr>memory := s'\<rparr>)"
    using Empty_two [OF r] t(1-3) by (simp add: get_next_packet_def)
  moreover have "wrep s' h b (w\<lparr>w_pend := xs\<rparr>)" using t(4) rd unfolding wrep_def by auto
  ultimately show ?thesis using t(5-8) pend unfolding next_refined_def
    by (intro exI [of _ "obj el"] exI [of _ h] exI [of _ "c\<lparr>memory := s'\<rparr>"]) (simp add: win_next_def)
qed

lemma next_new:
  assumes r: "two_lists (memory c) pending_packet_list ps [] in_flight_packet_list qs (w_infl w)" and rd: "reading h b (w_read w)"
    and len: "length b < 2 ^ 32" and a: "0 < avail (memory c)" and more: "w_pend w = []" "w_read w < packet_count b"
  shows "next_refined c h b w"
proof -
  note m = two_lists_new_packet [OF r a]
  obtain h' where h': "file_io_get_next_packet True h = Some (Some (file_packet b (w_read w)), h')" "reading h' b (Suc (w_read w))"
    using reading_packet [OF rd len more(2)] by blast
  define s' where "s' = (memory c)\<lparr>brk := Suc (brk (memory c)), avail := avail (memory c) - 1,
      packets := (packets (memory c))(brk (memory c) \<mapsto> file_packet b (w_read w))\<rparr>"
  have "new_file_packet h (memory c) = Some (brk (memory c), h', s')"
    using m(1,2) h'(1) by (simp add: new_file_packet_def s'_def)
  then have "get_next_packet pending_packet_list in_flight_packet_list h c
      = Some (brk (memory c), h', c\<lparr>memory := s', created := created c + 1\<rparr>)"
    using Empty_two [OF r] m(2) by (simp add: get_next_packet_def)
  moreover have "wrep s' h' b (w\<lparr>w_read := Suc (w_read w)\<rparr>)"
    using m(3) [of "file_packet b (w_read w)"] h'(2) more(1) unfolding wrep_def s'_def by auto
  ultimately show ?thesis using more m(2) unfolding next_refined_def
    by (intro exI [of _ "brk (memory c)"] exI [of _ h'] exI [of _ "c\<lparr>memory := s', created := created c + 1\<rparr>"])
      (simp add: win_next_def s'_def)
qed

lemma next_in_flight:
  assumes r: "two_lists (memory c) pending_packet_list ps [] in_flight_packet_list qs (w_infl w)" and rd: "reading h b (w_read w)"
    and a: "0 < avail (memory c)" and over: "w_pend w = []" "\<not> w_read w < packet_count b"
  shows "next_refined c h b w"
proof -
  obtain h' where h': "file_io_get_next_packet True h = Some (None, h')" "reading h' b (w_read w)"
    using reading_end [OF rd over(2)] by blast
  have nf: "new_file_packet h (memory c) = Some (NULL, h', memory c)"
    using two_lists_new_packet(1,2) [OF r a] h'(1) by (simp add: new_file_packet_def)
  note em = Empty_two [OF r] Empty_two [OF two_lists_swap [OF r]]
  show ?thesis
  proof (cases "w_infl w")
    case (Cons x xs)
    obtain e el s' qs' where t: "LinkedListFirst (memory c) in_flight_packet_list = Some e" "elems (memory c) e = Some el"
        "LinkedListUnlink (memory c) in_flight_packet_list e = Some s'"
        "two_lists s' in_flight_packet_list qs' xs pending_packet_list ps []"
        "avail s' = avail (memory c)" "packets s' = packets (memory c)" "packets (memory c) (obj el) = Some x" "obj el \<noteq> NULL"
      using take_head [OF two_lists_swap [OF r, unfolded Cons]] by blast
    have "get_next_packet pending_packet_list in_flight_packet_list h c = Some (obj el, h', c\<lparr>memory := s'\<rparr>)"
      using em nf t(1-3) Cons by (simp add: get_next_packet_def)
    moreover have "wrep s' h' b (w\<lparr>w_infl := xs\<rparr>)"
      using two_lists_swap [OF t(4)] h'(2) over(1) unfolding wrep_def by auto
    ultimately show ?thesis using t(5-8) over Cons unfolding next_refined_def
      by (intro exI [of _ "obj el"] exI [of _ h'] exI [of _ "c\<lparr>memory := s'\<rparr>"]) (simp add: win_next_def)
  next
    case Nil
    have "get_next_packet pending_packet_list in_flight_packet_list h c = Some (NULL, h', c\<lparr>memory := memory c\<rparr>)"
      using em nf Nil by (simp add: get_next_packet_def)
    then show ?thesis using r h'(2) over Nil unfolding next_refined_def
      by (intro exI [of _ NULL] exI [of _ h'] exI [of _ c]) (auto simp: win_next_def wrep_def)
  qed
qed

lemma get_next_refines:
  assumes w: "wrep (memory c) h b w" and len: "length b < 2 ^ 32" and a: "0 < avail (memory c)"
  shows "\<exists>p h' c'. get_next_packet pending_packet_list in_flight_packet_list h c = Some (p, h', c')
    \<and> wrep (memory c') h' b (snd (win_next b w)) \<and> avail (memory c) - 1 \<le> avail (memory c')
    \<and> done_flag c' = done_flag c
    \<and> (case fst (win_next b w) of None \<Rightarrow> p = NULL | Some x \<Rightarrow> p \<noteq> NULL \<and> packets (memory c') p = Some x)"
proof -
  obtain ps qs where r: "two_lists (memory c) pending_packet_list ps (w_pend w) in_flight_packet_list qs (w_infl w)"
    and rd: "reading h b (w_read w)" using w unfolding wrep_def by blast
  have "next_refined c h b w"
    using next_pending [OF _ rd] next_new [OF _ rd len a] next_in_flight [OF _ rd a] r by (cases "w_pend w") auto
  then show ?thesis unfolding next_refined_def .
qed

text \<open>What \<open>on_ack_received\<close> does with a decoded control packet, and the window with it.\<close>

definition ack_refined ::
    "ucp_packet \<Rightarrow> tcp_endpoint option \<Rightarrow> tcp_sgmnt \<Rightarrow> client \<Rightarrow> file_io_partition_handle \<Rightarrow> u8 list \<Rightarrow> ucp_ctrl_packet \<Rightarrow> window \<Rightarrow> bool" where
  "ack_refined garbage ep g c h b m w \<longleftrightarrow> (\<exists>c'. on_ack_received garbage ep g c = Some c'
     \<and> wrep (memory c') h b (win_ctrl m w) \<and> done_flag c' = (done_flag c \<or> ctrl_flag m = UCP_FLAG_FIN)
     \<and> avail (memory c) - 1 \<le> avail (memory c'))"

definition decodes :: "ucp_packet \<Rightarrow> tcp_sgmnt \<Rightarrow> ucp_ctrl_packet \<Rightarrow> bool" where
  "decodes garbage g m \<longleftrightarrow> ucp_packet_decode (Some (sgmnt_data g)) (of_int (data_len g)) (Some garbage)
     = Some (Some (garbage\<lparr>pkt_type := UCP_PACKET_TYPE_CTRL, ctrl_packet := m\<rparr>))"

lemma ack_ignored:
  assumes w: "wrep (memory c) h b w" and dec: "decodes garbage g m"
    and no: "\<not> ((ctrl_flag m = UCP_FLAG_ACK \<or> ctrl_flag m = UCP_FLAG_NACK) \<and> split_first (ctrl_seq_no m) (w_infl w) \<noteq> None)"
  shows "ack_refined garbage ep g c h b m w"
proof -
  obtain ps qs where r: "two_lists (memory c) pending_packet_list ps (w_pend w) in_flight_packet_list qs (w_infl w)"
    using w unfolding wrep_def by blast
  have "on_ack_received garbage ep g c = Some (if ctrl_flag m = UCP_FLAG_FIN then c\<lparr>done_flag := True\<rparr> else c)"
  proof (cases "split_first (ctrl_seq_no m) (w_infl w)")
    case None
    then have "find_packet (memory c) in_flight_packet_list (ctrl_seq_no m) = Some NULL"
      using find_packet_two [OF two_lists_swap [OF r], of "ctrl_seq_no m"] by simp
    then show ?thesis using dec by (simp add: on_ack_received_def decodes_def packet_enums)
  next
    case (Some x)
    then show ?thesis using no dec by (simp add: on_ack_received_def decodes_def packet_enums)
  qed
  moreover have "win_ctrl m w = w" using no by (auto simp: win_ctrl_def split: option.splits)
  ultimately show ?thesis using w by (simp add: ack_refined_def)
qed

lemma nack_refines:
  assumes r: "two_lists (memory c) pending_packet_list ps (w_pend w) in_flight_packet_list qs (w_infl w)"
    and rd: "reading h b (w_read w)" and dec: "decodes garbage g m" and a: "0 < avail (memory c)"
    and fl: "ctrl_flag m = UCP_FLAG_NACK" and sp: "split_first (ctrl_seq_no m) (w_infl w) = Some (us, y, vs)" "w_infl w = us @ y # vs"
  shows "ack_refined garbage ep g c h b m w"
proof -
  obtain qs1 e ob qs2 where f: "find_packet (memory c) in_flight_packet_list (ctrl_seq_no m) = Some e"
      "qs = qs1 @ (e, ob) # qs2" "length qs1 = length us" "e \<noteq> NULL"
      "\<exists>el. elems (memory c) e = Some el \<and> obj el = ob" "packets (memory c) ob = Some y"
    using find_packet_found [OF two_lists_swap [OF r] sp(1)] by blast
  obtain s1 n1 where s1: "LinkedListAppend (memory c) pending_packet_list ob = Some (True, s1)"
      "two_lists s1 pending_packet_list (ps @ [(n1, ob)]) (w_pend w @ [y]) in_flight_packet_list qs (w_infl w)"
      "avail s1 = avail (memory c) - 1"
    using two_lists_append [OF r f(6) a] by blast
  obtain s2 where s2: "LinkedListUnlink s1 in_flight_packet_list e = Some s2"
      "two_lists s2 in_flight_packet_list (qs1 @ qs2) (us @ vs) pending_packet_list (ps @ [(n1, ob)]) (w_pend w @ [y])"
      "avail s2 = avail s1"
    using two_lists_unlink [OF two_lists_swap [OF s1(2), unfolded f(2) sp(2)] f(3)] by blast
  have "on_ack_received garbage ep g c = Some (c\<lparr>memory := s2\<rparr>)"
    using f(1,4,5) s1(1) s2(1) fl dec by (auto simp: on_ack_received_def decodes_def packet_enums)
  moreover have "wrep s2 h b (win_ctrl m w)"
    using two_lists_swap [OF s2(2)] rd sp(1) fl by (auto simp: wrep_def win_ctrl_def)
  ultimately show ?thesis using s1(3) s2(3) fl by (simp add: ack_refined_def packet_enums)
qed

lemma ack_refines:
  assumes r: "two_lists (memory c) pending_packet_list ps (w_pend w) in_flight_packet_list qs (w_infl w)"
    and rd: "reading h b (w_read w)" and dec: "decodes garbage g m"
    and fl: "ctrl_flag m = UCP_FLAG_ACK" and sp: "split_first (ctrl_seq_no m) (w_infl w) = Some (us, y, vs)" "w_infl w = us @ y # vs"
  shows "ack_refined garbage ep g c h b m w"
proof -
  obtain qs1 e ob qs2 where f: "find_packet (memory c) in_flight_packet_list (ctrl_seq_no m) = Some e"
      "qs = qs1 @ (e, ob) # qs2" "length qs1 = length us" "e \<noteq> NULL"
    using find_packet_found [OF two_lists_swap [OF r] sp(1)] by blast
  obtain s2 where s2: "LinkedListUnlink (memory c) in_flight_packet_list e = Some s2"
      "two_lists s2 in_flight_packet_list (qs1 @ qs2) (us @ vs) pending_packet_list ps (w_pend w)"
      "avail s2 = avail (memory c)"
    using two_lists_unlink [OF two_lists_swap [OF r, unfolded f(2) sp(2)] f(3)] by blast
  have "on_ack_received garbage ep g c = Some (c\<lparr>memory := s2\<rparr>)"
    using f(1,4) s2(1) fl dec by (simp add: on_ack_received_def decodes_def)
  moreover have "wrep s2 h b (win_ctrl m w)"
    using two_lists_swap [OF s2(2)] rd sp(1) fl by (auto simp: wrep_def win_ctrl_def packet_enums)
  ultimately show ?thesis using s2(3) fl by (simp add: ack_refined_def packet_enums)
qed

lemma on_ack_refines:
  assumes w: "wrep (memory c) h b w" and m: "unat (ctrl_flag m) < 256" and n: "6 \<le> unat (of_int n :: u64)"
    and a: "0 < avail (memory c)"
  shows "\<exists>c'. on_ack_received garbage ep \<lparr>sgmnt_data = ctrl_wire m @ rest, data_len = n\<rparr> c = Some c'
    \<and> wrep (memory c') h b (win_ctrl m w) \<and> done_flag c' = (done_flag c \<or> ctrl_flag m = UCP_FLAG_FIN)
    \<and> avail (memory c) - 1 \<le> avail (memory c')"
proof -
  let ?g = "\<lparr>sgmnt_data = ctrl_wire m @ rest, data_len = n\<rparr>"
  obtain ps qs where r: "two_lists (memory c) pending_packet_list ps (w_pend w) in_flight_packet_list qs (w_infl w)"
    and rd: "reading h b (w_read w)" using w unfolding wrep_def by blast
  have dec: "decodes garbage ?g m" using decode_ctrl_wire [OF m n] by (simp add: decodes_def)
  have "ack_refined garbage ep ?g c h b m w"
  proof (cases "(ctrl_flag m = UCP_FLAG_ACK \<or> ctrl_flag m = UCP_FLAG_NACK) \<and> split_first (ctrl_seq_no m) (w_infl w) \<noteq> None")
    case False
    then show ?thesis by (rule ack_ignored [OF w dec])
  next
    case True
    then obtain us y vs where "split_first (ctrl_seq_no m) (w_infl w) = Some (us, y, vs)" "w_infl w = us @ y # vs"
      by (auto simp: split_first_Some)
    then show ?thesis using nack_refines [OF r rd dec a] ack_refines [OF r rd dec] True by blast
  qed
  then show ?thesis unfolding ack_refined_def .
qed

subsection \<open>Properties\<close>

text \<open>C12: what the client sends next: a packet that waits to be sent again, if there is one, oldest first;
  else the next packet of the part, freshly read; else the oldest packet in flight; NULL exactly when there
  is none of these. The packet returned leaves its list, nothing else moves, and memory stays well formed.\<close>

theorem get_next_packet_correct:
  assumes "crep (memory c) pend infl" "reading h b j" "length b < 2 ^ 32" "0 < avail (memory c)"
  shows "\<exists>p h' c' pend' infl' j'. get_next_packet pending_packet_list in_flight_packet_list h c = Some (p, h', c')
    \<and> crep (memory c') pend' infl' \<and> reading h' b j'
    \<and> (if pend \<noteq> [] then packets (memory c') p = Some (hd pend) \<and> p \<noteq> NULL \<and> pend' = tl pend \<and> infl' = infl \<and> j' = j
       else if j < packet_count b then packets (memory c') p = Some (file_packet b j) \<and> p \<noteq> NULL \<and> pend' = [] \<and> infl' = infl \<and> j' = Suc j
       else if infl \<noteq> [] then packets (memory c') p = Some (hd infl) \<and> p \<noteq> NULL \<and> pend' = [] \<and> infl' = tl infl \<and> j' = j
       else p = NULL \<and> pend' = [] \<and> infl' = [] \<and> j' = j)"
proof -
  let ?w = "\<lparr>w_read = j, w_pend = pend, w_infl = infl\<rparr>"
  have "wrep (memory c) h b ?w" using assms(1,2) by (simp add: wrep_def)
  from get_next_refines [OF this assms(3,4)] obtain p h' c' where
    r: "get_next_packet pending_packet_list in_flight_packet_list h c = Some (p, h', c')"
      "wrep (memory c') h' b (snd (win_next b ?w))"
      "case fst (win_next b ?w) of None \<Rightarrow> p = NULL | Some x \<Rightarrow> p \<noteq> NULL \<and> packets (memory c') p = Some x" by blast
  show ?thesis
    by (rule exI [of _ p], rule exI [of _ h'], rule exI [of _ c'],
        rule exI [of _ "w_pend (snd (win_next b ?w))"], rule exI [of _ "w_infl (snd (win_next b ?w))"],
        rule exI [of _ "w_read (snd (win_next b ?w))"])
      (use r in \<open>auto simp: wrep_def win_next_def split: list.splits if_splits\<close>)
qed

text \<open>A client with packet 1 of a part pending and packet 0 in flight.\<close>

definition example_memory :: "u8 list \<Rightarrow> client_mem" where
  "example_memory b = \<lparr>elems = [1 \<mapsto> \<lparr>obj = 0, nxt = 3, prv = 3\<rparr>, 3 \<mapsto> \<lparr>obj = 4, nxt = 1, prv = 1\<rparr>,
       2 \<mapsto> \<lparr>obj = 0, nxt = 5, prv = 5\<rparr>, 5 \<mapsto> \<lparr>obj = 6, nxt = 2, prv = 2\<rparr>],
     members = (\<lambda>_. 1), brk = 7, avail = 20, packets = [4 \<mapsto> file_packet b 0, 6 \<mapsto> file_packet b 1]\<rparr>"

lemma example_memory_ok:
  "two_lists (example_memory b) pending_packet_list [(5, 6)] [file_packet b 1] in_flight_packet_list [(3, 4)] [file_packet b 0]"
  by (auto simp: two_lists_def example_memory_def pending_packet_list_def in_flight_packet_list_def dll_def nxts_def prvs_def
      objs_def wf_mem_def)

definition example_client_state :: "u8 list \<Rightarrow> client" where
  "example_client_state b = \<lparr>memory = example_memory b, done_flag = False, created = 2\<rparr>"

theorem get_next_packet_correct_witness:
  "\<exists>p h' c'. get_next_packet pending_packet_list in_flight_packet_list (example_handle (replicate 300 7)) (example_client_state (replicate 300 7))
      = Some (p, h', c') \<and> packets (memory c') p = Some (file_packet (replicate 300 7) 1)
    \<and> crep (memory c') [] [file_packet (replicate 300 7) 0]"
proof -
  let ?b = "replicate 300 (7 :: u8)"
  have "crep (memory (example_client_state ?b)) [file_packet ?b 1] [file_packet ?b 0]"
    using example_memory_ok [of ?b] by (auto simp: example_client_state_def)
  moreover have "reading (example_handle ?b) ?b 0" by (rule reading_fresh [OF example_handle_ok(1)])
  ultimately show ?thesis
    using get_next_packet_correct [of "example_client_state ?b" "[file_packet ?b 1]" "[file_packet ?b 0]" "example_handle ?b" ?b 0]
    by (auto simp: example_client_state_def example_memory_def) blast
qed

text \<open>C11: the client's callback on a segment that starts with a control packet: an ACK takes the first packet in
  flight with its number out of the window, a NACK moves that packet to the end of the pending list, and neither
  does anything when no packet in flight has the number; a FIN sets \<open>done\<close>. Whatever follows the first
  control packet in the segment is ignored.\<close>

theorem on_ack_received_correct:
  assumes "crep (memory c) pend infl" "unat (ctrl_flag m) < 256" "6 \<le> n" "n < 2 ^ 64" "0 < avail (memory c)"
  shows "\<exists>c' pend' infl'. on_ack_received garbage ep \<lparr>sgmnt_data = ctrl_wire m @ rest, data_len = n\<rparr> c = Some c'
    \<and> crep (memory c') pend' infl' \<and> (done_flag c' \<longleftrightarrow> done_flag c \<or> ctrl_flag m = UCP_FLAG_FIN)
    \<and> (if ctrl_seq_no m \<in> seq_of ` set infl \<and> ctrl_flag m \<in> {UCP_FLAG_ACK, UCP_FLAG_NACK}
       then \<exists>us y vs. infl = us @ y # vs \<and> seq_of y = ctrl_seq_no m \<and> ctrl_seq_no m \<notin> seq_of ` set us \<and> infl' = us @ vs
         \<and> pend' = (if ctrl_flag m = UCP_FLAG_NACK then pend @ [y] else pend)
       else infl' = infl \<and> pend' = pend)"
proof -
  let ?w = "\<lparr>w_read = 0, w_pend = pend, w_infl = infl\<rparr>" and ?h = "example_handle []"
  have w: "wrep (memory c) ?h [] ?w" using assms(1) reading_fresh [OF example_handle_ok(1)] by (simp add: wrep_def)
  have "unat (of_int n :: u64) = nat n" using assms(3,4) by (simp add: unsigned_of_int take_bit_int_eq_self)
  then have n6: "6 \<le> unat (of_int n :: u64)" using assms(3) by simp
  obtain c' where r: "on_ack_received garbage ep \<lparr>sgmnt_data = ctrl_wire m @ rest, data_len = n\<rparr> c = Some c'"
      "wrep (memory c') ?h [] (win_ctrl m ?w)" "done_flag c' = (done_flag c \<or> ctrl_flag m = UCP_FLAG_FIN)"
    using on_ack_refines [OF w assms(2) n6 assms(5)] by blast
  have "crep (memory c') (w_pend (win_ctrl m ?w)) (w_infl (win_ctrl m ?w))" using r(2) by (simp add: wrep_def)
  moreover have "if ctrl_seq_no m \<in> seq_of ` set infl \<and> ctrl_flag m \<in> {UCP_FLAG_ACK, UCP_FLAG_NACK}
       then \<exists>us y vs. infl = us @ y # vs \<and> seq_of y = ctrl_seq_no m \<and> ctrl_seq_no m \<notin> seq_of ` set us
         \<and> w_infl (win_ctrl m ?w) = us @ vs
         \<and> w_pend (win_ctrl m ?w) = (if ctrl_flag m = UCP_FLAG_NACK then pend @ [y] else pend)
       else w_infl (win_ctrl m ?w) = infl \<and> w_pend (win_ctrl m ?w) = pend"
  proof (cases "split_first (ctrl_seq_no m) infl")
    case None
    then have "ctrl_seq_no m \<notin> seq_of ` set infl" by (simp add: split_first_None)
    with None show ?thesis by (simp add: win_ctrl_def)
  next
    case (Some x)
    obtain us y vs where x: "x = (us, y, vs)" by (cases x)
    have s: "infl = us @ y # vs" "seq_of y = ctrl_seq_no m" "ctrl_seq_no m \<notin> seq_of ` set us"
      using Some x by (auto simp: split_first_Some)
    then have "ctrl_seq_no m \<in> seq_of ` set infl" by force
    then show ?thesis using Some x s by (simp add: win_ctrl_def) blast
  qed
  ultimately show ?thesis using r(1,3) by blast
qed

theorem on_ack_received_correct_witness:
  "\<exists>c'. on_ack_received (example_packet 1) None \<lparr>sgmnt_data = ctrl_wire (ctrl UCP_FLAG_NACK 0) @ ctrl_wire (ctrl UCP_FLAG_FIN 9),
      data_len = 12\<rparr> (example_client_state (replicate 300 7)) = Some c'
    \<and> crep (memory c') [file_packet (replicate 300 7) 1, file_packet (replicate 300 7) 0] [] \<and> \<not> done_flag c'"
proof -
  let ?b = "replicate 300 (7 :: u8)" and ?m = "ctrl UCP_FLAG_NACK 0"
  have "crep (memory (example_client_state ?b)) [file_packet ?b 1] [file_packet ?b 0]"
    using example_memory_ok [of ?b] by (auto simp: example_client_state_def)
  from on_ack_received_correct [OF this, of ?m 12 "example_packet 1" None "ctrl_wire (ctrl UCP_FLAG_FIN 9)"]
  show ?thesis
    by (auto simp: example_client_state_def example_memory_def packet_enums seq_of_def file_packet_fields Cons_eq_append_conv)
qed

end
