(* ===== verification/Client_Loop.thy ===== *)
theory Client_Loop
  imports Ucp_Client "HOL-Library.Multiset"
begin

text \<open>
  The sending loop of \<open>block_thread\<close> (\<open>ucp_client.c\<close>): one iteration refines one step of the window, and the
  window loses no packet.
\<close>

subsection \<open>One tick with one connection\<close>

lemma tick_loop_skip:
  "i \<le> j \<Longrightarrow> j \<le> max_sd s \<Longrightarrow> \<forall>x. i \<le> x \<and> x < j \<longrightarrow> x \<notin> R \<Longrightarrow>
    tick_loop f R i s k c = tick_loop f R j s k c"
proof (induction "nat (j - i)" arbitrary: i)
  case 0
  then show ?case by simp
next
  case (Suc n)
  then have "tick_loop f R (i + 1) s k c = tick_loop f R j s k c" by auto
  moreover have "tick_loop f R i s k c = tick_loop f R (i + 1) s k c"
    using Suc by (subst tick_loop.simps) simp
  ultimately show ?case by simp
qed

text \<open>The listening server of a client thread, connected to the UCP server on the descriptor \<open>d\<close>.\<close>

definition connected :: "int \<Rightarrow> tcp_server \<Rightarrow> kernel \<Rightarrow> bool" where
  "connected d s k \<longleftrightarrow> server_fd_set s = {sd s, d} \<and> sd s < d \<and> max_sd s = d \<and> backlog k = []
     \<and> \<not> broken k (sd s) \<and> \<not> broken k d \<and> \<not> hung_up k d \<and> d \<in> open_sds k"

lemma tick_connected:
  assumes "connected d s k"
  defines "xs \<equiv> take 1024 (incoming k d)"
  shows "tcp_server_tick f (Some s) k c = (if incoming k d = [] then Some (Some s, k, c)
    else case f (get_endpoint (endpoints s) d)
        \<lparr>sgmnt_data = xs @ replicate (1024 - length xs) 0, data_len = int (length xs)\<rparr> c of None \<Rightarrow> None
      | Some c' \<Rightarrow> Some (Some s, k\<lparr>incoming := (incoming k)(d := drop 1024 (incoming k d))\<rparr>, c'))"
proof -
  note v = assms(1) [unfolded connected_def]
  have R: "k_select (sd s) (server_fd_set s) k = (if incoming k d = [] then {} else {d})"
    using v by (auto simp: k_select_def)
  show ?thesis
  proof (cases "incoming k d = []")
    case True
    then show ?thesis using R by (simp add: tcp_server_tick_def)
  next
    case False
    have skip: "tick_loop f {d} (sd s) s k c = tick_loop f {d} d s k c"
      by (rule tick_loop_skip) (use v in auto)
    have over: "tick_loop f {d} (d + 1) s k' c' = Some (s, k', c')" for k' c'
      using v by (subst tick_loop.simps) simp
    have rcv: "tcp_server_receive f s d k c = (case f (get_endpoint (endpoints s) d)
        \<lparr>sgmnt_data = xs @ replicate (1024 - length xs) 0, data_len = int (length xs)\<rparr> c of None \<Rightarrow> None
      | Some c' \<Rightarrow> Some (s, k\<lparr>incoming := (incoming k)(d := drop 1024 (incoming k d))\<rparr>, c'))"
      unfolding xs_def using receive_data [of k d f s c] v False by simp
    have "tick_loop f {d} d s k c = (case f (get_endpoint (endpoints s) d)
        \<lparr>sgmnt_data = xs @ replicate (1024 - length xs) 0, data_len = int (length xs)\<rparr> c of None \<Rightarrow> None
      | Some c' \<Rightarrow> Some (s, k\<lparr>incoming := (incoming k)(d := drop 1024 (incoming k d))\<rparr>, c'))"
      using v by (subst tick_loop.simps) (auto simp: rcv over split: option.splits)
    then show ?thesis using R False skip by (auto simp: tcp_server_tick_def split: option.splits)
  qed
qed

lemma connected_incoming: "connected d s (k\<lparr>incoming := f\<rparr>) = connected d s k"
  by (simp add: connected_def)

subsection \<open>One iteration of the sending loop\<close>

definition sendable :: "ucp_packet \<Rightarrow> bool" where
  "sendable p \<longleftrightarrow> wf_packet p \<and> pkt_type p = UCP_PACKET_TYPE_DATA \<and> valid_data (data_packet p)"

lemma sendable_file_packet: "sendable (file_packet b i)"
  by (simp add: sendable_def file_packet_fields)

definition win_iterate :: "u8 list \<Rightarrow> ucp_ctrl_packet list \<Rightarrow> window \<Rightarrow> (ucp_packet \<times> window) option" where
  "win_iterate b ms w = (case win_next b w of
     (None, _) \<Rightarrow> None
   | (Some p, w1) \<Rightarrow> Some (p, case ms of [] \<Rightarrow> win_sent p w1 | m # _ \<Rightarrow> win_ctrl m (win_sent p w1)))"

text \<open>The datagrams a send leaves; when the kernel refuses one it is lost.\<close>

definition udp_sent :: "sockaddr_in \<Rightarrow> u8 list \<Rightarrow> udp_net \<Rightarrow> udp_net" where
  "udp_sent a xs u = (if send_ok u then u\<lparr>sent := sent u @ [(a, xs)]\<rparr> else u)"

lemma wrep_in_hand:
  assumes "wrep s h b w" "packets s a = Some p" "0 < avail s"
  shows "\<exists>s'. LinkedListAppend s in_flight_packet_list a = Some (True, s') \<and> wrep s' h b (win_sent p w) \<and> avail s' = avail s - 1"
proof -
  obtain ps qs where r: "two_lists s pending_packet_list ps (w_pend w) in_flight_packet_list qs (w_infl w)"
    and rd: "reading h b (w_read w)" using assms(1) unfolding wrep_def by blast
  obtain s' n where "LinkedListAppend s in_flight_packet_list a = Some (True, s')"
      "two_lists s' in_flight_packet_list (qs @ [(n, a)]) (w_infl w @ [p]) pending_packet_list ps (w_pend w)"
      "avail s' = avail s - 1"
    using two_lists_append [OF two_lists_swap [OF r] assms(2,3)] by blast
  then show ?thesis using two_lists_swap rd unfolding wrep_def win_sent_def by fastforce
qed

text \<open>One tick of the server of a connected client reads all that waits, and the window takes the first control packet of it.\<close>

definition win_acks :: "ucp_ctrl_packet list \<Rightarrow> window \<Rightarrow> window" where
  "win_acks ms w = (case ms of [] \<Rightarrow> w | m # _ \<Rightarrow> win_ctrl m w)"

lemma win_iterate_acks:
  "win_iterate b ms w = (case win_next b w of (None, _) \<Rightarrow> None | (Some p, w1) \<Rightarrow> Some (p, win_acks ms (win_sent p w1)))"
  by (simp add: win_iterate_def win_acks_def split: prod.splits option.splits list.splits)

lemma tick_refines:
  assumes cn: "connected d s k" and inc: "incoming k d = concat (map ctrl_wire ms)" "length ms \<le> 170"
    and fl: "\<forall>m \<in> set ms. unat (ctrl_flag m) < 256" and w: "wrep (memory c) h b w" and a: "0 < avail (memory c)"
  shows "\<exists>c'. tcp_server_tick (on_ack_received garbage) (Some s) k c = Some (Some s, k\<lparr>incoming := (incoming k)(d := [])\<rparr>, c')
    \<and> wrep (memory c') h b (win_acks ms w) \<and> avail (memory c) - 1 \<le> avail (memory c')
    \<and> done_flag c' = (done_flag c \<or> (\<exists>m ms'. ms = m # ms' \<and> ctrl_flag m = UCP_FLAG_FIN))"
proof (cases ms)
  case Nil
  then have "k\<lparr>incoming := (incoming k)(d := [])\<rparr> = k" using inc(1) by (simp add: fun_upd_idem)
  then show ?thesis using tick_connected [OF cn, of "on_ack_received garbage" c] inc(1) Nil w by (simp add: win_acks_def)
next
  case (Cons m ms')
  let ?xs = "concat (map ctrl_wire ms)"
  have lx: "length ?xs = 6 * length ms" by (induction ms) auto
  then have tk: "take 1024 (incoming k d) = ?xs" "drop 1024 (incoming k d) = []" using inc by simp_all
  have "0 < length ?xs" using lx Cons by simp
  then have ne: "incoming k d \<noteq> []" using inc(1) by simp
  define g where "g = \<lparr>sgmnt_data = ctrl_wire m @ concat (map ctrl_wire ms') @ replicate (1024 - length ?xs) 0,
      data_len = int (length ?xs)\<rparr>"
  have "unat (of_int (int (length ?xs)) :: u64) = length ?xs"
    using lx inc(2) by (simp only: of_int_of_nat_eq) (intro of_nat_inverse [OF refl], simp)
  then have n6: "6 \<le> unat (of_int (int (length ?xs)) :: u64)" using lx Cons by simp
  obtain c' where c': "on_ack_received garbage (get_endpoint (endpoints s) d) g c = Some c'"
      "wrep (memory c') h b (win_ctrl m w)" "done_flag c' = (done_flag c \<or> ctrl_flag m = UCP_FLAG_FIN)"
      "avail (memory c) - 1 \<le> avail (memory c')"
    using on_ack_refines [of c h b w m "int (length ?xs)" garbage] w fl Cons n6 a
    unfolding g_def by fastforce
  have "tcp_server_tick (on_ack_received garbage) (Some s) k c = Some (Some s, k\<lparr>incoming := (incoming k)(d := [])\<rparr>, c')"
    using tick_connected [OF cn, of "on_ack_received garbage" c] tk ne c'(1) Cons by (simp add: g_def)
  then show ?thesis using c'(2-4) Cons by (simp add: win_acks_def)
qed

text \<open>
  What a tick does, whatever bytes it reads: the window takes the first of the control packets \<open>ms\<close>, and the kernel is left
  as \<open>k'\<close>.
\<close>

definition hears :: "ucp_packet \<Rightarrow> tcp_server \<Rightarrow> kernel \<Rightarrow> ucp_ctrl_packet list \<Rightarrow> kernel \<Rightarrow> bool" where
  "hears garbage s k ms k' \<longleftrightarrow> (\<forall>c h b w. wrep (memory c) h b w \<and> 0 < avail (memory c) \<longrightarrow>
     (\<exists>c'. tcp_server_tick (on_ack_received garbage) (Some s) k c = Some (Some s, k', c')
       \<and> wrep (memory c') h b (win_acks ms w) \<and> avail (memory c) - 1 \<le> avail (memory c')
       \<and> done_flag c' = (done_flag c \<or> (\<exists>m ms'. ms = m # ms' \<and> ctrl_flag m = UCP_FLAG_FIN))))"

lemma hears_packets:
  "connected d s k \<Longrightarrow> incoming k d = concat (map ctrl_wire ms) \<Longrightarrow> length ms \<le> 170 \<Longrightarrow>
    \<forall>m \<in> set ms. unat (ctrl_flag m) < 256 \<Longrightarrow> hears garbage s k ms (k\<lparr>incoming := (incoming k)(d := [])\<rparr>)"
  unfolding hears_def by (intro allI impI, elim conjE) (rule tick_refines)

text \<open>The control packet at the head of a segment, if its length and its first byte make it one.\<close>

definition heard :: "u8 list \<Rightarrow> ucp_ctrl_packet list" where
  "heard xs = (if 6 \<le> length xs \<and> xs ! 0 = 1
     then [ctrl (ucast (xs ! 1)) (word_of_bytes (xs ! 5) (xs ! 4) (xs ! 3) (xs ! 2))] else [])"

lemma byte_of_word_of_bytes:
  "byte_of 0 (word_of_bytes b3 b2 b1 b0) = b0" "byte_of 1 (word_of_bytes b3 b2 b1 b0) = b1"
  "byte_of 2 (word_of_bytes b3 b2 b1 b0) = b2" "byte_of 3 (word_of_bytes b3 b2 b1 b0) = b3"
  unfolding word_of_bytes_def by (rule bit_word_eqI; auto simp: bit_simps dest: bit_imp_le_length)+

lemmas ctrl_bytes = byte_of_word_of_bytes byte_of_word_of_bytes(2) [unfolded One_nat_def]

lemma byte_of_ucast: "byte_of 0 (ucast b :: u32) = (b :: u8)"
  by (rule bit_word_eqI) (auto simp: bit_simps dest: bit_imp_le_length)

lemma take_six: "6 \<le> length xs \<Longrightarrow> take 6 xs = [xs ! 0, xs ! 1, xs ! 2, xs ! 3, xs ! 4, xs ! 5]"
  by (rule nth_equalityI) (auto simp: less_Suc_eq numeral_eq_Suc)

lemma heard_wire:
  assumes "heard xs = m # ms"
  shows "take 6 xs = ctrl_wire m" "6 \<le> length xs" "unat (ctrl_flag m) < 256"
proof -
  have m: "6 \<le> length xs" "xs ! 0 = 1" "m = ctrl (ucast (xs ! 1)) (word_of_bytes (xs ! 5) (xs ! 4) (xs ! 3) (xs ! 2))"
    using assms by (auto simp: heard_def split: if_splits)
  show "take 6 xs = ctrl_wire m" using take_six [OF m(1)] m by (simp add: ctrl_wire_def ctrl_bytes byte_of_ucast)
  show "6 \<le> length xs" by (rule m(1))
  have "unat (xs ! 1) < 256" by (rule order_less_le_trans [OF unsigned_less]) simp
  then show "unat (ctrl_flag m) < 256" using m(3) by (simp add: unat_ucast_u8)
qed

lemma heard_singleton: "heard xs = m # ms \<Longrightarrow> ms = []"
  by (auto simp: heard_def split: if_splits)

text \<open>A segment without a control packet at its head leaves the callback's local as it was.\<close>

lemma on_ack_deaf:
  assumes "heard xs = []" "xs \<noteq> []" "length xs \<le> 1024" "pkt_type garbage \<noteq> UCP_PACKET_TYPE_CTRL"
  shows "on_ack_received garbage ep \<lparr>sgmnt_data = xs @ ys, data_len = int (length xs)\<rparr> c = Some c"
proof -
  let ?n = "of_nat (length xs) :: u64"
  have n: "unat ?n = length xs" by (rule of_nat_inverse [OF refl]) (use assms(3) in simp)
  have lt: "?n < of_nat sizeof_ucp_packet" "length xs < 6 \<Longrightarrow> ?n < 6"
    using n assms(3) by (simp_all add: word_less_nat_alt sizeof_ucp_packet_val)
  have b0: "get_byte (xs @ ys) 0 = Some (xs ! 0)" using assms(2) by (simp add: get_byte_def nth_append)
  have "length xs < 6" if "ucast (xs ! 0) = UCP_PACKET_TYPE_CTRL"
  proof -
    have "byte_of 0 (ucast (xs ! 0) :: u32) = byte_of 0 UCP_PACKET_TYPE_CTRL" using that by simp
    then have "xs ! 0 = 1" unfolding byte_of_ucast by (simp add: packet_enums byte_of_def)
    then show ?thesis using assms(1) by (auto simp: heard_def split: if_splits)
  qed
  then have "ucp_packet_decode (Some (xs @ ys)) ?n (Some garbage) = Some (Some garbage)"
    using b0 lt by (auto simp: ucp_packet_decode_def ucp_packet_decode_data_def ucp_packet_decode_meta_data_def
        ucp_packet_decode_ctrl_data_def packet_enums)
  then show ?thesis using assms(4) by (simp add: on_ack_received_def)
qed

lemma tick_hears:
  assumes cn: "connected d s k" and g: "pkt_type garbage \<noteq> UCP_PACKET_TYPE_CTRL"
  shows "hears garbage s k (heard (take 1024 (incoming k d))) (k\<lparr>incoming := (incoming k)(d := drop 1024 (incoming k d))\<rparr>)"
  unfolding hears_def
proof (intro allI impI)
  fix c :: client and h b w assume w: "wrep (memory c) h b w \<and> 0 < avail (memory c)"
  let ?xs = "take 1024 (incoming k d)" and ?k = "k\<lparr>incoming := (incoming k)(d := drop 1024 (incoming k d))\<rparr>"
  let ?g = "\<lparr>sgmnt_data = ?xs @ replicate (1024 - length ?xs) 0, data_len = int (length ?xs)\<rparr>"
  note tick = tick_connected [OF cn, of "on_ack_received garbage" c]
  show "\<exists>c'. tcp_server_tick (on_ack_received garbage) (Some s) k c = Some (Some s, ?k, c')
       \<and> wrep (memory c') h b (win_acks (heard ?xs) w) \<and> avail (memory c) - 1 \<le> avail (memory c')
       \<and> done_flag c' = (done_flag c \<or> (\<exists>m ms'. heard ?xs = m # ms' \<and> ctrl_flag m = UCP_FLAG_FIN))"
  proof (cases "heard ?xs")
    case Nil
    have "tcp_server_tick (on_ack_received garbage) (Some s) k c = Some (Some s, ?k, c)"
    proof (cases "incoming k d = []")
      case True
      then show ?thesis using tick by (simp add: fun_upd_idem)
    next
      case False
      then show ?thesis using tick on_ack_deaf [OF Nil _ _ g] by simp
    qed
    then show ?thesis using w Nil by (simp add: win_acks_def)
  next
    case (Cons m ms)
    note hw = heard_wire [OF Cons]
    have xs: "?xs = ctrl_wire m @ drop 6 ?xs" using hw(1) by (metis append_take_drop_id)
    have ne: "incoming k d \<noteq> []" using hw(2) by auto
    have "unat (of_int (int (length ?xs)) :: u64) = length ?xs"
      by (simp only: of_int_of_nat_eq) (rule of_nat_inverse [OF refl], simp)
    then have n: "6 \<le> unat (of_int (int (length ?xs)) :: u64)" using hw(2) by simp
    obtain c' where "on_ack_received garbage (get_endpoint (endpoints s) d) ?g c = Some c'"
        "wrep (memory c') h b (win_ctrl m w)" "done_flag c' = (done_flag c \<or> ctrl_flag m = UCP_FLAG_FIN)"
        "avail (memory c) - 1 \<le> avail (memory c')"
      using on_ack_refines [OF conjunct1 [OF w] hw(3) n conjunct2 [OF w], of garbage "get_endpoint (endpoints s) d"
          "drop 6 ?xs @ replicate (1024 - length ?xs) 0"] xs by (metis append_assoc)
    then show ?thesis using tick ne Cons by (auto simp: win_acks_def)
  qed
qed

lemma heard_take: "set (heard (take j xs)) \<subseteq> set (heard xs)"
  by (auto simp: heard_def)

lemma heard_ctrl_wire: "unat (ctrl_flag m) < 256 \<Longrightarrow> heard (ctrl_wire m @ xs) = [m]"
  using word_of_bytes_byte_of [of "ctrl_seq_no m"] ucast_byte_of_0 [of "ctrl_flag m"] by (simp add: heard_def ctrl_wire_def)

text \<open>A packet is encoded into the buffer of the thread and sent.\<close>

lemma send_refines:
  assumes sp: "sendable p" and buf: "length buf = UDP_PACKET_SIZE"
  shows "\<exists>len buf' r. ucp_packet_encode (Some p) (Some buf) (of_nat (length buf)) = Some (len, Some buf')
    \<and> udp_socket_send remote buf' len u = Some (r, udp_sent remote (data_wire (data_packet p)) u) \<and> length buf' = UDP_PACKET_SIZE"
proof -
  let ?n = "of_nat UDP_PACKET_SIZE :: u64"
  have n: "unat ?n = UDP_PACKET_SIZE" "sizeof_ucp_packet \<le> unat ?n"
    by (simp_all add: UDP_PACKET_SIZE_val sizeof_ucp_packet_val)
  obtain l where l: "ucp_packet_encode (Some p) (Some buf) ?n = Some (l, Some (data_wire (data_packet p) @ drop (unat l) buf))"
      "unat l = length (data_wire (data_packet p))"
    using data_codec.enc [of p buf ?n] sp buf n by (auto simp: sendable_def)
  define buf' where "buf' = data_wire (data_packet p) @ drop (unat l) buf"
  have "length (data_wire (data_packet p)) \<le> UDP_PACKET_SIZE"
    using sp by (simp add: sendable_def length_data_wire valid_data_def UDP_PACKET_SIZE_val UDP_PACKET_DATA_SIZE_val)
  then have "length buf' = UDP_PACKET_SIZE" using l(2) buf by (simp add: buf'_def)
  moreover obtain r where "udp_socket_send remote buf' l u = Some (r, udp_sent remote (data_wire (data_packet p)) u)"
    using l(2) by (cases "send_ok u") (simp_all add: udp_socket_send_def get_bytes_def buf'_def udp_sent_def)
  ultimately show ?thesis using l(1) buf unfolding buf'_def by auto
qed

lemma block_iteration_hears:
  assumes w: "wrep (memory (client_state S)) (sender_handle S) b w" and len: "length b < 2 ^ 32"
    and a: "2 < avail (memory (client_state S))" and buf: "length (send_buffer S) = UDP_PACKET_SIZE"
    and hr: "hears garbage (ack_server S) k ms k'" and cn: "connected d (ack_server S) k'" and ok: "\<forall>p \<in> set (w_pend w @ w_infl w). sendable p"
  shows "case win_iterate b ms w of
      None \<Rightarrow> \<exists>S'. block_iteration garbage remote S u k = Some (False, S', u, k)
        \<and> wrep (memory (client_state S')) (sender_handle S') b w \<and> done_flag (client_state S') = done_flag (client_state S)
    | Some (p, w') \<Rightarrow> \<exists>S'. block_iteration garbage remote S u k
          = Some (\<not> done_flag (client_state S'), S', udp_sent remote (data_wire (data_packet p)) u, k')
        \<and> wrep (memory (client_state S')) (sender_handle S') b w' \<and> length (send_buffer S') = UDP_PACKET_SIZE
        \<and> connected d (ack_server S') k'
        \<and> avail (memory (client_state S)) - 3 \<le> avail (memory (client_state S'))
        \<and> done_flag (client_state S') = (done_flag (client_state S) \<or> (\<exists>m ms'. ms = m # ms' \<and> ctrl_flag m = UCP_FLAG_FIN))"
proof -
  obtain pa h' c' where gn: "get_next_packet pending_packet_list in_flight_packet_list (sender_handle S) (client_state S) = Some (pa, h', c')"
      "wrep (memory c') h' b (snd (win_next b w))" "avail (memory (client_state S)) - 1 \<le> avail (memory c')"
      "done_flag c' = done_flag (client_state S)"
      "case fst (win_next b w) of None \<Rightarrow> pa = NULL | Some x \<Rightarrow> pa \<noteq> NULL \<and> packets (memory c') pa = Some x"
    using get_next_refines [OF w len] a by fastforce
  obtain o1 w1 where Pair: "win_next b w = (o1, w1)" by (cases "win_next b w")
  show ?thesis
  proof (cases o1)
    case None
    then have "w1 = w" using Pair by (auto simp: win_next_def split: list.splits if_splits)
    then show ?thesis using gn Pair None
      by (simp add: win_iterate_def block_iteration_def Let_def)
  next
    case (Some p)
    have pk: "pa \<noteq> NULL" "packets (memory c') pa = Some p" "wrep (memory c') h' b w1"
      using gn(2,5) Pair Some by simp_all
    have sp: "sendable p"
      using ok Pair Some sendable_file_packet by (auto simp: win_next_def split: list.splits if_splits)
    obtain l buf' r where snd: "ucp_packet_encode (Some p) (Some (send_buffer S)) (of_nat (length (send_buffer S))) = Some (l, Some buf')"
        "udp_socket_send remote buf' l u = Some (r, udp_sent remote (data_wire (data_packet p)) u)" "length buf' = UDP_PACKET_SIZE"
      using send_refines [OF sp buf] by blast
    obtain s1 where s1: "LinkedListAppend (memory c') in_flight_packet_list pa = Some (True, s1)"
        "wrep s1 h' b (win_sent p w1)" "avail s1 = avail (memory c') - 1"
      using wrep_in_hand [OF pk(3,2)] gn(3) a by fastforce
    let ?c1 = "c'\<lparr>memory := s1\<rparr>"
    have av1: "0 < avail (memory ?c1)" "wrep (memory ?c1) h' b (win_sent p w1)" using s1(2,3) gn(3) a by simp_all
    obtain c2 where c2: "tcp_server_tick (on_ack_received garbage) (Some (ack_server S)) k ?c1 = Some (Some (ack_server S), k', c2)"
        "wrep (memory c2) h' b (win_acks ms (win_sent p w1))" "avail (memory ?c1) - 1 \<le> avail (memory c2)"
        "done_flag c2 = (done_flag ?c1 \<or> (\<exists>m ms'. ms = m # ms' \<and> ctrl_flag m = UCP_FLAG_FIN))"
      using hr av1(2,1) unfolding hears_def by blast
    have run: "block_iteration garbage remote S u k = Some (\<not> done_flag c2,
        S\<lparr>sender_handle := h', client_state := c2, send_buffer := buf', ack_server := ack_server S\<rparr>,
        udp_sent remote (data_wire (data_packet p)) u, k')"
      using gn(1) pk(1,2) snd(1,2) s1(1) c2(1) by (simp add: block_iteration_def Let_def)
    have "avail (memory (client_state S)) - 3 \<le> avail (memory c2)" using c2(3) s1(3) gn(3) by simp
    moreover have "win_iterate b ms w = Some (p, win_acks ms (win_sent p w1))" using Pair Some by (simp add: win_iterate_acks)
    ultimately show ?thesis using run cn c2(2,4) gn(4) snd(3) by simp
  qed
qed

lemma block_iteration_refines:
  assumes w: "wrep (memory (client_state S)) (sender_handle S) b w" and len: "length b < 2 ^ 32"
    and a: "2 < avail (memory (client_state S))" and buf: "length (send_buffer S) = UDP_PACKET_SIZE"
    and cn: "connected d (ack_server S) k" and inc: "incoming k d = concat (map ctrl_wire ms)" "length ms \<le> 170"
    and fl: "\<forall>m \<in> set ms. unat (ctrl_flag m) < 256" and ok: "\<forall>p \<in> set (w_pend w @ w_infl w). sendable p"
  shows "case win_iterate b ms w of
      None \<Rightarrow> \<exists>S'. block_iteration garbage remote S u k = Some (False, S', u, k)
        \<and> wrep (memory (client_state S')) (sender_handle S') b w \<and> done_flag (client_state S') = done_flag (client_state S)
    | Some (p, w') \<Rightarrow> \<exists>S'. block_iteration garbage remote S u k
          = Some (\<not> done_flag (client_state S'), S', udp_sent remote (data_wire (data_packet p)) u,
              k\<lparr>incoming := (incoming k)(d := [])\<rparr>)
        \<and> wrep (memory (client_state S')) (sender_handle S') b w' \<and> length (send_buffer S') = UDP_PACKET_SIZE
        \<and> connected d (ack_server S') (k\<lparr>incoming := (incoming k)(d := [])\<rparr>)
        \<and> avail (memory (client_state S)) - 3 \<le> avail (memory (client_state S'))
        \<and> done_flag (client_state S') = (done_flag (client_state S) \<or> (\<exists>m ms'. ms = m # ms' \<and> ctrl_flag m = UCP_FLAG_FIN))"
  using block_iteration_hears [OF w len a buf hears_packets [OF cn inc fl] _ ok] cn by (simp add: connected_incoming)

subsection \<open>No packet is lost\<close>

text \<open>A list that holds, with multiplicity, the values of \<open>f\<close> on the finite set \<open>X\<close>.\<close>

definition held :: "('i \<Rightarrow> 'p) \<Rightarrow> 'i set \<Rightarrow> 'p list \<Rightarrow> bool" where
  "held f X ps \<longleftrightarrow> finite X \<and> mset ps = image_mset f (mset_set X)"

lemma held_empty: "held f {} []"
  by (simp add: held_def)

lemma held_set: "held f X ps \<Longrightarrow> set ps = f ` X"
  unfolding held_def by (metis finite_set_mset_mset_set set_image_mset set_mset_mset)

lemma held_insert: "held f X ps \<Longrightarrow> x \<notin> X \<Longrightarrow> mset qs = add_mset (f x) (mset ps) \<Longrightarrow> held f (insert x X) qs"
  by (simp add: held_def)

lemma held_remove:
  assumes "held f X ps" "mset ps = add_mset y (mset qs)"
  shows "\<exists>x \<in> X. y = f x \<and> held f (X - {x}) qs"
proof -
  have "y \<in># mset ps" unfolding assms(2) by simp
  then obtain x where x: "x \<in> X" "y = f x" using held_set [OF assms(1)] by auto
  have "X = insert x (X - {x})" using x(1) by blast
  then have "mset_set X = add_mset x (mset_set (X - {x}))"
    using assms(1) by (metis held_def finite_Diff insertI1 DiffD2 mset_set.insert)
  then have "held f (X - {x}) qs" using assms x(2) by (simp add: held_def)
  with x show ?thesis by blast
qed

lemma held_perm: "held f X ps \<Longrightarrow> mset qs = mset ps \<Longrightarrow> held f X qs"
  by (simp add: held_def)

text \<open>
  For the set \<open>A\<close> of packets removed by an ACK: the pending packets and those in flight are, with
  multiplicity one, the packets read so far except those of \<open>A\<close>.
\<close>

definition win_inv :: "u8 list \<Rightarrow> nat set \<Rightarrow> window \<Rightarrow> bool" where
  "win_inv b A w \<longleftrightarrow> w_read w \<le> packet_count b \<and> A \<subseteq> {0..<w_read w}
     \<and> mset (w_pend w @ w_infl w) = image_mset (file_packet b) (mset_set ({0..<w_read w} - A))"

definition win_start :: window where
  "win_start = \<lparr>w_read = 0, w_pend = [], w_infl = []\<rparr>"

lemma win_inv_start: "win_inv b {} win_start"
  by (simp add: win_inv_def win_start_def)

lemma win_inv_packets: "win_inv b A w \<Longrightarrow> set (w_pend w @ w_infl w) = file_packet b ` ({0..<w_read w} - A)"
  unfolding win_inv_def by (metis finite_Diff finite_atLeastLessThan finite_set_mset_mset_set set_image_mset set_mset_mset)

lemma win_inv_member: "win_inv b A w \<Longrightarrow> p \<in> set (w_pend w @ w_infl w) \<Longrightarrow> \<exists>i \<in> {0..<w_read w} - A. p = file_packet b i"
  by (metis imageE win_inv_packets)

lemma win_inv_sendable: "win_inv b A w \<Longrightarrow> \<forall>p \<in> set (w_pend w @ w_infl w). sendable p"
  using win_inv_member sendable_file_packet by blast

lemma seq_of_file_packet [simp]: "seq_of (file_packet b i) = of_nat i"
  by (simp add: seq_of_def file_packet_fields)

lemma win_inv_next:
  assumes "win_inv b A w" "win_next b w = (Some p, w1)"
  shows "win_inv b A (win_sent p w1) \<and> (\<exists>i < packet_count b. p = file_packet b i)"
proof (cases "w_pend w = [] \<and> w_read w < packet_count b")
  case True
  then have w1: "p = file_packet b (w_read w)" "w1 = w\<lparr>w_read := Suc (w_read w)\<rparr>"
    using assms(2) by (auto simp: win_next_def)
  have "{0..<Suc (w_read w)} - A = insert (w_read w) ({0..<w_read w} - A)"
    using assms(1) by (auto simp: win_inv_def)
  then have "mset_set ({0..<Suc (w_read w)} - A) = add_mset (w_read w) (mset_set ({0..<w_read w} - A))" by simp
  then show ?thesis using assms(1) True w1 by (auto simp: win_inv_def win_sent_def)
next
  case False
  then have m: "add_mset p (mset (w_pend w1 @ w_infl w1)) = mset (w_pend w @ w_infl w)" "w_read w1 = w_read w"
    using assms(2) by (auto simp: win_next_def split: list.splits)
  have "p \<in># mset (w_pend w @ w_infl w)" unfolding m(1) [symmetric] by simp
  then have "p \<in> set (w_pend w @ w_infl w)" by (simp only: set_mset_mset)
  then obtain i where "i < w_read w" "p = file_packet b i" using win_inv_member [OF assms(1)] by fastforce
  moreover have "w_read w \<le> packet_count b" using assms(1) by (simp add: win_inv_def)
  ultimately have "\<exists>i < packet_count b. p = file_packet b i" by (intro exI [of _ i]) simp
  moreover have "mset (w_pend (win_sent p w1) @ w_infl (win_sent p w1)) = mset (w_pend w @ w_infl w)"
    using m(1) by (simp add: win_sent_def)
  then have "win_inv b A (win_sent p w1)" using assms(1) m(2) by (simp add: win_inv_def win_sent_def)
  ultimately show ?thesis by blast
qed

lemma win_next_None: "win_next b w = (None, w1) \<longleftrightarrow> w1 = w \<and> w_pend w = [] \<and> \<not> w_read w < packet_count b \<and> w_infl w = []"
  by (auto simp: win_next_def split: list.splits)

text \<open>An acknowledgement takes at most the packet it names out of the window; a NACK takes none.\<close>

lemma win_inv_ctrl:
  assumes v: "win_inv b A w" and len: "length b < 2 ^ 32"
  shows "\<exists>A'. win_inv b A' (win_ctrl m w) \<and> A \<subseteq> A'
    \<and> A' \<subseteq> A \<union> {i. i < packet_count b \<and> m = ctrl UCP_FLAG_ACK (of_nat i)}
    \<and> (\<forall>i < packet_count b. m = ctrl UCP_FLAG_ACK (of_nat i) \<and> i < w_read w \<and> w_pend w = [] \<longrightarrow> i \<in> A')"
proof (cases "(ctrl_flag m = UCP_FLAG_ACK \<or> ctrl_flag m = UCP_FLAG_NACK) \<and> split_first (ctrl_seq_no m) (w_infl w) \<noteq> None")
  case False
  then have "win_ctrl m w = w" by (auto simp: win_ctrl_def split: option.splits)
  moreover have "i \<in> A" if i: "m = ctrl UCP_FLAG_ACK (of_nat i)" "i < w_read w" "w_pend w = []" for i
  proof (rule ccontr)
    assume "i \<notin> A"
    then have "file_packet b i \<in> set (w_infl w)" using win_inv_packets [OF v] i by auto
    then have "seq_of (file_packet b i) \<in> seq_of ` set (w_infl w)" by (rule imageI)
    then have "split_first (of_nat i) (w_infl w) \<noteq> None" by (simp add: split_first_None)
    then show False using False i(1) by simp
  qed
  ultimately show ?thesis using v by (intro exI [of _ A]) auto
next
  case True
  then obtain us y vs where sp: "split_first (ctrl_seq_no m) (w_infl w) = Some (us, y, vs)" by auto
  then have infl: "w_infl w = us @ y # vs" "seq_of y = ctrl_seq_no m" by (simp_all add: split_first_Some)
  show ?thesis
  proof (cases "ctrl_flag m = UCP_FLAG_NACK")
    case nack: True
    then have "mset (w_pend (win_ctrl m w) @ w_infl (win_ctrl m w)) = mset (w_pend w @ w_infl w)" "w_read (win_ctrl m w) = w_read w"
      using sp infl(1) by (simp_all add: win_ctrl_def)
    then have "win_inv b A (win_ctrl m w)" using v by (simp add: win_inv_def)
    moreover have "m \<noteq> ctrl UCP_FLAG_ACK n" for n using nack by (auto simp: packet_enums)
    ultimately show ?thesis by (intro exI [of _ A]) auto
  next
    case ack: False
    then have fl: "ctrl_flag m = UCP_FLAG_ACK" using True by blast
    have w': "w_read (win_ctrl m w) = w_read w"
        "mset (w_pend w @ w_infl w) = add_mset y (mset (w_pend (win_ctrl m w) @ w_infl (win_ctrl m w)))"
      using fl sp infl(1) by (simp_all add: win_ctrl_def packet_enums)
    have "held (file_packet b) ({0..<w_read w} - A) (w_pend w @ w_infl w)" using v by (simp add: win_inv_def held_def)
    from held_remove [OF this w'(2)] obtain i where i: "i \<in> {0..<w_read w} - A" "y = file_packet b i"
        "held (file_packet b) ({0..<w_read w} - A - {i}) (w_pend (win_ctrl m w) @ w_infl (win_ctrl m w))" by blast
    have ip: "i < packet_count b" using i(1) v by (auto simp: win_inv_def)
    have m: "m = ctrl UCP_FLAG_ACK (of_nat i)" using fl infl(2) i(2) by (cases m) simp
    have "{0..<w_read w} - A - {i} = {0..<w_read w} - insert i A" by blast
    then have "win_inv b (insert i A) (win_ctrl m w)" using v w'(1) i(1,3) by (simp add: win_inv_def held_def)
    moreover have "j = i" if j: "j < packet_count b" "m = ctrl UCP_FLAG_ACK (of_nat j)" for j
      using packet_number_inj [OF j(1) ip len] j(2) m by simp
    moreover have "i \<in> {i. i < packet_count b \<and> m = ctrl UCP_FLAG_ACK (of_nat i)}" using m ip by simp
    ultimately show ?thesis by (intro exI [of _ "insert i A"]) blast
  qed
qed

lemma win_inv_iterate:
  assumes v: "win_inv b A w" and len: "length b < 2 ^ 32" and it: "win_iterate b ms w = Some (p, w')"
  shows "\<exists>A'. win_inv b A' w' \<and> A \<subseteq> A' \<and> A' \<subseteq> A \<union> {i. i < packet_count b \<and> ctrl UCP_FLAG_ACK (of_nat i) \<in> set ms}
    \<and> (\<exists>i < packet_count b. p = file_packet b i)"
proof -
  obtain w1 where w1: "win_next b w = (Some p, w1)"
      "w' = (case ms of [] \<Rightarrow> win_sent p w1 | m # _ \<Rightarrow> win_ctrl m (win_sent p w1))"
    using it by (auto simp: win_iterate_def split: prod.splits option.splits)
  note s = win_inv_next [OF v w1(1)]
  show ?thesis
  proof (cases ms)
    case Nil
    then show ?thesis using s w1(2) by (intro exI [of _ A]) auto
  next
    case (Cons m ms')
    obtain A' where "win_inv b A' (win_ctrl m (win_sent p w1))" "A \<subseteq> A'"
        "A' \<subseteq> A \<union> {i. i < packet_count b \<and> m = ctrl UCP_FLAG_ACK (of_nat i)}"
      using win_inv_ctrl [OF conjunct1 [OF s] len, of m] by blast
    then show ?thesis using s w1(2) Cons by (intro exI [of _ A']) auto
  qed
qed

lemma win_inv_end:
  assumes "win_inv b A w" "win_iterate b ms w = None"
  shows "{0..<packet_count b} \<subseteq> A"
proof -
  obtain w1 where "win_next b w = (None, w1)"
    using assms(2) by (auto simp: win_iterate_def split: prod.splits option.splits)
  then have e: "w_pend w = []" "\<not> w_read w < packet_count b" "w_infl w = []" by (simp_all add: win_next_None)
  then have "w_read w = packet_count b" using assms(1) by (simp add: win_inv_def)
  then have "file_packet b ` ({0..<packet_count b} - A) = {}" using win_inv_packets [OF assms(1)] e by simp
  then show ?thesis by auto
qed


subsection \<open>The invariant of a client thread\<close>

definition client_inv :: "u8 list \<Rightarrow> nat set \<Rightarrow> window \<Rightarrow> int \<Rightarrow> sender \<Rightarrow> kernel \<Rightarrow> bool" where
  "client_inv b A w d S k \<longleftrightarrow> length b < 2 ^ 32 \<and> wrep (memory (client_state S)) (sender_handle S) b w \<and> win_inv b A w
     \<and> length (send_buffer S) = UDP_PACKET_SIZE \<and> connected d (ack_server S) k"

lemma client_iterates_hears:
  assumes v: "client_inv b A w d S k" and a: "2 < avail (memory (client_state S))"
    and hr: "hears garbage (ack_server S) k ms k'" "connected d (ack_server S) k'"
  shows "(\<exists>S'. win_iterate b ms w = None \<and> block_iteration garbage remote S u k = Some (False, S', u, k)
      \<and> done_flag (client_state S') = done_flag (client_state S) \<and> {0..<packet_count b} \<subseteq> A)
    \<or> (\<exists>S' A' w' i. win_iterate b ms w = Some (file_packet b i, w') \<and> i < packet_count b
      \<and> block_iteration garbage remote S u k = Some (\<not> done_flag (client_state S'), S',
          udp_sent remote (data_wire (data_packet (file_packet b i))) u, k')
      \<and> client_inv b A' w' d S' k'
      \<and> A \<subseteq> A' \<and> A' \<subseteq> A \<union> {j. j < packet_count b \<and> ctrl UCP_FLAG_ACK (of_nat j) \<in> set ms}
      \<and> avail (memory (client_state S)) - 3 \<le> avail (memory (client_state S'))
      \<and> done_flag (client_state S') = (done_flag (client_state S) \<or> (\<exists>m ms'. ms = m # ms' \<and> ctrl_flag m = UCP_FLAG_FIN)))"
proof -
  have c: "length b < 2 ^ 32" "wrep (memory (client_state S)) (sender_handle S) b w" "win_inv b A w"
      "length (send_buffer S) = UDP_PACKET_SIZE"
    using v by (simp_all add: client_inv_def)
  note r = block_iteration_hears [OF c(2,1) a c(4) hr win_inv_sendable [OF c(3)], of remote u]
  show ?thesis
  proof (cases "win_iterate b ms w")
    case None
    then show ?thesis using r win_inv_end [OF c(3) None] by auto
  next
    case (Some x)
    obtain p w' where x: "x = (p, w')" by (cases x)
    note it = Some [unfolded x]
    obtain A' i where A': "win_inv b A' w'" "A \<subseteq> A'" "A' \<subseteq> A \<union> {j. j < packet_count b \<and> ctrl UCP_FLAG_ACK (of_nat j) \<in> set ms}"
        "i < packet_count b" "p = file_packet b i"
      using win_inv_iterate [OF c(3,1) it] by blast
    obtain S' where S': "block_iteration garbage remote S u k = Some (\<not> done_flag (client_state S'), S',
          udp_sent remote (data_wire (data_packet p)) u, k')"
        "wrep (memory (client_state S')) (sender_handle S') b w'" "length (send_buffer S') = UDP_PACKET_SIZE"
        "connected d (ack_server S') k'"
        "avail (memory (client_state S)) - 3 \<le> avail (memory (client_state S'))"
        "done_flag (client_state S') = (done_flag (client_state S) \<or> (\<exists>m ms'. ms = m # ms' \<and> ctrl_flag m = UCP_FLAG_FIN))"
      using r unfolding it option.case prod.case by (elim exE conjE) (rule that)
    have "client_inv b A' w' d S' k'"
      using S'(2-4) A'(1) c(1) by (simp add: client_inv_def)
    then show ?thesis using S'(1,5,6) A'(2-5) it
      by (intro disjI2 exI [of _ S'] exI [of _ A'] exI [of _ w'] exI [of _ i]) simp
  qed
qed

lemma client_iterates:
  assumes v: "client_inv b A w d S k" and a: "2 < avail (memory (client_state S))"
    and inc: "incoming k d = concat (map ctrl_wire ms)" "length ms \<le> 170" "\<forall>m \<in> set ms. unat (ctrl_flag m) < 256"
  shows "(\<exists>S'. win_iterate b ms w = None \<and> block_iteration garbage remote S u k = Some (False, S', u, k)
      \<and> done_flag (client_state S') = done_flag (client_state S) \<and> {0..<packet_count b} \<subseteq> A)
    \<or> (\<exists>S' A' w' i. win_iterate b ms w = Some (file_packet b i, w') \<and> i < packet_count b
      \<and> block_iteration garbage remote S u k = Some (\<not> done_flag (client_state S'), S',
          udp_sent remote (data_wire (data_packet (file_packet b i))) u, k\<lparr>incoming := (incoming k)(d := [])\<rparr>)
      \<and> client_inv b A' w' d S' (k\<lparr>incoming := (incoming k)(d := [])\<rparr>)
      \<and> A \<subseteq> A' \<and> A' \<subseteq> A \<union> {j. j < packet_count b \<and> ctrl UCP_FLAG_ACK (of_nat j) \<in> set ms}
      \<and> avail (memory (client_state S)) - 3 \<le> avail (memory (client_state S'))
      \<and> done_flag (client_state S') = (done_flag (client_state S) \<or> (\<exists>m ms'. ms = m # ms' \<and> ctrl_flag m = UCP_FLAG_FIN)))"
proof -
  have cn: "connected d (ack_server S) k" using v by (simp add: client_inv_def)
  show ?thesis
    by (rule client_iterates_hears [OF v a hears_packets [OF cn inc]]) (simp add: cn connected_incoming)
qed

lemma win_iterate_sends_read:
  assumes "length b < 2 ^ 32" "win_inv b A w" "win_iterate b ms w = Some (file_packet b i, w')" "i < packet_count b"
  shows "i < w_read w'"
proof -
  obtain w1 where w1: "win_next b w = (Some (file_packet b i), w1)" "w_read w' = w_read w1"
    using assms(3) by (auto simp: win_iterate_def win_ctrl_def win_sent_def split: prod.splits option.splits list.splits if_splits)
  have v: "win_inv b A (win_sent (file_packet b i) w1)" using win_inv_next [OF assms(2) w1(1)] by blast
  from win_inv_member [OF v, of "file_packet b i"] obtain j where
    j: "j < w_read w1" "file_packet b i = file_packet b j" by (auto simp: win_sent_def)
  have "w_read w1 \<le> packet_count b" using v by (simp add: win_inv_def win_sent_def)
  then have "j < packet_count b" using j(1) by simp
  moreover have "of_nat i = (of_nat j :: u32)" using j(2) by (metis seq_of_file_packet)
  ultimately have "i = j" using packet_number_inj [OF assms(4) _ assms(1)] by blast
  with j(1) w1(2) show ?thesis by simp
qed

subsection \<open>Properties\<close>

text \<open>C7: one iteration of the client's loop, with one live connection to its server, whatever bytes wait on it, any number of
  them and cut anywhere: it returns; it sends one packet of the part, exactly as read from the file, and keeps it in
  flight until it is acknowledged; every packet read so far is either still in the window, once, or was named by
  an ACK that was heard; and the loop ends only when every packet of the part has been acknowledged or a FIN was heard. What is
  heard is the control packet at the head of the (at most 1024) bytes that the iteration reads, if they begin with one;
  the bytes behind it are dropped with it. The callback's uninitialised packet must not happen to be a control packet,
  and memory must last.\<close>

theorem block_iteration_correct:
  assumes "length b < 2 ^ 32" "wrep (memory (client_state S)) (sender_handle S) b w" "win_inv b A w"
    and "length (send_buffer S) = UDP_PACKET_SIZE" "connected d (ack_server S) k" "2 < avail (memory (client_state S))"
    and "pkt_type garbage \<noteq> UCP_PACKET_TYPE_CTRL" "\<not> done_flag (client_state S)"
  shows "\<exists>go S' u' k' w' A'. block_iteration garbage remote S u k = Some (go, S', u', k')
    \<and> wrep (memory (client_state S')) (sender_handle S') b w' \<and> win_inv b A' w'
    \<and> A \<subseteq> A' \<and> A' \<subseteq> A \<union> {j. j < packet_count b \<and> ctrl UCP_FLAG_ACK (of_nat j) \<in> set (heard (take 1024 (incoming k d)))}
    \<and> (go \<longrightarrow> (\<exists>i < packet_count b. u' = udp_sent remote (data_wire (data_packet (file_packet b i))) u \<and> i < w_read w')
        \<and> k' = k\<lparr>incoming := (incoming k)(d := drop 1024 (incoming k d))\<rparr>)
    \<and> (\<not> go \<longrightarrow> {0..<packet_count b} \<subseteq> A' \<or> (\<exists>m \<in> set (heard (take 1024 (incoming k d))). ctrl_flag m = UCP_FLAG_FIN))"
proof -
  define ms where "ms = heard (take 1024 (incoming k d))"
  let ?k = "k\<lparr>incoming := (incoming k)(d := drop 1024 (incoming k d))\<rparr>"
  have v: "client_inv b A w d S k" using assms(1-5) by (simp add: client_inv_def)
  have hr: "hears garbage (ack_server S) k ms ?k" unfolding ms_def by (rule tick_hears [OF assms(5,7)])
  have cn: "connected d (ack_server S) ?k" using assms(5) by (simp add: connected_incoming)
  consider S' where "win_iterate b ms w = None" "block_iteration garbage remote S u k = Some (False, S', u, k)"
      "{0..<packet_count b} \<subseteq> A"
    | S' A' w' i where "win_iterate b ms w = Some (file_packet b i, w')" "i < packet_count b"
      "block_iteration garbage remote S u k = Some (\<not> done_flag (client_state S'), S',
          udp_sent remote (data_wire (data_packet (file_packet b i))) u, ?k)"
      "client_inv b A' w' d S' ?k"
      "A \<subseteq> A'" "A' \<subseteq> A \<union> {j. j < packet_count b \<and> ctrl UCP_FLAG_ACK (of_nat j) \<in> set ms}"
      "done_flag (client_state S') = (\<exists>m ms'. ms = m # ms' \<and> ctrl_flag m = UCP_FLAG_FIN)"
    using client_iterates_hears [OF v assms(6) hr cn, of remote u] assms(8) by blast
  then show ?thesis
  proof cases
    case 1
    have "wrep (memory (client_state S')) (sender_handle S') b w"
      using block_iteration_hears [OF assms(2,1,6,4) hr cn win_inv_sendable [OF assms(3)], of remote u] 1(1,2) by auto
    with 1 assms(3) show ?thesis
      by (intro exI [of _ False] exI [of _ S'] exI [of _ u] exI [of _ k] exI [of _ w] exI [of _ A]) simp
  next
    case 2
    have "i < w_read w'" by (rule win_iterate_sends_read [OF assms(1,3) 2(1,2)])
    moreover have "\<exists>m \<in> set ms. ctrl_flag m = UCP_FLAG_FIN" if "done_flag (client_state S')" using that 2(7) by auto
    ultimately show ?thesis using 2(2-6) unfolding ms_def
      by (intro exI [of _ "\<not> done_flag (client_state S')"] exI [of _ S']
          exI [of _ "udp_sent remote (data_wire (data_packet (file_packet b i))) u"]
          exI [of _ ?k] exI [of _ w'] exI [of _ A'] conjI)
        (auto simp: client_inv_def)
  qed
qed

definition example_sender :: "u8 list \<Rightarrow> sender" where
  "example_sender b = \<lparr>client_state = example_client_state b,
     sender_handle = zero_handle\<lparr>fp := Some ((example_file b)\<lparr>pos := length b\<rparr>)\<rparr>,
     send_buffer = replicate UDP_PACKET_SIZE 0,
     ack_server = \<lparr>sd = 3, max_sd = 5, server_fd_set = {3, 5}, endpoints = [\<lparr>ep_addr = zero_addr, ep_sd = 5\<rparr>]\<rparr>\<rparr>"

definition example_net :: udp_net where
  "example_net = \<lparr>udp_next_sd = 3, udp_bind_ok = True, inbox = [], sent = [], send_ok = True\<rparr>"

definition example_connection :: "u8 list \<Rightarrow> kernel" where
  "example_connection xs = \<lparr>open_sds = {3, 5}, next_sd = 9, bind_ok = True, listen_ok = True, connect_ok = True,
     sockname = None, backlog = [], incoming = (\<lambda>d. if d = 5 then xs else []), hung_up = (\<lambda>_. False),
     broken = (\<lambda>_. False), outgoing = (\<lambda>_. []), accepts = (\<lambda>_. Some 1500), net_alloc = True\<rparr>"

theorem block_iteration_correct_witness:
  "\<exists>S' u' k' w'. block_iteration (example_packet 0) zero_addr (example_sender (replicate 9200 7)) example_net
      (example_connection (ctrl_wire (ctrl UCP_FLAG_ACK 0) @ [1, 1])) = Some (True, S', u', k') \<and> incoming k' 5 = []
    \<and> (\<exists>A'. A' \<subseteq> {0} \<and> win_inv (replicate 9200 7) A' w')"
proof -
  let ?b = "replicate 9200 (7 :: u8)" and ?w = "\<lparr>w_read = 2, w_pend = [file_packet (replicate 9200 7) 1],
      w_infl = [file_packet (replicate 9200 7) 0]\<rparr>" and ?m = "ctrl UCP_FLAG_ACK 0"
  let ?k = "example_connection (ctrl_wire ?m @ [1, 1])"
  have pc: "packet_count ?b = 2" by (simp add: packet_count_def UDP_PACKET_DATA_SIZE_val)
  have "reading (sender_handle (example_sender ?b)) ?b 2"
    by (simp add: reading_def pc example_sender_def example_file_def UDP_PACKET_DATA_SIZE_val)
  then have w: "wrep (memory (client_state (example_sender ?b))) (sender_handle (example_sender ?b)) ?b ?w"
    using example_memory_ok [of ?b] by (auto simp: wrep_def example_sender_def example_client_state_def)
  have "{0..<2 :: nat} = {0, 1}" by auto
  then have i: "win_inv ?b {} ?w" by (simp add: win_inv_def pc)
  have inc: "take 1024 (incoming ?k 5) = ctrl_wire ?m @ [1, 1]" "incoming ?k 5 = ctrl_wire ?m @ [1, 1]"
    by (simp_all add: example_connection_def)
  have "unat (ctrl_flag ?m) < 256" by (simp add: packet_enums)
  then have h: "heard (take 1024 (incoming ?k 5)) = [?m]" unfolding inc(1) by (rule heard_ctrl_wire)
  have hyps: "length ?b < 2 ^ 32" "length (send_buffer (example_sender ?b)) = UDP_PACKET_SIZE"
      "connected 5 (ack_server (example_sender ?b)) ?k" "2 < avail (memory (client_state (example_sender ?b)))"
      "pkt_type (example_packet 0) \<noteq> UCP_PACKET_TYPE_CTRL" "\<not> done_flag (client_state (example_sender ?b))"
    by (simp_all add: example_sender_def example_connection_def connected_def example_client_state_def example_memory_def
        packet_enums example_packet_ok)
  obtain go S' u' k' w' A' where r: "block_iteration (example_packet 0) zero_addr (example_sender ?b) example_net
      ?k = Some (go, S', u', k')" "win_inv ?b A' w'"
      "A' \<subseteq> {} \<union> {j. j < packet_count ?b \<and> ctrl UCP_FLAG_ACK (of_nat j) \<in> set [?m]}"
      "go \<longrightarrow> k' = ?k\<lparr>incoming := (incoming ?k)(5 := drop 1024 (incoming ?k 5))\<rparr>"
      "\<not> go \<longrightarrow> {0..<packet_count ?b} \<subseteq> A' \<or> (\<exists>m \<in> set [?m]. ctrl_flag m = UCP_FLAG_FIN)"
    using block_iteration_correct [OF hyps(1) w i hyps(2-6), of zero_addr example_net] unfolding h by blast
  have "A' \<subseteq> {0}"
  proof
    fix j assume "j \<in> A'"
    then have j: "j < 2" "of_nat j = (0 :: u32)" using r(3) pc by auto
    then show "j \<in> {0}" by (cases j) (auto simp: less_Suc_eq)
  qed
  moreover from this have "1 \<notin> A'" by auto
  then have "\<not> {0..<2 :: nat} \<subseteq> A'" using subsetD [of "{0..<2}" A' 1] by auto
  then have go: "go = True" using r(5) pc by (auto simp: packet_enums)
  moreover have "incoming k' 5 = []" using r(4) go inc(2) by simp
  ultimately show ?thesis using r(2) r(1) [unfolded go] by blast
qed

end
