(* ===== verification/Client_Main.thy ===== *)
theory Client_Main
  imports Ucp_Client
begin

text \<open>
  The rest of \<open>ucp_client.c\<close>: the start of \<open>block_thread\<close> up to the connection from the server, \<open>main\<close> with its
  arguments and thread contexts, and the statistics.
\<close>

subsection \<open>The start of a thread\<close>

record timeval =
  tv_sec :: int
  tv_usec :: int

text \<open>
  The context of a thread. A string pointer is what reading through it gives: \<open>None\<close> when that faults. An
  uninitialised pointer is whatever its bytes happen to be, so it may be either; for the handle, \<open>None\<close> is a
  pointer into an array that was not allocated.
\<close>

record thread_ctx =
  start_time :: timeval
  end_time :: timeval
  ctx_handle :: "file_io_partition_handle option"
  dst_ip :: "string option"
  dst_filename :: "string option"

definition name_bytes :: "string \<Rightarrow> u8 list" where
  "name_bytes s = map of_char s"

partial_function (option) accept_loop :: "tcp_server \<Rightarrow> kernel \<Rightarrow> (tcp_server \<times> kernel) option" where
  "accept_loop server k = do {
     (r, server, k) \<leftarrow> tcp_server_accept server k;
     if r = 0 then accept_loop server k else Some (server, k)
   }"

text \<open>
  \<open>block_thread\<close> up to the connection from the server, in the three parts of its text. First the sockets and the address,
  before anything is sent: the result is \<open>None\<close> inside when the thread gives up; a store through the server pointer
  when there is no live server is a fault. \<open>inet_addr\<close> is the library's conversion of the address.
\<close>

definition block_open ::
    "(string \<Rightarrow> u32) \<Rightarrow> bool \<Rightarrow> thread_ctx \<Rightarrow> udp_net \<Rightarrow> kernel \<Rightarrow> ((tcp_server \<times> sockaddr_in) option \<times> kernel) option" where
  "block_open inet_addr calloc_ok ctx u k = do {
     handle \<leftarrow> ctx_handle ctx;
     sock_fd \<leftarrow> create_socket (of_nat CLIENT_BASE_PORT + ucast (idx handle)) (Some zero_addr) u;
     if sock_fd < 0 then Some (None, k)
     else do {
       (started, k) \<leftarrow> tcp_server_start calloc_ok k;
       tcp_server \<leftarrow> (case started of Start_live s \<Rightarrow> Some s | _ \<Rightarrow> None);
       ip \<leftarrow> dst_ip ctx;
       let remote_addr = \<lparr>sin_family = AF_INET, sin_port = htons (of_nat SERVER_BASE_PORT + ucast (idx handle)),
         s_addr = inet_addr ip\<rparr>;
       Some (Some (tcp_server, remote_addr), k)
     }
   }"

text \<open>Then the metadata packet is made in the uninitialised buffer \<open>buf\<close> and sent.\<close>

definition block_announce ::
    "bool \<Rightarrow> u8 list \<Rightarrow> thread_ctx \<Rightarrow> sockaddr_in \<Rightarrow> udp_net \<Rightarrow> (u8 list \<times> udp_net) option" where
  "block_announce malloc_ok buf ctx remote_addr u = do {
     handle \<leftarrow> ctx_handle ctx;
     name \<leftarrow> dst_filename ctx;
     metadata_packet \<leftarrow> ucp_packet_init_metadata malloc_ok (name_bytes name) (of_nat (length name))
       (idx handle) (handle_part_size handle);
     (len, b) \<leftarrow> ucp_packet_encode metadata_packet (Some buf) (of_nat (length buf));
     buf \<leftarrow> b;
     (_, u) \<leftarrow> udp_socket_send remote_addr buf len u;
     Some (buf, u)
   }"

text \<open>Last the connection is accepted.\<close>

definition block_setup ::
    "(string \<Rightarrow> u32) \<Rightarrow> bool \<Rightarrow> bool \<Rightarrow> u8 list \<Rightarrow> thread_ctx \<Rightarrow> udp_net \<Rightarrow> kernel
      \<Rightarrow> ((tcp_server \<times> sockaddr_in \<times> u8 list) option \<times> udp_net \<times> kernel) option" where
  "block_setup inet_addr calloc_ok malloc_ok buf ctx u k = do {
     (opened, k) \<leftarrow> block_open inet_addr calloc_ok ctx u k;
     case opened of
       None \<Rightarrow> Some (None, u, k)
     | Some (tcp_server, remote_addr) \<Rightarrow> do {
         (buf, u) \<leftarrow> block_announce malloc_ok buf ctx remote_addr u;
         (tcp_server, k) \<leftarrow> accept_loop tcp_server k;
         Some (Some (tcp_server, remote_addr, buf), u, k)
       }
   }"

text \<open>
  The locals of \<open>block_thread\<close> when it enters its sending loop, with the address it sends to and its context; \<open>now\<close> is
  the time of day. After the loop the thread records the time again; closing the socket changes nothing that can be
  seen.
\<close>

definition block_thread_start ::
    "(string \<Rightarrow> u32) \<Rightarrow> bool \<Rightarrow> bool \<Rightarrow> u8 list \<Rightarrow> timeval \<Rightarrow> thread_ctx \<Rightarrow> client \<Rightarrow> udp_net \<Rightarrow> kernel
      \<Rightarrow> ((thread_ctx \<times> sockaddr_in \<times> sender) option \<times> udp_net \<times> kernel) option" where
  "block_thread_start inet_addr calloc_ok malloc_ok buf now ctx c u k = do {
     (r, u, k) \<leftarrow> block_setup inet_addr calloc_ok malloc_ok buf ctx u k;
     handle \<leftarrow> ctx_handle ctx;
     Some (map_option (\<lambda>(tcp_server, remote_addr, buf). (ctx\<lparr>start_time := now\<rparr>, remote_addr,
       \<lparr>client_state = c, sender_handle = handle, send_buffer = buf, ack_server = tcp_server\<rparr>)) r, u, k)
   }"

definition block_thread_end :: "timeval \<Rightarrow> thread_ctx \<Rightarrow> thread_ctx" where
  "block_thread_end now ctx = ctx\<lparr>end_time := now\<rparr>"

subsection \<open>The arguments and contexts of main\<close>

text \<open>\<open>strtok\<close> with the delimiter \<open>:\<close>: the token, or NULL, and what is left for the next call.\<close>

definition strtok :: "string \<Rightarrow> string option \<times> string" where
  "strtok s = (let t = dropWhile (\<lambda>c. c = CHR '':'') s in
     if t = [] then (None, [])
     else (Some (takeWhile (\<lambda>c. c \<noteq> CHR '':'') t), drop 1 (dropWhile (\<lambda>c. c \<noteq> CHR '':'') t)))"

text \<open>\<open>strdup\<close> of a null pointer is a fault.\<close>

definition parse_destination :: "string \<Rightarrow> (string \<times> string) option" where
  "parse_destination dst = (case strtok dst of (a, rest) \<Rightarrow> do {
     ip \<leftarrow> a;
     name \<leftarrow> fst (strtok rest);
     Some (ip, name)
   })"

definition init_lists :: "client_mem \<Rightarrow> client_mem option" where
  "init_lists s = do {
     let zero = \<lparr>obj = 0, nxt = 0, prv = 0\<rparr>;
     let s = s\<lparr>elems := (elems s)(in_flight_packet_list \<mapsto> zero), members := (members s)(in_flight_packet_list := 0)\<rparr>;
     (_, s) \<leftarrow> LinkedListInit s in_flight_packet_list;
     let s = s\<lparr>elems := (elems s)(pending_packet_list \<mapsto> zero), members := (members s)(pending_packet_list := 0)\<rparr>;
     (_, s) \<leftarrow> LinkedListInit s pending_packet_list;
     Some s
   }"

text \<open>
  \<open>main\<close> up to the start of the threads. The destination is stored through \<open>thread_ctx->\<close>, that is, into the
  first context; the others keep what the uninitialised array \<open>thread_ctxs\<close> holds.
\<close>

definition client_main ::
    "shell \<Rightarrow> bool \<Rightarrow> string list \<Rightarrow> thread_ctx list \<Rightarrow> client_mem \<Rightarrow> disk
      \<Rightarrow> ((client_mem \<times> thread_ctx list) option \<times> disk) option" where
  "client_main sh calloc_ok argv thread_ctxs s d =
     (if length argv \<noteq> 3 then Some (None, d)
      else do {
        (ip, name) \<leftarrow> parse_destination (argv ! 2);
        let ctxs = thread_ctxs[0 := (thread_ctxs ! 0)\<lparr>dst_ip := Some ip, dst_filename := Some name\<rparr>];
        s \<leftarrow> init_lists s;
        (handles, d) \<leftarrow> file_io_partition_file sh calloc_ok (argv ! 1) (int NUM_THREADS) d;
        let ctxs = map (\<lambda>i. (ctxs ! i)\<lparr>ctx_handle := map_option (\<lambda>hs. hs ! i) handles\<rparr>) [0..<NUM_THREADS];
        Some (Some (s, ctxs), d)
      })"

subsection \<open>Statistics\<close>

text \<open>The microseconds are \<open>long int\<close>, 64 bits.\<close>

definition get_total_time_taken :: "timeval \<Rightarrow> timeval \<Rightarrow> int" where
  "get_total_time_taken start end' = (
     let start_time_micro = (of_int (tv_sec start) * 1000000 + of_int (tv_usec start) :: u64);
         end_time_micro = of_int (tv_sec end') * 1000000 + of_int (tv_usec end');
         total_time_micro = end_time_micro - start_time_micro in
     sint total_time_micro)"

fun start_loop :: "thread_ctx list \<Rightarrow> timeval \<Rightarrow> timeval" where
  "start_loop [] t = t"
| "start_loop (c # cs) t = start_loop cs
     (if tv_sec (start_time c) < tv_sec t then start_time c
      else if tv_sec (start_time c) = tv_sec t then
        if tv_usec (start_time c) < tv_usec t then start_time c else t
      else t)"

fun end_loop :: "thread_ctx list \<Rightarrow> timeval \<Rightarrow> timeval" where
  "end_loop [] t = t"
| "end_loop (c # cs) t = end_loop cs
     (if tv_sec (end_time c) > tv_sec t then end_time c
      else if tv_sec (end_time c) = tv_sec t then
        if tv_usec (end_time c) > tv_usec t then end_time c else t
      else t)"

fun bytes_loop :: "thread_ctx list \<Rightarrow> u64 \<Rightarrow> u64 option" where
  "bytes_loop [] acc = Some acc"
| "bytes_loop (c # cs) acc = do {
     h \<leftarrow> ctx_handle c;
     bytes_loop cs (acc + ucast (handle_part_size h))
   }"

text \<open>
  What \<open>report_statistics\<close> computes before it prints: the bytes and the microseconds. The rate is
  floating-point arithmetic on these two and is not modelled.
\<close>

definition report_statistics :: "thread_ctx list \<Rightarrow> u8 \<Rightarrow> (u64 \<times> int) option" where
  "report_statistics ctxs num_threads = (case ctxs of
     [] \<Rightarrow> None
   | c # _ \<Rightarrow> if length ctxs < unat num_threads then None
       else do {
         let start = start_loop (drop 1 (take (unat num_threads) ctxs)) (start_time c);
         let end' = end_loop (drop 1 (take (unat num_threads) ctxs)) (end_time c);
         total_bytes \<leftarrow> bytes_loop (take (unat num_threads) ctxs) 0;
         Some (total_bytes, get_total_time_taken start end')
       })"

text \<open>The unit and the divisor with which \<open>print_time\<close> prints, or nothing at all.\<close>

definition print_time :: "int \<Rightarrow> (string \<times> int) option" where
  "print_time t = (if t < 1000 then Some (''us'', 1)
     else if t < 1000 * 1000 then Some (''ms'', 1000)
     else if t < 1000 * 1000 * 1000 then Some (''s'', 1000000)
     else None)"

text \<open>\<open>main\<close> after the threads have been joined; \<open>handles\<close> is the array that the contexts point into.\<close>

definition client_exit :: "thread_ctx list \<Rightarrow> file_io_partition_handle list \<Rightarrow> disk \<Rightarrow> ((u64 \<times> int) \<times> disk) option" where
  "client_exit ctxs handles d = do {
     stats \<leftarrow> report_statistics ctxs (of_nat NUM_THREADS);
     d \<leftarrow> file_io_partition_release handles (of_nat NUM_THREADS) d;
     Some (stats, d)
   }"

subsection \<open>Evaluated\<close>

lemma init_lists_ok:
  assumes "wf_mem s" "2 < brk s" "dom (packets s) \<subseteq> {0<..<brk s}"
  shows "\<exists>s'. init_lists s = Some s' \<and> crep s' [] [] \<and> avail s' = avail s"
proof -
  let ?z = "\<lparr>obj = 0, nxt = 0, prv = 0\<rparr>" and ?F = in_flight_packet_list and ?P = pending_packet_list
  have n: "?F \<noteq> NULL" "?P \<noteq> NULL" "?F \<noteq> ?P" "?F < brk s" "?P < brk s"
    using assms(2) by (simp_all add: in_flight_packet_list_def pending_packet_list_def)
  define s1 where "s1 = s\<lparr>elems := (elems s)(?F \<mapsto> ?z), members := (members s)(?F := 0)\<rparr>"
  have "elems s1 ?F = Some ?z" by (simp add: s1_def)
  from Init_dll [OF this n(1)] obtain E1 where E1: "LinkedListInit s1 ?F = Some (True, s1\<lparr>elems := E1\<rparr>)" "dll E1 ?F []"
      "dom E1 = dom (elems s1)" by blast
  define s2 where "s2 = s1\<lparr>elems := E1(?P \<mapsto> ?z), members := (members s1)(?P := 0)\<rparr>"
  have "elems s2 ?P = Some ?z" by (simp add: s2_def)
  from Init_dll [OF this n(2)] obtain E2 where E2: "LinkedListInit s2 ?P = Some (True, s2\<lparr>elems := E2\<rparr>)" "dll E2 ?P []"
      "dom E2 = dom (elems s2)" "\<forall>p. p \<noteq> ?P \<longrightarrow> E2 p = elems s2 p" by blast
  have "init_lists s = Some (s2\<lparr>elems := E2\<rparr>)"
    using E1(1) E2(1) by (simp add: init_lists_def s1_def s2_def Let_def)
  moreover have "dll E2 ?F [] = dll E1 ?F []"
    by (rule dll_cong) (use E2(4) n(3) in \<open>simp add: s2_def\<close>)
  moreover have "dom E2 \<subseteq> {0<..<brk s}"
    using E2(3) E1(3) assms(1) n by (auto simp: s2_def s1_def wf_mem_def)
  ultimately have "two_lists (s2\<lparr>elems := E2\<rparr>) ?P [] [] ?F [] []"
    using E2(2) E1(2) assms(1,3) n by (simp add: two_lists_def wf_mem_def s2_def s1_def)
  then show ?thesis using \<open>init_lists s = _\<close> by (auto simp: s2_def s1_def)
qed

text \<open>A thread that cannot read its destination address gives up or faults before it sends anything.\<close>

lemma block_open_no_destination:
  "dst_ip c = None \<Longrightarrow> block_open inet_addr calloc_ok c u k = Some (r, k') \<Longrightarrow> r = None"
  by (auto simp: block_open_def Let_def split: bind_splits if_splits option.splits start_result.splits)

lemma strtok_plain:
  assumes "xs \<noteq> []" "CHR '':'' \<notin> set xs" shows "strtok xs = (Some xs, [])"
proof -
  have ne: "\<forall>x \<in> set xs. x \<noteq> CHR '':''" using assms(2) by auto
  then have t: "takeWhile (\<lambda>c. c \<noteq> CHR '':'') xs = xs" "dropWhile (\<lambda>c. c \<noteq> CHR '':'') xs = []" by simp_all
  have d: "dropWhile (\<lambda>c. c = CHR '':'') xs = xs" using assms(1) ne by (cases xs) auto
  show ?thesis using assms(1) unfolding strtok_def Let_def d t by simp
qed

lemma strtok_colon:
  assumes "xs \<noteq> []" "CHR '':'' \<notin> set xs" shows "strtok (xs @ CHR '':'' # ys) = (Some xs, ys)"
proof -
  have ne: "\<forall>x \<in> set xs. x \<noteq> CHR '':''" using assms(2) by auto
  then have t: "takeWhile (\<lambda>c. c \<noteq> CHR '':'') (xs @ CHR '':'' # ys) = xs"
      "dropWhile (\<lambda>c. c \<noteq> CHR '':'') (xs @ CHR '':'' # ys) = CHR '':'' # ys"
    by simp_all
  have d: "dropWhile (\<lambda>c. c = CHR '':'') (xs @ CHR '':'' # ys) = xs @ CHR '':'' # ys"
    using assms(1) ne by (cases xs) auto
  show ?thesis using assms(1) unfolding strtok_def Let_def d t by simp
qed

lemma parse_destination_eval:
  "ip \<noteq> [] \<Longrightarrow> name \<noteq> [] \<Longrightarrow> CHR '':'' \<notin> set ip \<Longrightarrow> CHR '':'' \<notin> set name \<Longrightarrow>
    parse_destination (ip @ CHR '':'' # name) = Some (ip, name)"
  by (simp add: parse_destination_def strtok_colon strtok_plain)

text \<open>The contexts that \<open>main\<close> gives to its threads.\<close>

definition started_ctxs :: "thread_ctx list \<Rightarrow> string \<Rightarrow> string \<Rightarrow> u8 list list \<Rightarrow> thread_ctx list" where
  "started_ctxs ctxs ip name parts = map (\<lambda>i. (ctxs[0 := (ctxs ! 0)\<lparr>dst_ip := Some ip, dst_filename := Some name\<rparr>] ! i)
     \<lparr>ctx_handle := Some (part_handle i (parts ! i))\<rparr>) [0..<NUM_THREADS]"

lemma started_ctxs_nth:
  assumes "length ctxs = NUM_THREADS" "i < NUM_THREADS"
  shows "started_ctxs ctxs ip name parts ! i = (if i = 0 then (ctxs ! 0)\<lparr>dst_ip := Some ip, dst_filename := Some name\<rparr> else ctxs ! i)
    \<lparr>ctx_handle := Some (part_handle i (parts ! i))\<rparr>"
  using assms by (simp add: started_ctxs_def nth_list_update)

lemma client_main_runs:
  assumes "ip \<noteq> []" "name \<noteq> []" "CHR '':'' \<notin> set ip" "CHR '':'' \<notin> set name"
    and "sh (take 254 (''/usr/bin/split -d -n '' @ show_int (int NUM_THREADS) @ '' '' @ src @ '' tmp_'')) d = Some (0, d')"
    and "\<forall>i < NUM_THREADS. files d' (part_path i) = Some (parts ! i) \<and> may_open d' (part_path i)"
    and "wf_mem s" "2 < brk s" "dom (packets s) \<subseteq> {0<..<brk s}"
  shows "\<exists>s'. client_main sh True [prog, src, ip @ CHR '':'' # name] ctxs s d = Some (Some (s', started_ctxs ctxs ip name parts), d')
    \<and> crep s' [] []"
proof -
  obtain s' where s': "init_lists s = Some s'" "crep s' [] []" using init_lists_ok [OF assms(7-9)] by blast
  have "partition_loop d' (int NUM_THREADS) 0 (replicate NUM_THREADS zero_handle)
      = Some (Some (map (\<lambda>i. part_handle i (parts ! i)) [0..<NUM_THREADS]))"
    using partition_loop_parts [of NUM_THREADS d' parts "[]" 0] assms(6) by (simp add: NUM_THREADS_def)
  then have "file_io_partition_file sh True src (int NUM_THREADS) d
      = Some (Some (map (\<lambda>i. part_handle i (parts ! i)) [0..<NUM_THREADS]), d')"
    using assms(5) by (simp add: file_io_partition_file_def)
  with s' show ?thesis
    using parse_destination_eval [OF assms(1-4)] by (simp add: client_main_def started_ctxs_def Let_def)
qed

lemma part_handle_fresh:
  "i < NUM_THREADS \<Longrightarrow> fresh_handle (part_handle i b) b \<and> unat (idx (part_handle i b)) = i
    \<and> handle_part_size (part_handle i b) = of_nat (length b)"
  using unat_u8 [of i] by (simp add: part_handle_def fresh_handle_def NUM_THREADS_def)

subsection \<open>Properties\<close>

text \<open>C33: \<open>main\<close> of the client with three arguments: a destination \<open>ip:name\<close> is split at the colon, and one without a
  second part makes \<open>strdup\<close> read a null pointer; the lists start empty; thread \<open>i\<close> gets a fresh handle on
  part \<open>i\<close> of the file. Only the first thread gets the destination: every other context keeps, as its address
  and name, what the uninitialised array held. If reading that address faults, so does the thread (unless it has given
  up before), in the part of \<open>block_thread\<close> that comes before the first send; the whole set-up then either faults or
  gives up with nothing sent.\<close>

theorem client_main_correct:
  assumes "ip \<noteq> []" "name \<noteq> []" "CHR '':'' \<notin> set ip" "CHR '':'' \<notin> set name"
    and "sh (take 254 (''/usr/bin/split -d -n '' @ show_int (int NUM_THREADS) @ '' '' @ src @ '' tmp_'')) d = Some (0, d')"
    and "length parts = NUM_THREADS" "\<forall>i < NUM_THREADS. files d' (part_path i) = Some (parts ! i) \<and> may_open d' (part_path i)"
    and "wf_mem s" "2 < brk s" "dom (packets s) \<subseteq> {0<..<brk s}" "length ctxs = NUM_THREADS"
  shows "(\<exists>s' ctxs'. client_main sh True [prog, src, ip @ CHR '':'' # name] ctxs s d = Some (Some (s', ctxs'), d')
      \<and> crep s' [] [] \<and> length ctxs' = NUM_THREADS
      \<and> (\<forall>i < NUM_THREADS. \<exists>h. ctx_handle (ctxs' ! i) = Some h \<and> fresh_handle h (parts ! i) \<and> unat (idx h) = i
          \<and> handle_part_size h = of_nat (length (parts ! i)))
      \<and> dst_ip (ctxs' ! 0) = Some ip \<and> dst_filename (ctxs' ! 0) = Some name
      \<and> (\<forall>i < NUM_THREADS. 0 < i \<longrightarrow> dst_ip (ctxs' ! i) = dst_ip (ctxs ! i) \<and> dst_filename (ctxs' ! i) = dst_filename (ctxs ! i))
      \<and> (\<forall>i < NUM_THREADS. 0 < i \<and> dst_ip (ctxs ! i) = None \<longrightarrow> (\<forall>inet ok ok' buf u k.
            (case block_open inet ok (ctxs' ! i) u k of None \<Rightarrow> True | Some (r, _) \<Rightarrow> r = None)
            \<and> (case block_setup inet ok ok' buf (ctxs' ! i) u k of None \<Rightarrow> True | Some (r, u', _) \<Rightarrow> r = None \<and> u' = u))))
    \<and> client_main sh True [prog, src, ip] ctxs s d = None"
proof -
  have N: "0 < NUM_THREADS" by (simp add: NUM_THREADS_def)
  let ?ctxs = "started_ctxs ctxs ip name parts"
  obtain s' where run: "client_main sh True [prog, src, ip @ CHR '':'' # name] ctxs s d = Some (Some (s', ?ctxs), d')" "crep s' [] []"
    using client_main_runs [of ip name sh src d d' parts s, OF assms(1-5,7-10)] by blast
  note ctx = started_ctxs_nth [OF assms(11), of _ ip name parts]
  have keep: "\<forall>i < NUM_THREADS. 0 < i \<longrightarrow> dst_ip (?ctxs ! i) = dst_ip (ctxs ! i) \<and> dst_filename (?ctxs ! i) = dst_filename (ctxs ! i)"
    using ctx by simp
  have op: "case block_open inet ok (?ctxs ! i) u k of None \<Rightarrow> True | Some (r, _) \<Rightarrow> r = None"
    if "i < NUM_THREADS" "0 < i" "dst_ip (ctxs ! i) = None" for i inet ok u k
  proof -
    have "dst_ip (?ctxs ! i) = None" using keep that by simp
    then show ?thesis by (auto split: option.splits dest: block_open_no_destination)
  qed
  have "case block_setup inet ok ok' buf (?ctxs ! i) u k of None \<Rightarrow> True | Some (r, u', _) \<Rightarrow> r = None \<and> u' = u"
    if "i < NUM_THREADS" "0 < i" "dst_ip (ctxs ! i) = None" for i inet ok ok' buf u k
    using op [OF that, of inet ok u k] by (auto simp: block_setup_def split: option.splits bind_splits)
  then have "\<forall>i < NUM_THREADS. 0 < i \<and> dst_ip (ctxs ! i) = None \<longrightarrow> (\<forall>inet ok ok' buf u k.
            (case block_open inet ok (?ctxs ! i) u k of None \<Rightarrow> True | Some (r, _) \<Rightarrow> r = None)
            \<and> (case block_setup inet ok ok' buf (?ctxs ! i) u k of None \<Rightarrow> True | Some (r, u', _) \<Rightarrow> r = None \<and> u' = u))"
    using op by blast
  moreover have "\<forall>i < NUM_THREADS. \<exists>h. ctx_handle (?ctxs ! i) = Some h \<and> fresh_handle h (parts ! i) \<and> unat (idx h) = i
          \<and> handle_part_size h = of_nat (length (parts ! i))"
    using ctx part_handle_fresh by simp
  moreover have "dst_ip (?ctxs ! 0) = Some ip \<and> dst_filename (?ctxs ! 0) = Some name" using ctx [of 0] N by simp
  moreover have "client_main sh True [prog, src, ip] ctxs s d = None"
    using strtok_plain [OF assms(1,3)] by (simp add: client_main_def parse_destination_def strtok_def [of "[]"])
  moreover have "length ?ctxs = NUM_THREADS" by (simp add: started_ctxs_def)
  ultimately show ?thesis using run keep by blast
qed

definition example_shell :: shell where
  "example_shell = (\<lambda>c d. Some (0, d\<lparr>files := (\<lambda>_. Some [7])\<rparr>))"

definition example_disk :: disk where
  "example_disk = \<lparr>files = Map.empty, may_open = (\<lambda>_. True)\<rparr>"

definition blank_memory :: client_mem where
  "blank_memory = \<lparr>elems = Map.empty, members = (\<lambda>_. 0), brk = 3, avail = 100, packets = Map.empty\<rparr>"

definition blank_ctx :: thread_ctx where
  "blank_ctx = \<lparr>start_time = \<lparr>tv_sec = 0, tv_usec = 0\<rparr>, end_time = \<lparr>tv_sec = 0, tv_usec = 0\<rparr>, ctx_handle = None,
     dst_ip = None, dst_filename = None\<rparr>"

theorem client_main_correct_witness:
  "\<exists>s' ctxs' d'. client_main example_shell True [''ucp'', ''a'', ''1.2.3.4:b''] (replicate 10 blank_ctx) blank_memory example_disk
      = Some (Some (s', ctxs'), d') \<and> dst_ip (ctxs' ! 0) = Some ''1.2.3.4''
    \<and> (\<forall>inet u k. case block_setup inet True True [] (ctxs' ! 1) u k of None \<Rightarrow> True | Some (r, u', _) \<Rightarrow> r = None \<and> u' = u)"
proof -
  have N: "NUM_THREADS = 10" by (simp add: NUM_THREADS_def)
  let ?d' = "example_disk\<lparr>files := (\<lambda>_. Some [7])\<rparr>"
  have run: "example_shell c example_disk = Some (0, ?d')" for c by (simp add: example_shell_def)
  have parts: "length (replicate 10 [7 :: u8]) = NUM_THREADS"
      "\<forall>i < NUM_THREADS. files ?d' (part_path i) = Some (replicate 10 [7] ! i) \<and> may_open ?d' (part_path i)"
    by (simp_all add: N example_disk_def)
  have mem: "wf_mem blank_memory" "2 < brk blank_memory" "dom (packets blank_memory) \<subseteq> {0<..<brk blank_memory}"
    by (simp_all add: blank_memory_def wf_mem_def)
  have ctxs: "length (replicate 10 blank_ctx) = NUM_THREADS" by (simp add: N)
  have one: "1 < NUM_THREADS" "0 < (1 :: nat) \<and> dst_ip (replicate 10 blank_ctx ! 1) = None"
    by (simp_all add: N blank_ctx_def)
  have "''1.2.3.4'' \<noteq> []" "''b'' \<noteq> []" "CHR '':'' \<notin> set ''1.2.3.4''" "CHR '':'' \<notin> set ''b''" by simp_all
  from conjunct1 [OF client_main_correct [of "''1.2.3.4''" "''b''" example_shell "''a''" example_disk ?d' "replicate 10 [7]"
      blank_memory "replicate 10 blank_ctx" "''ucp''", OF this run parts mem ctxs]] obtain s' ctxs' where
    r: "client_main example_shell True [''ucp'', ''a'', ''1.2.3.4'' @ CHR '':'' # ''b''] (replicate 10 blank_ctx) blank_memory example_disk
        = Some (Some (s', ctxs'), ?d')" "dst_ip (ctxs' ! 0) = Some ''1.2.3.4''"
      "\<forall>i < NUM_THREADS. 0 < i \<and> dst_ip (replicate 10 blank_ctx ! i) = None \<longrightarrow> (\<forall>inet ok ok' buf u k.
            (case block_open inet ok (ctxs' ! i) u k of None \<Rightarrow> True | Some (r, _) \<Rightarrow> r = None)
            \<and> (case block_setup inet ok ok' buf (ctxs' ! i) u k of None \<Rightarrow> True | Some (r, u', _) \<Rightarrow> r = None \<and> u' = u))" by blast
  have "\<forall>inet u k. case block_setup inet True True [] (ctxs' ! 1) u k of None \<Rightarrow> True | Some (r, u', _) \<Rightarrow> r = None \<and> u' = u"
    using r(3) one by blast
  moreover have "''1.2.3.4'' @ CHR '':'' # ''b'' = ''1.2.3.4:b''" by simp
  ultimately show ?thesis using r(1,2) by metis
qed

definition micros :: "timeval \<Rightarrow> int" where
  "micros t = tv_sec t * 1000000 + tv_usec t"

text \<open>A time as \<open>gettimeofday\<close> gives it: the microseconds are normalised, and the seconds since 1970 are far from the end of
  their 64 bits.\<close>

definition normal :: "timeval \<Rightarrow> bool" where
  "normal t \<longleftrightarrow> 0 \<le> tv_usec t \<and> tv_usec t < 1000000 \<and> 0 \<le> tv_sec t \<and> tv_sec t < 2 ^ 40"

lemma total_time_micros:
  assumes "normal s" "normal t"
  shows "get_total_time_taken s t = micros t - micros s"
proof -
  have "sint (of_int (micros t - micros s) :: u64) = micros t - micros s"
    by (rule trans [OF sint_sbintrunc'], rule signed_take_bit_int_eq_self)
      (use assms in \<open>simp_all add: micros_def normal_def\<close>)
  moreover have "of_int (micros t - micros s) = (of_int (tv_sec t) * 1000000 + of_int (tv_usec t)
      - (of_int (tv_sec s) * 1000000 + of_int (tv_usec s)) :: u64)" by (simp add: micros_def)
  ultimately show ?thesis by (simp add: get_total_time_taken_def Let_def)
qed

lemma micros_less: "normal t \<Longrightarrow> normal t' \<Longrightarrow>
    micros t < micros t' \<longleftrightarrow> tv_sec t < tv_sec t' \<or> tv_sec t = tv_sec t' \<and> tv_usec t < tv_usec t'"
  unfolding micros_def normal_def by auto

lemma start_loop_min: "\<forall>c \<in> set cs. normal (start_time c) \<Longrightarrow> normal t \<Longrightarrow>
    normal (start_loop cs t) \<and> micros (start_loop cs t) = Min (insert (micros t) (micros ` start_time ` set cs))"
proof (induction cs arbitrary: t)
  case (Cons c cs)
  let ?t = "if tv_sec (start_time c) < tv_sec t then start_time c
      else if tv_sec (start_time c) = tv_sec t then
        if tv_usec (start_time c) < tv_usec t then start_time c else t
      else t"
  have n: "normal ?t" "micros ?t = min (micros t) (micros (start_time c))"
    using Cons.prems micros_less [of "start_time c" t] by (auto simp: min_def)
  have "Min (insert (micros ?t) (micros ` start_time ` set cs)) = Min (insert (micros t) (micros ` start_time ` set (c # cs)))"
    unfolding n(2) by (cases "cs = []") (auto simp: min.assoc)
  then show ?case using Cons.IH [OF _ n(1)] Cons.prems by simp
qed simp

lemma end_loop_max: "\<forall>c \<in> set cs. normal (end_time c) \<Longrightarrow> normal t \<Longrightarrow>
    normal (end_loop cs t) \<and> micros (end_loop cs t) = Max (insert (micros t) (micros ` end_time ` set cs))"
proof (induction cs arbitrary: t)
  case (Cons c cs)
  let ?t = "if tv_sec (end_time c) > tv_sec t then end_time c
      else if tv_sec (end_time c) = tv_sec t then
        if tv_usec (end_time c) > tv_usec t then end_time c else t
      else t"
  have n: "normal ?t" "micros ?t = max (micros t) (micros (end_time c))"
    using Cons.prems micros_less [of t "end_time c"] by (auto simp: max_def)
  have "Max (insert (micros ?t) (micros ` end_time ` set cs)) = Max (insert (micros t) (micros ` end_time ` set (c # cs)))"
    unfolding n(2) by (cases "cs = []") (auto simp: max.assoc)
  then show ?case using Cons.IH [OF _ n(1)] Cons.prems by simp
qed simp

lemma bytes_loop_sum:
  "\<forall>c \<in> set cs. ctx_handle c \<noteq> None \<Longrightarrow> unat acc + 2 ^ 32 * length cs < 2 ^ 64 \<Longrightarrow>
    \<exists>t. bytes_loop cs acc = Some t \<and> unat t = unat acc + sum_list (map (\<lambda>c. unat (handle_part_size (the (ctx_handle c)))) cs)"
proof (induction cs arbitrary: acc)
  case (Cons c cs)
  obtain h where h: "ctx_handle c = Some h" using Cons.prems(1) by auto
  have u: "unat (ucast (handle_part_size h) :: u64) = unat (handle_part_size h)"
    by (simp add: unsigned_ucast_eq take_bit_nat_eq_self order_less_trans [OF unsigned_less])
  have b: "unat (handle_part_size h) < 2 ^ 32" by (rule order_less_le_trans [OF unsigned_less]) simp
  have add: "unat (acc + ucast (handle_part_size h)) = unat acc + unat (handle_part_size h)"
    using Cons.prems(2) b unfolding u [symmetric] by (intro unat_add_lem [THEN iffD1]) simp
  then have "\<exists>t. bytes_loop cs (acc + ucast (handle_part_size h)) = Some t
      \<and> unat t = unat (acc + ucast (handle_part_size h)) + sum_list (map (\<lambda>c. unat (handle_part_size (the (ctx_handle c)))) cs)"
    using Cons.prems b by (intro Cons.IH) auto
  then show ?case using h add by auto
qed simp

lemma report_statistics_eval:
  assumes "length ctxs = unat n" "ctxs \<noteq> []" "\<forall>c \<in> set ctxs. ctx_handle c \<noteq> None \<and> normal (start_time c) \<and> normal (end_time c)"
  shows "\<exists>total time. report_statistics ctxs n = Some (total, time)
    \<and> unat total = sum_list (map (\<lambda>c. unat (handle_part_size (the (ctx_handle c)))) ctxs)
    \<and> time = Max (micros ` end_time ` set ctxs) - Min (micros ` start_time ` set ctxs)
    \<and> (print_time time = None \<longleftrightarrow> 1000000000 \<le> time)"
proof -
  obtain c cs where c: "ctxs = c # cs" using assms(2) by (cases ctxs) auto
  have "unat n < 256" by (rule order_less_le_trans [OF unsigned_less]) simp
  then have "unat (0 :: u64) + 2 ^ 32 * length ctxs < 2 ^ 64" using assms(1) by simp
  then obtain t where t: "bytes_loop ctxs 0 = Some t"
      "unat t = sum_list (map (\<lambda>c. unat (handle_part_size (the (ctx_handle c)))) ctxs)"
    using bytes_loop_sum [of ctxs 0] assms(3) by auto
  have tk: "take (unat n) ctxs = ctxs" using assms(1) by simp
  have r: "report_statistics ctxs n
      = Some (t, get_total_time_taken (start_loop cs (start_time c)) (end_loop cs (end_time c)))"
    using t(1) tk assms(1) by (simp add: report_statistics_def c)
  have "micros (start_loop cs (start_time c)) = Min (micros ` start_time ` set ctxs)"
      "micros (end_loop cs (end_time c)) = Max (micros ` end_time ` set ctxs)"
      "normal (start_loop cs (start_time c))" "normal (end_loop cs (end_time c))"
    using start_loop_min [of cs "start_time c"] end_loop_max [of cs "end_time c"] assms(3) c by auto
  then have "get_total_time_taken (start_loop cs (start_time c)) (end_loop cs (end_time c))
      = Max (micros ` end_time ` set ctxs) - Min (micros ` start_time ` set ctxs)"
    by (simp add: total_time_micros)
  moreover have "print_time x = None \<longleftrightarrow> 1000000000 \<le> x" for x by (auto simp: print_time_def)
  ultimately show ?thesis using r t(2) by auto
qed

text \<open>C37: how the client ends, for threads with times as \<open>gettimeofday\<close> gives them (normalised, below \<open>2^40\<close> seconds): it reports the sum of the part sizes, which does not wrap
  around, and the time from the earliest start to the latest end in microseconds, of which \<open>print_time\<close> prints nothing from
  1000 seconds on; then exactly the files of the parts are removed.\<close>

theorem client_exit_correct:
  assumes "length ctxs = NUM_THREADS" "\<forall>c \<in> set ctxs. normal (start_time c) \<and> normal (end_time c)"
    and "map ctx_handle ctxs = map Some handles" "\<forall>h \<in> set handles. fp h \<noteq> None"
  shows "\<exists>total time d'. client_exit ctxs handles d = Some ((total, time), d')
    \<and> unat total = sum_list (map (\<lambda>h. unat (handle_part_size h)) handles)
    \<and> time = Max (micros ` end_time ` set ctxs) - Min (micros ` start_time ` set ctxs)
    \<and> (print_time time = None \<longleftrightarrow> 1000000000 \<le> time)
    \<and> (\<forall>name. files d' name = (if name \<in> filepath ` set handles then None else files d name))"
proof -
  have N: "NUM_THREADS = 10" by (simp add: NUM_THREADS_def)
  have len: "length handles = NUM_THREADS" using assms(1,3) by (metis length_map)
  have "ctx_handle c \<noteq> None" if "c \<in> set ctxs" for c
  proof -
    have "ctx_handle c \<in> set (map ctx_handle ctxs)" using that by simp
    then show ?thesis unfolding assms(3) by auto
  qed
  then have c: "\<forall>c \<in> set ctxs. ctx_handle c \<noteq> None \<and> normal (start_time c) \<and> normal (end_time c)" using assms(2) by blast
  have u: "length ctxs = unat (of_nat NUM_THREADS :: u8)" "ctxs \<noteq> []" using assms(1) by (auto simp: N)
  obtain total time where r: "report_statistics ctxs (of_nat NUM_THREADS) = Some (total, time)"
      "unat total = sum_list (map (\<lambda>c. unat (handle_part_size (the (ctx_handle c)))) ctxs)"
      "time = Max (micros ` end_time ` set ctxs) - Min (micros ` start_time ` set ctxs)"
      "print_time time = None \<longleftrightarrow> 1000000000 \<le> time"
    using report_statistics_eval [OF u c] by (elim exE conjE) (rule that)
  have "map (\<lambda>c. unat (handle_part_size (the (ctx_handle c)))) ctxs = map (\<lambda>h. unat (handle_part_size (the h))) (map ctx_handle ctxs)"
    by simp
  then have "unat total = sum_list (map (\<lambda>h. unat (handle_part_size h)) handles)" unfolding r(2) assms(3) by (simp add: comp_def)
  moreover have "\<forall>i < NUM_THREADS. fp (handles ! i) \<noteq> None" using assms(4) len by simp
  then have "file_io_partition_release handles (of_nat NUM_THREADS) d = Some (d\<lparr>files := files d |` (- filepath ` set handles)\<rparr>)"
    using release_loop_parts [of NUM_THREADS handles 0 d] len by (simp add: file_io_partition_release_def N)
  ultimately show ?thesis using r(1,3,4) by (simp add: client_exit_def restrict_map_def)
qed

theorem client_exit_correct_witness:
  "\<exists>total d'. client_exit (map (\<lambda>i. blank_ctx\<lparr>ctx_handle := Some (part_handle i [1, 2]), end_time := \<lparr>tv_sec = 2000, tv_usec = 5\<rparr>\<rparr>) [0..<10])
      (map (\<lambda>i. part_handle i [1, 2]) [0..<10]) \<lparr>files = (\<lambda>_. Some [2]), may_open = (\<lambda>_. True)\<rparr> = Some ((total, 2000000005), d')
    \<and> unat total = 20 \<and> files d' (part_path 0) = None \<and> files d' [] = Some [2]"
proof -
  let ?c = "\<lambda>i. blank_ctx\<lparr>ctx_handle := Some (part_handle i [1, 2]), end_time := \<lparr>tv_sec = 2000, tv_usec = 5\<rparr>\<rparr>"
    and ?h = "\<lambda>i. part_handle i [1, 2 :: u8]" and ?d = "\<lparr>files = (\<lambda>_. Some [2]), may_open = (\<lambda>_. True)\<rparr> :: disk"
  have ok: "length (map ?c [0..<10]) = NUM_THREADS" "\<forall>c \<in> set (map ?c [0..<10]). normal (start_time c) \<and> normal (end_time c)"
      "map ctx_handle (map ?c [0..<10]) = map Some (map ?h [0..<10])" "\<forall>h \<in> set (map ?h [0..<10]). fp h \<noteq> None"
    by (auto simp: NUM_THREADS_def blank_ctx_def normal_def part_handle_def)
  have tm: "micros ` end_time ` set (map ?c [0..<10]) = {2000000005}" "micros ` start_time ` set (map ?c [0..<10]) = {0}"
    by (simp_all add: image_image micros_def blank_ctx_def image_constant_conv)
  have sz: "sum_list (map (\<lambda>h. unat (handle_part_size h)) (map ?h [0..<10])) = 20" by (simp add: part_handle_def upt_rec)
  have fs: "part_path 0 \<in> filepath ` set (map ?h [0..<10])" "[] \<notin> filepath ` set (map ?h [0..<10])"
    by (auto simp: part_handle_def part_path_def image_iff)
  obtain total time d' where "client_exit (map ?c [0..<10]) (map ?h [0..<10]) ?d = Some ((total, time), d')"
      "unat total = sum_list (map (\<lambda>h. unat (handle_part_size h)) (map ?h [0..<10]))"
      "time = Max (micros ` end_time ` set (map ?c [0..<10])) - Min (micros ` start_time ` set (map ?c [0..<10]))"
      "\<forall>name. files d' name = (if name \<in> filepath ` set (map ?h [0..<10]) then None else files ?d name)"
    using client_exit_correct [OF ok, of ?d] by blast
  with tm sz fs show ?thesis by simp
qed

end
