(* ===== verification/Transfer_System.thy ===== *)
theory Transfer_System
  imports Ucp_Server Client_Loop Client_Main
begin

text \<open>
  The whole transfer of one part as a step relation: a client thread (\<open>block_iteration\<close>), the two threads of the server
  (\<open>server_step\<close>), a network that loses, repeats and reorders datagrams, and the TCP connection that carries the control
  packets. The invariant says which packets the client may have dropped: those acknowledged, which are in the file.
\<close>

subsection \<open>The system\<close>

text \<open>\<open>acks_moved\<close> is the number of bytes of the control connection that have reached the client's kernel.\<close>

record system =
  cl_sender :: sender
  cl_udp :: udp_net
  cl_tcp :: kernel
  cl_running :: bool
  srv :: server_state
  acks_moved :: nat

text \<open>
  The datagrams that may arrive at the server are those the client has sent, from any source address the
  network gives them. TCP delivers the control stream in order. The runs here are those in which it hands over whole
  control packets, and never more than one read of the client takes; \<open>Control_Stream\<close> has all the others, and these are the
  part of its runs in which the client always hears what the server has sent.
\<close>

definition in_transit :: "system \<Rightarrow> (sockaddr_in \<times> u8 list) set" where
  "in_transit Z = {(src, xs). xs \<in> snd ` set (sent (cl_udp Z))}"

inductive system_step ::
    "ucp_packet \<Rightarrow> sockaddr_in \<Rightarrow> int \<Rightarrow> addr \<Rightarrow> tcp_client \<Rightarrow> system \<Rightarrow> system \<Rightarrow> bool"
  for garbage remote d L cl where
  client_step: "cl_running Z \<Longrightarrow> 2 < avail (memory (client_state (cl_sender Z))) \<Longrightarrow>
    block_iteration garbage remote (cl_sender Z) (cl_udp Z) (cl_tcp Z) = Some (go, S, u, k) \<Longrightarrow>
    system_step garbage remote d L cl Z (Z\<lparr>cl_sender := S, cl_udp := u, cl_tcp := k, cl_running := go\<rparr>)"
| server_side: "server_step L cl (in_transit Z) (srv Z) V \<Longrightarrow>
    system_step garbage remote d L cl Z (Z\<lparr>srv := V\<rparr>)"
| acks_arrive: "xs = take (6 * n) (drop (acks_moved Z) (outgoing (tcp (srv Z)) (client_sd cl))) \<Longrightarrow>
    length xs = 6 * n \<Longrightarrow> length (incoming (cl_tcp Z) d) + 6 * n \<le> 1024 \<Longrightarrow>
    system_step garbage remote d L cl Z (Z\<lparr>acks_moved := acks_moved Z + 6 * n,
      cl_tcp := (cl_tcp Z)\<lparr>incoming := (incoming (cl_tcp Z))(d := incoming (cl_tcp Z) d @ xs)\<rparr>\<rparr>)"

definition system_start :: "u8 list \<Rightarrow> int \<Rightarrow> addr \<Rightarrow> tcp_client \<Rightarrow> system \<Rightarrow> bool" where
  "system_start b d L cl Z \<longleftrightarrow> server_start b L cl (srv Z) \<and> client_inv b {} win_start d (cl_sender Z) (cl_tcp Z)
     \<and> \<not> done_flag (client_state (cl_sender Z)) \<and> incoming (cl_tcp Z) d = [] \<and> acks_moved Z = 0 \<and> cl_running Z
     \<and> in_transit Z \<subseteq> part_datagrams b"

subsection \<open>The invariant\<close>

text \<open>Unless the client's kernel refuses to send, the first \<open>j\<close> packets of the part have been sent.\<close>

definition all_sent :: "u8 list \<Rightarrow> nat \<Rightarrow> system \<Rightarrow> bool" where
  "all_sent b j Z \<longleftrightarrow> (send_ok (cl_udp Z) \<longrightarrow> (\<forall>i < j. \<forall>src. (src, data_wire (data_packet (file_packet b i))) \<in> in_transit Z))"

text \<open>
  \<open>ms\<close> are the control packets the server has sent, \<open>ms2\<close> those the client has not read, \<open>I\<close> the
  packets in the server's file and \<open>A\<close> those the client has dropped: \<open>A\<close> is acknowledged by \<open>ms\<close>, and
  what is acknowledged is in \<open>I\<close>.
\<close>

definition client_side :: "u8 list \<Rightarrow> int \<Rightarrow> nat set \<Rightarrow> ucp_ctrl_packet list \<Rightarrow> ucp_ctrl_packet list \<Rightarrow> system \<Rightarrow> bool" where
  "client_side b d A ms ms2 Z \<longleftrightarrow> \<not> done_flag (client_state (cl_sender Z))
     \<and> (cl_running Z \<longrightarrow> (\<exists>w. client_inv b A w d (cl_sender Z) (cl_tcp Z) \<and> all_sent b (w_read w) Z))
     \<and> (\<not> cl_running Z \<longrightarrow> {0..<packet_count b} \<subseteq> A)
     \<and> incoming (cl_tcp Z) d = concat (map ctrl_wire ms2) \<and> length ms2 \<le> 170 \<and> set ms2 \<subseteq> set ms
     \<and> (\<forall>i \<in> A. i < packet_count b \<and> ctrl UCP_FLAG_ACK (of_nat i) \<in> set ms)
     \<and> (\<exists>q \<le> length ms. acks_moved Z = 6 * q)
     \<and> in_transit Z \<subseteq> part_datagrams b"

definition system_inv :: "u8 list \<Rightarrow> int \<Rightarrow> addr \<Rightarrow> tcp_client \<Rightarrow> system \<Rightarrow> bool" where
  "system_inv b d L cl Z \<longleftrightarrow> (\<exists>I ms n A ms2. server_inv b L cl I ms n (srv Z) \<and> client_side b d A ms ms2 Z)"

lemma system_start_inv: "system_start b d L cl Z \<Longrightarrow> system_inv b d L cl Z"
proof -
  assume a: "system_start b d L cl Z"
  then have "server_inv b L cl {} [] [] (srv Z)" by (intro server_start_inv) (simp add: system_start_def)
  moreover have "client_side b d {} [] [] Z"
    using a unfolding system_start_def client_side_def by (auto simp: all_sent_def win_start_def intro!: exI [of _ win_start])
  ultimately show ?thesis unfolding system_inv_def by blast
qed

lemma server_flags:
  assumes "server_inv b L cl I ms n V" "m \<in> set ms"
  shows "unat (ctrl_flag m) < 256" "ctrl_flag m \<noteq> UCP_FLAG_FIN"
proof -
  have "ctrl_flag m = UCP_FLAG_NACK \<or> ctrl_flag m = UCP_FLAG_ACK"
    using assms by (auto simp: server_inv_def sent_inv_def)
  then show "unat (ctrl_flag m) < 256" "ctrl_flag m \<noteq> UCP_FLAG_FIN" by (auto simp: packet_enums)
qed

lemma in_transit_sent:
  assumes "in_transit Z \<subseteq> part_datagrams b" "i < packet_count b"
    and "cl_udp Z' = udp_sent r (data_wire (data_packet (file_packet b i))) (cl_udp Z)"
  shows "in_transit Z' \<subseteq> part_datagrams b"
proof -
  have "in_transit Z' \<subseteq> in_transit Z \<union> {(src, data_wire (data_packet (file_packet b i))) | src. True}"
    using assms(3) by (auto simp: in_transit_def udp_sent_def)
  moreover have "{(src, data_wire (data_packet (file_packet b i))) | src. True} \<subseteq> part_datagrams b"
    using assms(2) by (auto simp: part_datagrams_def)
  ultimately show ?thesis using assms(1) by blast
qed

text \<open>One iteration reads at most one packet of the part, and then it is the one sent.\<close>

lemma win_iterate_read:
  assumes "win_iterate b ms w = Some (p, w')"
  shows "w_read w' = w_read w \<or> w_read w' = Suc (w_read w) \<and> p = file_packet b (w_read w)"
  using assms by (auto simp: win_iterate_def win_next_def win_sent_def win_ctrl_def
      split: prod.splits option.splits list.splits if_splits)

lemma all_sent_iterate:
  assumes "all_sent b (w_read w) Z" "win_iterate b ms w = Some (p, w')"
    and "cl_udp Z' = udp_sent r (data_wire (data_packet p)) (cl_udp Z)"
  shows "all_sent b (w_read w') Z'"
proof -
  have ok: "send_ok (cl_udp Z') = send_ok (cl_udp Z)" using assms(3) by (simp add: udp_sent_def)
  have sub: "in_transit Z \<subseteq> in_transit Z'" using assms(3) by (auto simp: in_transit_def udp_sent_def)
  have new: "send_ok (cl_udp Z) \<Longrightarrow> (src, data_wire (data_packet p)) \<in> in_transit Z'" for src
    using assms(3) by (auto simp: in_transit_def udp_sent_def)
  from win_iterate_read [OF assms(2)] show ?thesis
  proof
    assume "w_read w' = w_read w"
    then show ?thesis using assms(1) ok sub by (auto simp: all_sent_def)
  next
    assume "w_read w' = Suc (w_read w) \<and> p = file_packet b (w_read w)"
    then show ?thesis using assms(1) ok sub new by (auto simp: all_sent_def less_Suc_eq)
  qed
qed

lemma length_wires: "length (concat (map ctrl_wire ms)) = 6 * length ms"
  by (induction ms) auto

lemma drop_wires: "drop (6 * j) (concat (map ctrl_wire ms)) = concat (map ctrl_wire (drop j ms))"
proof (induction ms arbitrary: j)
  case (Cons m ms)
  then show ?case by (cases j) auto
qed simp

lemma take_wires: "take (6 * j) (concat (map ctrl_wire ms)) = concat (map ctrl_wire (take j ms))"
proof (induction ms arbitrary: j)
  case (Cons m ms)
  then show ?case by (cases j) auto
qed simp

lemma system_inv_client:
  assumes s: "server_inv b L cl I ms n (srv Z)" and c: "client_side b d A ms ms2 Z" and run: "cl_running Z"
    and a: "2 < avail (memory (client_state (cl_sender Z)))"
    and step: "block_iteration garbage remote (cl_sender Z) (cl_udp Z) (cl_tcp Z) = Some (go, S, u, k)"
  shows "system_inv b d L cl (Z\<lparr>cl_sender := S, cl_udp := u, cl_tcp := k, cl_running := go\<rparr>)"
proof -
  note cv = c [unfolded client_side_def]
  define Z1 where "Z1 = Z\<lparr>cl_sender := S, cl_udp := u, cl_tcp := k, cl_running := go\<rparr>"
  obtain w where w: "client_inv b A w d (cl_sender Z) (cl_tcp Z)" "all_sent b (w_read w) Z" using cv run by blast
  have fl: "\<forall>m \<in> set ms2. unat (ctrl_flag m) < 256" and nf: "\<forall>m \<in> set ms2. ctrl_flag m \<noteq> UCP_FLAG_FIN"
    using server_flags [OF s] cv by blast+
  have inc: "incoming (cl_tcp Z) d = concat (map ctrl_wire ms2)" "length ms2 \<le> 170" using cv by simp_all
  consider S' where "block_iteration garbage remote (cl_sender Z) (cl_udp Z) (cl_tcp Z) = Some (False, S', cl_udp Z, cl_tcp Z)"
      "done_flag (client_state S') = done_flag (client_state (cl_sender Z))" "{0..<packet_count b} \<subseteq> A"
    | S' A' w' i where "win_iterate b ms2 w = Some (file_packet b i, w')" "i < packet_count b"
      "block_iteration garbage remote (cl_sender Z) (cl_udp Z) (cl_tcp Z) = Some (\<not> done_flag (client_state S'), S',
          udp_sent remote (data_wire (data_packet (file_packet b i))) (cl_udp Z),
          (cl_tcp Z)\<lparr>incoming := (incoming (cl_tcp Z))(d := [])\<rparr>)"
      "client_inv b A' w' d S' ((cl_tcp Z)\<lparr>incoming := (incoming (cl_tcp Z))(d := [])\<rparr>)"
      "A' \<subseteq> A \<union> {j. j < packet_count b \<and> ctrl UCP_FLAG_ACK (of_nat j) \<in> set ms2}"
      "done_flag (client_state S') = (done_flag (client_state (cl_sender Z)) \<or> (\<exists>m ms'. ms2 = m # ms' \<and> ctrl_flag m = UCP_FLAG_FIN))"
    using client_iterates [OF w(1) a inc fl, of garbage remote "cl_udp Z"] by blast
  then show ?thesis
  proof cases
    case 1
    then have Z1: "Z1 = Z\<lparr>cl_sender := S', cl_udp := cl_udp Z, cl_tcp := cl_tcp Z, cl_running := False\<rparr>"
      using step by (simp add: Z1_def)
    have "client_side b d A ms ms2 Z1" using cv 1(2,3) unfolding client_side_def Z1 by (simp add: in_transit_def)
    moreover have "server_inv b L cl I ms n (srv Z1)" using s Z1 by simp
    ultimately show ?thesis unfolding Z1_def [symmetric] system_inv_def by blast
  next
    case 2
    have nd: "\<not> done_flag (client_state S')" using 2(6) cv nf by auto
    then have Z1: "Z1 = Z\<lparr>cl_udp := udp_sent remote (data_wire (data_packet (file_packet b i))) (cl_udp Z), cl_sender := S',
        cl_tcp := (cl_tcp Z)\<lparr>incoming := (incoming (cl_tcp Z))(d := [])\<rparr>, cl_running := True\<rparr>"
      using step 2(3) by (simp add: Z1_def)
    have tr: "in_transit Z1 \<subseteq> part_datagrams b"
      by (rule in_transit_sent [of Z b i]) (use cv 2(2) in \<open>simp_all add: Z1\<close>)
    have ac: "\<forall>i \<in> A'. i < packet_count b \<and> ctrl UCP_FLAG_ACK (of_nat i) \<in> set ms" using cv 2(5) by blast
    have "all_sent b (w_read w') Z1" by (rule all_sent_iterate [OF w(2) 2(1)]) (simp add: Z1)
    then have "\<exists>w. client_inv b A' w d (cl_sender Z1) (cl_tcp Z1) \<and> all_sent b (w_read w) Z1" using 2(4) by (auto simp: Z1)
    then have "client_side b d A' ms [] Z1"
      using tr ac cv nd unfolding client_side_def by (simp add: Z1)
    moreover have "server_inv b L cl I ms n (srv Z1)" using s Z1 by simp
    ultimately show ?thesis unfolding Z1_def [symmetric] system_inv_def by blast
  qed
qed

lemma system_inv_acks:
  assumes s: "server_inv b L cl I ms n (srv Z)" and c: "client_side b d A ms ms2 Z"
    and xs0: "xs = take (6 * m) (drop (acks_moved Z) (outgoing (tcp (srv Z)) (client_sd cl)))" and lx: "length xs = 6 * m"
    and fit: "length (incoming (cl_tcp Z) d) + 6 * m \<le> 1024"
  shows "system_inv b d L cl (Z\<lparr>acks_moved := acks_moved Z + 6 * m,
      cl_tcp := (cl_tcp Z)\<lparr>incoming := (incoming (cl_tcp Z))(d := incoming (cl_tcp Z) d @ xs)\<rparr>\<rparr>)"
proof -
  note cv = c [unfolded client_side_def]
  define Z1 where "Z1 = Z\<lparr>acks_moved := acks_moved Z + 6 * m,
      cl_tcp := (cl_tcp Z)\<lparr>incoming := (incoming (cl_tcp Z))(d := incoming (cl_tcp Z) d @ xs)\<rparr>\<rparr>"
  obtain q where q: "q \<le> length ms" "acks_moved Z = 6 * q" using cv by blast
  have out: "outgoing (tcp (srv Z)) (client_sd cl) = concat (map ctrl_wire ms)"
    using s by (simp add: server_inv_def sent_inv_def)
  let ?new = "take m (drop q ms)"
  have xs: "xs = concat (map ctrl_wire ?new)" unfolding xs0 out q(2) drop_wires take_wires ..
  then have lm: "length ?new = m" using lx length_wires by simp
  then have qm: "q + m \<le> length ms" using q(1) by simp
  have "6 * length ms2 + 6 * m \<le> 1024" using fit cv length_wires [of ms2] by simp
  then have "length (ms2 @ ?new) \<le> 170" using lm by simp
  moreover have "set (ms2 @ ?new) \<subseteq> set ms" using cv by (auto dest: in_set_takeD in_set_dropD)
  moreover have "incoming (cl_tcp Z1) d = concat (map ctrl_wire (ms2 @ ?new))"
    using cv xs by (simp add: Z1_def)
  moreover have "acks_moved Z1 = 6 * (q + m)" using q(2) by (simp add: Z1_def)
  moreover have "cl_running Z \<longrightarrow> (\<exists>w. client_inv b A w d (cl_sender Z1) (cl_tcp Z1) \<and> all_sent b (w_read w) Z1)"
    using cv by (simp add: Z1_def client_inv_def connected_incoming all_sent_def in_transit_def)
  ultimately have "client_side b d A ms (ms2 @ ?new) Z1"
    using cv qm unfolding client_side_def by (auto simp: Z1_def in_transit_def)
  moreover have "server_inv b L cl I ms n (srv Z1)" using s by (simp add: Z1_def)
  ultimately show ?thesis unfolding Z1_def [symmetric] system_inv_def by blast
qed

lemma system_step_inv:
  assumes "system_step garbage remote d L cl Z Z'" "system_inv b d L cl Z"
  shows "system_inv b d L cl Z'"
proof -
  obtain I ms n A ms2 where s: "server_inv b L cl I ms n (srv Z)" and c: "client_side b d A ms ms2 Z"
    using assms(2) unfolding system_inv_def by blast
  note cv = c [unfolded client_side_def]
  from assms(1) show ?thesis
  proof (cases rule: system_step.cases)
    case (client_step go S u k)
    then show ?thesis using system_inv_client [OF s c] by simp
  next
    case (server_side V)
    obtain I' ms' n' where V: "I \<subseteq> I'" "server_inv b L cl I' (ms @ ms') n' V"
      using server_step_inv [OF server_side(2) s] cv by blast
    obtain q where "q \<le> length ms" "acks_moved Z = 6 * q" using cv by blast
    then have "\<exists>q \<le> length (ms @ ms'). acks_moved Z = 6 * q" by (intro exI [of _ q]) simp
    then have "client_side b d A (ms @ ms') ms2 Z'"
      using cv unfolding client_side_def server_side(1) by (auto simp: in_transit_def all_sent_def)
    moreover have "server_inv b L cl I' (ms @ ms') n' (srv Z')" using V server_side(1) by simp
    ultimately show ?thesis unfolding system_inv_def by blast
  next
    case (acks_arrive xs m)
    then show ?thesis using system_inv_acks [OF s c] by simp
  qed
qed

lemma system_run_inv:
  assumes "(system_step garbage remote d L cl)\<^sup>*\<^sup>* Z Z'" "system_inv b d L cl Z"
  shows "system_inv b d L cl Z'"
  using assms
proof (induction rule: rtranclp_induct)
  case (step Z Z')
  then show ?case using system_step_inv by blast
qed

lemma system_reachable_inv:
  "(system_step garbage remote d L cl)\<^sup>*\<^sup>* Z0 Z \<Longrightarrow> system_start b d L cl Z0 \<Longrightarrow> system_inv b d L cl Z"
  using system_run_inv system_start_inv by blast

subsection \<open>What has happened when the client stops\<close>

text \<open>What the invariant says once the client has stopped.\<close>

lemma server_all_acked:
  assumes "server_inv b L cl I ms n V" "\<forall>i < packet_count b. ctrl UCP_FLAG_ACK (of_nat i) \<in> set ms"
  shows "ready (recv_handle (rcvr V)) (length b) b"
    and "i < packet_count b \<Longrightarrow> acked (outgoing (tcp V) (client_sd cl)) i"
proof -
  have v: "length b < 2 ^ 32" "I \<subseteq> {0..<packet_count b}" "sent_inv cl I ms (tcp V)" "file_inv b I (rcvr V)"
    using assms(1) by (simp_all add: server_inv_def)
  have ack: "acked (outgoing (tcp V) (client_sd cl)) i" if "i < packet_count b" for i
    using assms(2) that sent_inv_acked(1) [OF v(3,2,1) that] by blast
  then show "i < packet_count b \<Longrightarrow> acked (outgoing (tcp V) (client_sd cl)) i" .
  have "{0..<packet_count b} \<subseteq> I" using ack sent_inv_acked(2) [OF v(3,2,1)] by auto
  moreover obtain c where "ready (recv_handle (rcvr V)) (length b) c" "written b I c"
    using v(4) by (auto simp: file_inv_def)
  ultimately show "ready (recv_handle (rcvr V)) (length b) b" using written_all by metis
qed

lemma system_inv_stopped:
  assumes "system_inv b d L cl Z" "\<not> cl_running Z"
  shows "ready (recv_handle (rcvr (srv Z))) (length b) b"
    and "i < packet_count b \<Longrightarrow> acked (outgoing (tcp (srv Z)) (client_sd cl)) i"
proof -
  obtain I ms n A ms2 where s: "server_inv b L cl I ms n (srv Z)" and c: "client_side b d A ms ms2 Z"
    using assms(1) unfolding system_inv_def by blast
  have "{0..<packet_count b} \<subseteq> A" "\<forall>i \<in> A. i < packet_count b \<and> ctrl UCP_FLAG_ACK (of_nat i) \<in> set ms"
    using c assms(2) by (auto simp: client_side_def)
  then have "\<forall>i < packet_count b. ctrl UCP_FLAG_ACK (of_nat i) \<in> set ms" by auto
  note all = server_all_acked [OF s this]
  show "ready (recv_handle (rcvr (srv Z))) (length b) b" by (rule all(1))
  show "i < packet_count b \<Longrightarrow> acked (outgoing (tcp (srv Z)) (client_sd cl)) i" by (rule all(2))
qed

end
