(* ===== verification/File_Transfer.thy ===== *)
theory File_Transfer
  imports Transfer_System
begin

text \<open>
  How a transfer comes to its end, one iteration of the client at a time: the client reads its part to the end, the server gets
  every packet once more, and the client reads the replies. Here TCP hands over whole control packets; \<open>Control_Stream\<close>
  states the properties of the transfer, where TCP cuts the stream as it likes.
\<close>

subsection \<open>One iteration of the client in the system\<close>

text \<open>The client with the window \<open>w\<close> and nothing to read.\<close>

definition client_live :: "u8 list \<Rightarrow> int \<Rightarrow> nat set \<Rightarrow> window \<Rightarrow> system \<Rightarrow> bool" where
  "client_live b d A w Z \<longleftrightarrow> client_inv b A w d (cl_sender Z) (cl_tcp Z) \<and> all_sent b (w_read w) Z
     \<and> incoming (cl_tcp Z) d = [] \<and> cl_running Z \<and> \<not> done_flag (client_state (cl_sender Z)) \<and> send_ok (cl_udp Z)"

abbreviation client_avail :: "system \<Rightarrow> nat" where
  "client_avail Z \<equiv> avail (memory (client_state (cl_sender Z)))"

lemma client_steps_window:
  assumes c: "client_inv b A w d (cl_sender Z) (cl_tcp Z)" "all_sent b (w_read w) Z" "cl_running Z"
      "\<not> done_flag (client_state (cl_sender Z))" "send_ok (cl_udp Z)"
    and a: "2 < client_avail Z" and inc: "incoming (cl_tcp Z) d = concat (map ctrl_wire ms)" "length ms \<le> 170"
    and fl: "\<forall>m \<in> set ms. ctrl_flag m = UCP_FLAG_NACK \<or> ctrl_flag m = UCP_FLAG_ACK"
  shows "\<exists>Z'. system_step garbage remote d L cl Z Z' \<and> srv Z' = srv Z \<and> acks_moved Z' = acks_moved Z
    \<and> (case win_iterate b ms w of None \<Rightarrow> \<not> cl_running Z'
      | Some (p, w') \<Rightarrow> \<exists>A'. client_live b d A' w' Z' \<and> A \<subseteq> A' \<and> (ms = [] \<longrightarrow> A' = A)
          \<and> client_avail Z - 3 \<le> client_avail Z')"
proof -
  have f: "\<forall>m \<in> set ms. unat (ctrl_flag m) < 256" "\<forall>m \<in> set ms. ctrl_flag m \<noteq> UCP_FLAG_FIN"
    using fl by (auto simp: packet_enums)
  consider S' where "win_iterate b ms w = None"
      "block_iteration garbage remote (cl_sender Z) (cl_udp Z) (cl_tcp Z) = Some (False, S', cl_udp Z, cl_tcp Z)"
    | S' A' w' i where "win_iterate b ms w = Some (file_packet b i, w')"
      "block_iteration garbage remote (cl_sender Z) (cl_udp Z) (cl_tcp Z) = Some (\<not> done_flag (client_state S'), S',
          udp_sent remote (data_wire (data_packet (file_packet b i))) (cl_udp Z),
          (cl_tcp Z)\<lparr>incoming := (incoming (cl_tcp Z))(d := [])\<rparr>)"
      "client_inv b A' w' d S' ((cl_tcp Z)\<lparr>incoming := (incoming (cl_tcp Z))(d := [])\<rparr>)" "A \<subseteq> A'"
      "client_avail Z - 3 \<le> avail (memory (client_state S'))"
      "A' \<subseteq> A \<union> {j. j < packet_count b \<and> ctrl UCP_FLAG_ACK (of_nat j) \<in> set ms}"
      "done_flag (client_state S') = (done_flag (client_state (cl_sender Z)) \<or> (\<exists>m ms'. ms = m # ms' \<and> ctrl_flag m = UCP_FLAG_FIN))"
    using client_iterates [OF c(1) a inc f(1), of garbage remote "cl_udp Z"] by blast
  then show ?thesis
  proof cases
    case 1
    from system_step.client_step [OF c(3) a 1(2), of d L cl] 1(1) show ?thesis
      by (intro exI [of _ "Z\<lparr>cl_sender := S', cl_udp := cl_udp Z, cl_tcp := cl_tcp Z, cl_running := False\<rparr>"]) simp
  next
    case 2
    define Z' where "Z' = Z\<lparr>cl_sender := S', cl_udp := udp_sent remote (data_wire (data_packet (file_packet b i))) (cl_udp Z),
        cl_tcp := (cl_tcp Z)\<lparr>incoming := (incoming (cl_tcp Z))(d := [])\<rparr>, cl_running := True\<rparr>"
    have nd: "\<not> done_flag (client_state S')" using 2(7) c(4) f(2) by auto
    then have st: "system_step garbage remote d L cl Z Z'"
      using system_step.client_step [OF c(3) a 2(2), of d L cl] by (simp add: Z'_def)
    have "all_sent b (w_read w') Z'" by (rule all_sent_iterate [OF c(2) 2(1)]) (simp add: Z'_def)
    then have "client_live b d A' w' Z'"
      using 2(3) nd c(5) by (simp add: client_live_def Z'_def udp_sent_def)
    with st 2(1,4,5,6) show ?thesis by (intro exI [of _ Z']) (auto simp: Z'_def)
  qed
qed

lemma client_steps:
  assumes c: "client_inv b A w d (cl_sender Z) (cl_tcp Z)" "all_sent b (w_read w) Z" "cl_running Z"
      "\<not> done_flag (client_state (cl_sender Z))" "send_ok (cl_udp Z)"
    and a: "2 < client_avail Z" and inc: "incoming (cl_tcp Z) d = concat (map ctrl_wire ms)" "length ms \<le> 170"
    and fl: "\<forall>m \<in> set ms. ctrl_flag m = UCP_FLAG_NACK \<or> ctrl_flag m = UCP_FLAG_ACK"
  shows "\<exists>Z'. system_step garbage remote d L cl Z Z' \<and> srv Z' = srv Z \<and> acks_moved Z' = acks_moved Z
    \<and> (case win_iterate b ms w of None \<Rightarrow> \<not> cl_running Z'
      | Some (p, w') \<Rightarrow> \<exists>A'. client_live b d A' w' Z' \<and> A \<subseteq> A' \<and> client_avail Z - 3 \<le> client_avail Z')"
proof -
  obtain Z' where Z': "system_step garbage remote d L cl Z Z'" "srv Z' = srv Z" "acks_moved Z' = acks_moved Z"
      "case win_iterate b ms w of None \<Rightarrow> \<not> cl_running Z'
      | Some (p, w') \<Rightarrow> \<exists>A'. client_live b d A' w' Z' \<and> A \<subseteq> A' \<and> (ms = [] \<longrightarrow> A' = A) \<and> client_avail Z - 3 \<le> client_avail Z'"
    using client_steps_window [OF assms, of garbage remote L cl] by (elim exE conjE) (rule that)
  then show ?thesis by (intro exI [of _ Z']) (auto split: option.splits)
qed

subsection \<open>The client reads the part to its end\<close>

lemma win_inv_unique:
  assumes "win_inv b A w" "win_inv b A' w" "length b < 2 ^ 32"
  shows "A = A'"
proof -
  have inj: "inj_on (file_packet b) {0..<w_read w}"
  proof (rule inj_onI)
    fix i j assume a: "i \<in> {0..<w_read w}" "j \<in> {0..<w_read w}" "file_packet b i = file_packet b j"
    have r: "w_read w \<le> packet_count b" using assms(1) by (simp add: win_inv_def)
    then have "i < packet_count b" "j < packet_count b" using a(1,2) by simp_all
    then have u: "unat (of_nat i :: u32) = i" "unat (of_nat j :: u32) = j" using packet_number_small assms(3) by blast+
    have "of_nat i = (of_nat j :: u32)" using a(3) by (metis seq_of_file_packet)
    then show "i = j" using u by metis
  qed
  have "file_packet b ` ({0..<w_read w} - A) = file_packet b ` ({0..<w_read w} - A')"
    using win_inv_packets [OF assms(1)] win_inv_packets [OF assms(2)] by simp
  then have "{0..<w_read w} - A = {0..<w_read w} - A'"
    by (rule inj_on_image_eq_iff [OF inj, THEN iffD1, rotated 2]) auto
  moreover have "A \<subseteq> {0..<w_read w}" "A' \<subseteq> {0..<w_read w}" using assms by (simp_all add: win_inv_def)
  ultimately show ?thesis by blast
qed

text \<open>A window of a part that has been read to its end and has at most one packet pending.\<close>

definition draining :: "u8 list \<Rightarrow> window \<Rightarrow> bool" where
  "draining b w \<longleftrightarrow> w_read w = packet_count b \<and> length (w_pend w) \<le> 1"

lemma win_iterate_drains:
  assumes v: "win_inv b A w" and dr: "draining b w" and it: "win_iterate b [m] w = Some (p, w')"
    and v': "win_inv b A' w'" and len: "length b < 2 ^ 32"
  shows "draining b w'" "i < packet_count b \<Longrightarrow> m = ctrl UCP_FLAG_ACK (of_nat i) \<Longrightarrow> i \<in> A'"
proof -
  obtain w1 where w1: "win_next b w = (Some p, w1)" "w' = win_ctrl m (win_sent p w1)"
    using it by (auto simp: win_iterate_def split: prod.splits option.splits)
  have r: "w_read w1 = packet_count b" "w_pend w1 = []"
    using w1(1) dr by (auto simp: win_next_def draining_def split: list.splits if_splits)
  then have s: "w_read (win_sent p w1) = packet_count b" "w_pend (win_sent p w1) = []" by (simp_all add: win_sent_def)
  then show "draining b w'"
    unfolding w1(2) draining_def win_ctrl_def by (simp split: option.splits)
  have "win_inv b A (win_sent p w1)" using win_inv_next [OF v w1(1)] ..
  from win_inv_ctrl [OF this len, of m] obtain A'' where
    "win_inv b A'' w'" "\<forall>i < packet_count b. m = ctrl UCP_FLAG_ACK (of_nat i) \<longrightarrow> i \<in> A''"
    using s unfolding w1(2) by auto
  moreover have "A'' = A'" by (rule win_inv_unique [OF calculation(1) v' len])
  ultimately show "i < packet_count b \<Longrightarrow> m = ctrl UCP_FLAG_ACK (of_nat i) \<Longrightarrow> i \<in> A'" by blast
qed

lemma draining_ends:
  assumes "win_inv b A w" "draining b w" "{0..<packet_count b} \<subseteq> A"
  shows "win_iterate b ms w = None"
proof -
  have "{0..<w_read w} - A = {}" using assms(2,3) by (auto simp: draining_def)
  then have "set (w_pend w @ w_infl w) = {}" using win_inv_packets [OF assms(1)] by simp
  then show ?thesis using assms(2) by (simp add: win_iterate_def win_next_def draining_def)
qed

definition ahead :: "u8 list \<Rightarrow> window \<Rightarrow> nat" where
  "ahead b w = packet_count b - w_read w + length (w_pend w)"

lemma ahead_iterate:
  assumes "win_iterate b [] w = Some (p, w')" "ahead b w = Suc n"
  shows "ahead b w' = n"
proof (cases "w_pend w")
  case Nil
  then have "w_read w < packet_count b" using assms(2) by (simp add: ahead_def)
  then show ?thesis using assms Nil by (auto simp: ahead_def win_iterate_def win_next_def win_sent_def)
next
  case (Cons x xs)
  then show ?thesis using assms by (auto simp: ahead_def win_iterate_def win_next_def win_sent_def)
qed

lemma client_reads_part:
  "client_live b d A w Z \<Longrightarrow> 3 * ahead b w \<le> client_avail Z \<Longrightarrow>
    \<exists>Z'. (system_step garbage remote d L cl)\<^sup>*\<^sup>* Z Z' \<and> srv Z' = srv Z \<and> acks_moved Z' = acks_moved Z
      \<and> (\<not> cl_running Z' \<or> (\<exists>w'. client_live b d A w' Z' \<and> draining b w' \<and> client_avail Z - 3 * ahead b w \<le> client_avail Z'))"
proof (induction "ahead b w" arbitrary: Z A w)
  case 0
  have "w_read w \<le> packet_count b" using 0(2) by (simp add: client_live_def client_inv_def win_inv_def)
  then have "draining b w" using 0(1) by (simp add: ahead_def draining_def)
  with 0 show ?case by (intro exI [of _ Z]) auto
next
  case (Suc n)
  note l = Suc.prems(1) [unfolded client_live_def]
  have a: "2 < client_avail Z" using Suc.prems(2) Suc.hyps(2) by linarith
  obtain Z1 where Z1: "system_step garbage remote d L cl Z Z1" "srv Z1 = srv Z" "acks_moved Z1 = acks_moved Z"
      "case win_iterate b [] w of None \<Rightarrow> \<not> cl_running Z1
        | Some (p, w') \<Rightarrow> client_live b d A w' Z1 \<and> client_avail Z - 3 \<le> client_avail Z1"
    using client_steps_window [of b A w d Z "[]" garbage remote L cl] l a by (auto split: option.splits)
  show ?case
  proof (cases "win_iterate b [] w")
    case None
    then show ?thesis using Z1 by (intro exI [of _ Z1]) auto
  next
    case (Some x)
    obtain p w1 where x: "x = (p, w1)" by (cases x)
    have A1: "client_live b d A w1 Z1" "client_avail Z - 3 \<le> client_avail Z1" using Z1(4) Some x by auto
    have n: "n = ahead b w1" using ahead_iterate [of b w p w1 n] Some x Suc.hyps(2) by simp
    have "3 * ahead b w1 \<le> client_avail Z1" using A1(2) n Suc.prems(2) Suc.hyps(2) by linarith
    from Suc.hyps(1) [OF n A1(1) this] obtain Z2 where
      Z2: "(system_step garbage remote d L cl)\<^sup>*\<^sup>* Z1 Z2" "srv Z2 = srv Z1" "acks_moved Z2 = acks_moved Z1"
        "\<not> cl_running Z2 \<or> (\<exists>w'. client_live b d A w' Z2 \<and> draining b w' \<and> client_avail Z1 - 3 * ahead b w1 \<le> client_avail Z2)"
      by blast
    have "client_avail Z - 3 * ahead b w \<le> client_avail Z1 - 3 * ahead b w1" using A1(2) n Suc.hyps(2) by linarith
    then have "\<not> cl_running Z2 \<or> (\<exists>w'. client_live b d A w' Z2 \<and> draining b w' \<and> client_avail Z - 3 * ahead b w \<le> client_avail Z2)"
      using Z2(4) order_trans by blast
    moreover have "(system_step garbage remote d L cl)\<^sup>*\<^sup>* Z Z2" using Z1(1) Z2(1) by (rule converse_rtranclp_into_rtranclp)
    ultimately show ?thesis using Z1(2,3) Z2(2,3) by (intro exI [of _ Z2]) simp
  qed
qed

subsection \<open>The server at work inside the system\<close>

lemma server_step_mono: "server_step L cl D S S' \<Longrightarrow> D \<subseteq> D' \<Longrightarrow> server_step L cl D' S S'"
  by (induction rule: server_step.induct) (auto intro: server_step.intros)

lemma server_run_in_system:
  assumes "(server_step L cl D)\<^sup>*\<^sup>* (srv Z) V" "D \<subseteq> in_transit Z"
  shows "(system_step garbage remote d L cl)\<^sup>*\<^sup>* Z (Z\<lparr>srv := V\<rparr>)"
  using assms(1)
proof (induction rule: rtranclp_induct)
  case base
  then show ?case by simp
next
  case (step V V')
  let ?Z = "Z\<lparr>srv := V\<rparr>"
  have "server_step L cl (in_transit ?Z) (srv ?Z) V'"
    using server_step_mono [OF step(2)] assms(2) by (simp add: in_transit_def)
  from system_step.server_side [OF this, of garbage remote d]
  have "system_step garbage remote d L cl ?Z (Z\<lparr>srv := V'\<rparr>)" by simp
  with step.IH show ?case by (rule rtranclp.rtrancl_into_rtrancl)
qed

subsection \<open>The client reads the replies\<close>

text \<open>
  The states in which the client has read the replies of \<open>ms\<close> before the \<open>q\<close>th, those from the \<open>q0\<close>th one by one; none is a FIN.
\<close>

definition replied ::
    "u8 list \<Rightarrow> int \<Rightarrow> tcp_client \<Rightarrow> ucp_ctrl_packet list \<Rightarrow> nat \<Rightarrow> nat \<Rightarrow> system \<Rightarrow> bool" where
  "replied b d cl ms q0 q Z \<longleftrightarrow> outgoing (tcp (srv Z)) (client_sd cl) = concat (map ctrl_wire ms) \<and> q \<le> length ms
     \<and> (\<forall>m \<in> set ms. ctrl_flag m = UCP_FLAG_NACK \<or> ctrl_flag m = UCP_FLAG_ACK)
     \<and> acks_moved Z = 6 * q \<and> 3 * (length ms + 1 - q) \<le> client_avail Z
     \<and> (\<exists>A w. client_live b d A w Z \<and> draining b w
         \<and> (\<forall>i < packet_count b. ctrl UCP_FLAG_ACK (of_nat i) \<in> set (drop q0 (take q ms)) \<longrightarrow> i \<in> A))"

lemma client_reads_reply:
  assumes Z: "replied b d cl ms q0 q Z" and q: "q < length ms"
  shows "\<exists>Z'. (system_step garbage remote d L cl)\<^sup>*\<^sup>* Z Z' \<and> (replied b d cl ms q0 (Suc q) Z' \<or> \<not> cl_running Z')"
proof -
  note r = Z [unfolded replied_def]
  obtain A w where A: "client_live b d A w Z" "draining b w"
      "\<forall>i < packet_count b. ctrl UCP_FLAG_ACK (of_nat i) \<in> set (drop q0 (take q ms)) \<longrightarrow> i \<in> A" using r by blast
  note l = A(1) [unfolded client_live_def]
  have len: "length b < 2 ^ 32" and wi: "win_inv b A w" using l by (simp_all add: client_inv_def)
  let ?m = "ms ! q"
  have fl: "\<forall>m \<in> set [?m]. ctrl_flag m = UCP_FLAG_NACK \<or> ctrl_flag m = UCP_FLAG_ACK" using r q by simp
  define k where "k = (cl_tcp Z)\<lparr>incoming := (incoming (cl_tcp Z))(d := ctrl_wire ?m)\<rparr>"
  define Z1 where "Z1 = Z\<lparr>acks_moved := acks_moved Z + 6 * 1, cl_tcp := k\<rparr>"
  have "take 1 (drop q ms) = [?m]" using q by (simp add: take_Suc_conv_app_nth Cons_nth_drop_Suc [symmetric])
  then have "take (6 * 1) (drop (acks_moved Z) (outgoing (tcp (srv Z)) (client_sd cl))) = ctrl_wire ?m"
    using r drop_wires [of q ms] take_wires [of 1 "drop q ms"] by simp
  then have s1: "system_step garbage remote d L cl Z Z1"
    using system_step.acks_arrive [of "ctrl_wire ?m" 1 Z cl d garbage remote L] l unfolding Z1_def k_def by simp
  have c1: "client_inv b A w d (cl_sender Z1) (cl_tcp Z1)" "all_sent b (w_read w) Z1" "cl_running Z1"
      "\<not> done_flag (client_state (cl_sender Z1))" "send_ok (cl_udp Z1)"
    using l by (simp_all add: Z1_def k_def client_inv_def connected_incoming all_sent_def in_transit_def)
  have inc: "incoming (cl_tcp Z1) d = concat (map ctrl_wire [?m])" "length [?m] \<le> 170" by (simp_all add: Z1_def k_def)
  have av: "3 * (length ms + 1 - q) \<le> client_avail Z" "2 < 3 * (length ms + 1 - q)" using r q by simp_all
  from av have a: "2 < client_avail Z1" unfolding Z1_def by simp
  obtain Z2 where Z2: "system_step garbage remote d L cl Z1 Z2" "srv Z2 = srv Z1" "acks_moved Z2 = acks_moved Z1"
      "case win_iterate b [?m] w of None \<Rightarrow> \<not> cl_running Z2
        | Some (p, w') \<Rightarrow> \<exists>A'. client_live b d A' w' Z2 \<and> A \<subseteq> A' \<and> client_avail Z1 - 3 \<le> client_avail Z2"
    using client_steps [OF c1 a inc fl, of garbage remote L cl] by blast
  have run: "(system_step garbage remote d L cl)\<^sup>*\<^sup>* Z Z2" using s1 Z2(1) by (auto intro: converse_rtranclp_into_rtranclp)
  show ?thesis
  proof (cases "win_iterate b [?m] w")
    case None
    then show ?thesis using run Z2(4) by auto
  next
    case (Some x)
    obtain p w' where x: "x = (p, w')" by (cases x)
    obtain A' where A': "client_live b d A' w' Z2" "A \<subseteq> A'" "client_avail Z1 - 3 \<le> client_avail Z2" using Z2(4) Some x by auto
    have wi': "win_inv b A' w'" using A'(1) by (simp add: client_live_def client_inv_def)
    note dr = win_iterate_drains [OF wi A(2) Some [unfolded x] wi' len]
    have "\<forall>i < packet_count b. ctrl UCP_FLAG_ACK (of_nat i) \<in> set (drop q0 (take (Suc q) ms)) \<longrightarrow> i \<in> A'"
    proof (intro allI impI)
      fix j assume j: "j < packet_count b" "ctrl UCP_FLAG_ACK (of_nat j) \<in> set (drop q0 (take (Suc q) ms))"
      then have "ctrl UCP_FLAG_ACK (of_nat j) \<in> set (drop q0 (take q ms)) \<or> ?m = ctrl UCP_FLAG_ACK (of_nat j)"
        using q by (auto simp: take_Suc_conv_app_nth drop_Cons' split: if_splits)
      then show "j \<in> A'" using A(3) A'(2) dr(2) j(1) by blast
    qed
    moreover have "3 * (length ms + 1 - Suc q) \<le> client_avail Z2" using A'(3) av(1) q unfolding Z1_def by simp
    ultimately have "replied b d cl ms q0 (Suc q) Z2"
      unfolding replied_def using r q Z2(2,3) dr(1) A'(1) by (auto simp: Z1_def)
    with run show ?thesis by blast
  qed
qed

lemma client_stops:
  assumes Z: "replied b d cl ms q0 (length ms) Z" and all: "\<forall>i < packet_count b. ctrl UCP_FLAG_ACK (of_nat i) \<in> set (drop q0 ms)"
  shows "\<exists>Z'. system_step garbage remote d L cl Z Z' \<and> \<not> cl_running Z'"
proof -
  note r = Z [unfolded replied_def]
  obtain A w where A: "client_live b d A w Z" "draining b w" "{0..<packet_count b} \<subseteq> A"
    using r all by (auto simp: subset_iff)
  note l = A(1) [unfolded client_live_def]
  have "win_inv b A w" using l by (simp add: client_inv_def)
  then have "win_iterate b [] w = None" using draining_ends A(2,3) by blast
  then show ?thesis using client_steps [of b A w d Z "[]" garbage remote L cl] l r by auto
qed

lemma client_finishes:
  assumes "replied b d cl ms q0 q Z" "\<forall>i < packet_count b. ctrl UCP_FLAG_ACK (of_nat i) \<in> set (drop q0 ms)"
  shows "\<exists>Z'. (system_step garbage remote d L cl)\<^sup>*\<^sup>* Z Z' \<and> \<not> cl_running Z'"
  using assms(1)
proof (induction "length ms - q" arbitrary: q Z)
  case 0
  then have "q = length ms" by (simp add: replied_def)
  with 0 client_stops [of b d cl ms q0 Z garbage remote L] assms(2) show ?case by blast
next
  case (Suc n)
  then have q: "q < length ms" "n = length ms - Suc q" by simp_all
  obtain Z1 where Z1: "(system_step garbage remote d L cl)\<^sup>*\<^sup>* Z Z1" "replied b d cl ms q0 (Suc q) Z1 \<or> \<not> cl_running Z1"
    using client_reads_reply [OF Suc.prems q(1)] by blast
  from Z1(2) show ?case
  proof
    assume "replied b d cl ms q0 (Suc q) Z1"
    from Suc.hyps(1) [OF q(2) this] Z1(1) show ?thesis by (meson rtranclp_trans)
  qed (use Z1(1) in blast)
qed

subsection \<open>From every reachable state\<close>

text \<open>The same state, with \<open>n1\<close> more free objects in each memory of the server and \<open>n2\<close> more in the client's.\<close>

definition more_memory :: "nat \<Rightarrow> nat \<Rightarrow> system \<Rightarrow> system" where
  "more_memory n1 n2 Z = Z\<lparr>
     cl_sender := (cl_sender Z)\<lparr>client_state := (client_state (cl_sender Z))\<lparr>memory :=
       (memory (client_state (cl_sender Z)))\<lparr>avail := client_avail Z + n2\<rparr>\<rparr>\<rparr>,
     srv := (srv Z)\<lparr>seq_queue := (seq_queue (srv Z))\<lparr>avail := avail (seq_queue (srv Z)) + n1\<rparr>,
       seqr := (seqr (srv Z))\<lparr>seq_memory := (seq_memory (seqr (srv Z)))\<lparr>avail := avail (seq_memory (seqr (srv Z))) + n1\<rparr>\<rparr>\<rparr>\<rparr>"

lemma avail_irrelevant:
  "qrep QF L (q\<lparr>avail := n\<rparr>) pq its = qrep QF L q pq its"
  "srep F (m\<lparr>avail := n\<rparr>) L ps rs = srep F m L ps rs"
  "two_lists (s\<lparr>avail := n\<rparr>) P ps xs L qs ys = two_lists s P ps xs L qs ys"
  by (simp_all add: qrep_def srep_def two_lists_def wf_mem_def)

lemma more_memory_simps [simp]:
  "cl_udp (more_memory n1 n2 Z) = cl_udp Z" "cl_tcp (more_memory n1 n2 Z) = cl_tcp Z"
  "cl_running (more_memory n1 n2 Z) = cl_running Z" "acks_moved (more_memory n1 n2 Z) = acks_moved Z"
  "in_transit (more_memory n1 n2 Z) = in_transit Z" "all_sent b j (more_memory n1 n2 Z) = all_sent b j Z"
  "client_avail (more_memory n1 n2 Z) = client_avail Z + n2"
  "done_flag (client_state (cl_sender (more_memory n1 n2 Z))) = done_flag (client_state (cl_sender Z))"
  by (simp_all add: more_memory_def in_transit_def all_sent_def)

lemma server_inv_more: "server_inv b L cl I ms n (srv (more_memory n1 n2 Z)) = server_inv b L cl I ms n (srv Z)"
  by (simp add: server_inv_def more_memory_def queue_inv_def seq_inv_def avail_irrelevant)

lemma server_start_more: "server_start b L cl (srv (more_memory n1 n2 Z)) = server_start b L cl (srv Z)"
  by (simp add: server_start_def more_memory_def avail_irrelevant)

lemma client_inv_more: "client_inv b A w d (cl_sender (more_memory n1 n2 Z)) k = client_inv b A w d (cl_sender Z) k"
  by (simp add: client_inv_def more_memory_def wrep_def avail_irrelevant)

lemma system_start_more: "system_start b d L cl (more_memory n1 n2 Z) = system_start b d L cl Z"
  by (simp add: system_start_def server_start_more client_inv_more)

lemma replies_finish:
  assumes live: "client_live b d A w Z" "draining b w"
    and srv: "(server_step L cl D)\<^sup>*\<^sup>* (srv Z) V" "D \<subseteq> in_transit Z" "server_inv b L cl I (ms @ new) n V"
    and new: "\<forall>i < packet_count b. ctrl UCP_FLAG_ACK (of_nat i) \<in> set new"
    and q: "acks_moved Z = 6 * q" "q \<le> length ms" and a: "3 * (length (ms @ new) + 1) \<le> client_avail Z"
  shows "\<exists>Z'. (system_step garbage remote d L cl)\<^sup>*\<^sup>* Z Z' \<and> \<not> cl_running Z'"
proof -
  let ?Z = "Z\<lparr>srv := V\<rparr>"
  have "client_live b d A w ?Z" using live(1) by (simp add: client_live_def all_sent_def in_transit_def)
  then have "\<exists>A w. client_live b d A w ?Z \<and> draining b w
      \<and> (\<forall>i < packet_count b. ctrl UCP_FLAG_ACK (of_nat i) \<in> set (drop q (take q (ms @ new))) \<longrightarrow> i \<in> A)"
    using live(2) by (intro exI [of _ A] exI [of _ w]) simp
  moreover have "3 * (length (ms @ new) + 1 - q) \<le> client_avail Z" using a by simp
  moreover have "sent_inv cl I (ms @ new) (tcp V)" using srv(3) by (simp add: server_inv_def)
  ultimately have "replied b d cl (ms @ new) q q ?Z"
    using q unfolding replied_def sent_inv_def by auto
  moreover have "\<forall>i < packet_count b. ctrl UCP_FLAG_ACK (of_nat i) \<in> set (drop q (ms @ new))" using new q(2) by simp
  ultimately obtain Z' where "(system_step garbage remote d L cl)\<^sup>*\<^sup>* ?Z Z'" "\<not> cl_running Z'"
    using client_finishes [of b d cl "ms @ new" q q ?Z garbage remote L] by blast
  with server_run_in_system [OF srv(1,2), of garbage remote d] show ?thesis by (meson rtranclp_trans)
qed

text \<open>Every packet, delivered once more.\<close>

definition once_more :: "u8 list \<Rightarrow> (sockaddr_in \<times> u8 list) set" where
  "once_more b = {(zero_addr, data_wire (data_packet (file_packet b i))) | i. i < packet_count b}"

lemma once_more_ok:
  "once_more b \<subseteq> part_datagrams b"
  "\<forall>i < packet_count b. \<exists>src. (src, data_wire (data_packet (file_packet b i))) \<in> once_more b"
  "client_live b d A w Z \<Longrightarrow> draining b w \<Longrightarrow> once_more b \<subseteq> in_transit Z"
  by (auto simp: once_more_def part_datagrams_def client_live_def all_sent_def draining_def)

text \<open>
  From a server and a client that have read the same \<open>q\<close> replies a run leads to the end of the client's loop: the client reads its
  part to the end, the server gets every packet once more, and the client reads the replies. The memory that the client needs
  is known from the server's state and the client's window.
\<close>

lemma live_recovers:
  assumes V: "server_inv b L cl I ms n V" and q: "q \<le> length ms"
    and av: "2 * (length (inbox (udp V)) + packet_count b) \<le> avail (seq_queue V)"
      "2 * (length n + length (inbox (udp V)) + packet_count b) \<le> avail (seq_memory (seqr V))"
  shows "\<exists>m. \<forall>Z A. srv Z = V \<longrightarrow> acks_moved Z = 6 * q \<longrightarrow> client_live b d A w Z \<longrightarrow> m \<le> client_avail Z
    \<longrightarrow> (\<exists>Z'. (system_step garbage remote d L cl)\<^sup>*\<^sup>* Z Z' \<and> \<not> cl_running Z')"
proof -
  let ?N = "packet_count b" and ?run = "system_step garbage remote d L cl"
  from server_recovers [OF V once_more_ok(1,2) av] obtain V' new where V': "(server_step L cl (once_more b))\<^sup>*\<^sup>* V V'"
      "server_inv b L cl {0..<?N} (ms @ new) [] V'" "\<forall>i < ?N. ctrl UCP_FLAG_ACK (of_nat i) \<in> set new" by blast
  let ?m = "3 * ahead b w + 3 * (length (ms @ new) + 1)"
  have "\<exists>Z'. ?run\<^sup>*\<^sup>* Z Z' \<and> \<not> cl_running Z'"
    if Z: "srv Z = V" "acks_moved Z = 6 * q" "client_live b d A w Z" "?m \<le> client_avail Z" for Z A
  proof -
    have "3 * ahead b w \<le> client_avail Z" using Z(4) by linarith
    from client_reads_part [OF Z(3) this, of garbage remote L cl] obtain Z2 where
      Z2: "?run\<^sup>*\<^sup>* Z Z2" "srv Z2 = V" "acks_moved Z2 = 6 * q" "\<not> cl_running Z2 \<or> (\<exists>w'. client_live b d A w' Z2
        \<and> draining b w' \<and> client_avail Z - 3 * ahead b w \<le> client_avail Z2)"
      using Z(1,2) by auto
    from Z2(4) show ?thesis
    proof
      assume "\<exists>w'. client_live b d A w' Z2 \<and> draining b w' \<and> client_avail Z - 3 * ahead b w \<le> client_avail Z2"
      then obtain w2 where w2: "client_live b d A w2 Z2" "draining b w2" "client_avail Z - 3 * ahead b w \<le> client_avail Z2" by blast
      have "3 * (length (ms @ new) + 1) \<le> client_avail Z2" using w2(3) Z(4) by linarith
      from replies_finish [OF w2(1,2) _ once_more_ok(3) [OF w2(1,2)] V'(2,3) Z2(3) q this, of garbage remote] V'(1) Z2(1,2)
      show ?thesis by (metis rtranclp_trans)
    qed (use Z2(1) in blast)
  qed
  then show ?thesis by blast
qed

text \<open>A small part, a server that waits for it and a client whose memory has room for \<open>n\<close> objects.\<close>

definition example_system :: "u8 list \<Rightarrow> nat \<Rightarrow> system" where
  "example_system b n = \<lparr>
     cl_sender = (example_sender b)\<lparr>sender_handle := example_handle b,
       client_state := \<lparr>memory = \<lparr>elems = [1 \<mapsto> \<lparr>obj = 0, nxt = 1, prv = 1\<rparr>, 2 \<mapsto> \<lparr>obj = 0, nxt = 2, prv = 2\<rparr>],
           members = (\<lambda>_. 0), brk = 3, avail = n, packets = Map.empty\<rparr>, done_flag = False, created = 0\<rparr>\<rparr>,
     cl_udp = example_net, cl_tcp = example_connection [], cl_running = True,
     srv = example_server_state b, acks_moved = 0\<rparr>"

lemma example_system_start: "length b \<le> 40000 \<Longrightarrow> system_start b 5 1 example_client (example_system b n)"
proof -
  assume b: "length b \<le> 40000"
  let ?s = "memory (client_state (cl_sender (example_system b n)))"
  have "two_lists ?s pending_packet_list [] [] in_flight_packet_list [] []"
    by (auto simp: two_lists_def example_system_def pending_packet_list_def in_flight_packet_list_def dll_def nxts_def prvs_def
        wf_mem_def)
  then have "wrep ?s (example_handle b) b win_start"
    using reading_fresh [OF example_handle_ok(1), of b] by (auto simp: wrep_def win_start_def)
  then have "client_inv b {} win_start 5 (cl_sender (example_system b n)) (cl_tcp (example_system b n))"
    using b win_inv_start [of b]
    by (simp add: client_inv_def example_system_def example_sender_def example_connection_def connected_def)
  moreover have "server_start b 1 example_client (srv (example_system b n))"
    using example_server_start [OF b] by (simp add: example_system_def)
  ultimately show ?thesis
    by (simp add: system_start_def in_transit_def example_system_def example_connection_def example_net_def)
qed

end
