(* ===== verification/Control_Stream.thy ===== *)
theory Control_Stream
  imports File_Transfer
begin

text \<open>
  The control connection as the stream of bytes that TCP makes of it. \<open>tcp_server_receive\<close> reads up to 1024 bytes of
  it and \<open>on_ack_received\<close> decodes the head of what was read, wherever in a control packet that is. Here any number of
  bytes may arrive at a time and any number may wait; \<open>Transfer_System\<close> delivers whole control packets, one read of them at most.
  The theory states the properties of a whole transfer: what is true when the client stops (\<open>transfer_safe_any_cut\<close>), that it can
  always be completed (\<open>transfer_never_stuck\<close>), and how a cut can end it with data missing (\<open>cut_ack_ends_transfer\<close>).
\<close>

subsection \<open>Reading a stream anywhere\<close>

text \<open>
  Where a read may begin inside a packet, what is heard can be a packet that nobody has sent; but it does not acknowledge or
  reject a packet numbered below \<open>2 ^ 16\<close>, when all that were sent name such packets.
\<close>

definition answers :: "ucp_ctrl_packet \<Rightarrow> bool" where
  "answers m \<longleftrightarrow> (ctrl_flag m = UCP_FLAG_ACK \<or> ctrl_flag m = UCP_FLAG_NACK) \<and> unat (ctrl_seq_no m) < 2 ^ 16"

lemma high_bytes:
  assumes "unat (n :: u32) < 2 ^ 16" shows "byte_of 2 n = 0 \<and> byte_of 3 n = 0"
proof -
  have "\<not> bit n (16 + k)" "\<not> bit n (24 + k)" for k
    using bit_below [OF assms, of "16 + k"] bit_below [OF assms, of "24 + k"] by auto
  then show ?thesis by (auto intro!: bit_word_eqI simp: bit_simps)
qed

lemma low_wire:
  assumes "answers m"
  shows "ctrl_wire m = [1, byte_of 0 (ctrl_flag m), byte_of 0 (ctrl_seq_no m), byte_of 1 (ctrl_seq_no m), 0, 0]"
  using assms high_bytes [of "ctrl_seq_no m"] by (simp add: ctrl_wire_def answers_def)

lemma not_answers: "b3 \<noteq> 0 \<or> b2 \<noteq> 0 \<Longrightarrow> \<not> answers (ctrl f (word_of_bytes b3 b2 b1 b0))"
  using high_bytes [of "word_of_bytes b3 b2 b1 b0"] by (auto simp: answers_def ctrl_bytes)

lemma heard_inside:
  assumes "answers m" "answers m2" "0 < r" "r < 6" "x \<in> set (heard (drop r (ctrl_wire m @ ctrl_wire m2 @ xs)))"
  shows "\<not> answers x"
proof -
  consider "r = 1" | "r = 2" | "r = 3" | "r = 4" | "r = 5" using assms(3,4) by linarith
  then show ?thesis
  proof cases
    case 3
    then have "ctrl_flag x = 0" using assms(5) unfolding low_wire [OF assms(1)] low_wire [OF assms(2)]
      by (simp add: heard_def split: if_splits)
    then show ?thesis by (simp add: answers_def packet_enums)
  qed (use assms(5) not_answers in \<open>auto simp: low_wire [OF assms(1)] low_wire [OF assms(2)] heard_def split: if_splits\<close>)
qed

lemma heard_stream:
  assumes "\<forall>m \<in> set ms. answers m" "x \<in> set (heard (drop p (concat (map ctrl_wire ms))))" "answers x"
  shows "x \<in> set ms"
proof -
  define q r where "q = p div 6" and "r = p mod 6"
  have p: "drop p (concat (map ctrl_wire ms)) = drop r (concat (map ctrl_wire (drop q ms)))"
    unfolding drop_wires [symmetric] drop_drop q_def r_def by simp
  have small: "unat (ctrl_flag m) < 256" if "answers m" for m using that by (auto simp: answers_def packet_enums)
  show ?thesis
  proof (cases "drop q ms")
    case Nil
    then show ?thesis using assms(2) p by (simp add: heard_def)
  next
    case (Cons m ms')
    then have m: "m \<in> set ms" "set ms' \<subseteq> set ms"
      using set_drop_subset [of q ms] by auto
    show ?thesis
    proof (cases "r = 0")
      case True
      then show ?thesis using assms(1,2) p Cons m heard_ctrl_wire [OF small] by auto
    next
      case False
      have r: "r < 6" by (simp add: r_def)
      show ?thesis
      proof (cases ms')
        case Nil
        have "\<not> 6 \<le> length (drop r (ctrl_wire m))" unfolding length_drop length_ctrl_wire using False r by linarith
        then have "heard (drop r (ctrl_wire m)) = []" by (simp add: heard_def)
        then show ?thesis using assms(2) p Cons Nil by simp
      next
        case (Cons m2 ms2)
        then have "answers m" "answers m2" using m assms(1) by auto
        from heard_inside [OF this _ r, of x "concat (map ctrl_wire ms2)"] show ?thesis
          using assms(2,3) p \<open>drop q ms = m # ms'\<close> Cons False by auto
      qed
    qed
  qed
qed

lemma server_answers:
  assumes "server_inv b L cl I ms n V" "packet_count b \<le> 2 ^ 16"
  shows "\<forall>m \<in> set ms. answers m"
proof
  fix m assume m: "m \<in> set ms"
  have I: "I \<subseteq> {0..<packet_count b}" using assms(1) by (simp add: server_inv_def)
  have s: "ctrl_flag m = UCP_FLAG_NACK \<and> (\<exists>i \<in> I. ctrl_seq_no m < of_nat i) \<or> ctrl_flag m = UCP_FLAG_ACK \<and> ctrl_seq_no m \<in> of_nat ` I"
    using assms(1) m by (auto simp: server_inv_def sent_inv_def)
  have "unat (of_nat i :: u32) < 2 ^ 16" if "i \<in> I" for i
  proof -
    have "i < 2 ^ 16" using that I assms(2) by auto
    moreover from this have "unat (of_nat i :: u32) = i" by (intro of_nat_inverse [OF refl]) simp
    ultimately show ?thesis by simp
  qed
  then show "answers m" using s by (fastforce simp: answers_def word_less_nat_alt)
qed


subsection \<open>The system with any delivery of the stream\<close>

inductive stream_step ::
    "ucp_packet \<Rightarrow> sockaddr_in \<Rightarrow> int \<Rightarrow> addr \<Rightarrow> tcp_client \<Rightarrow> system \<Rightarrow> system \<Rightarrow> bool"
  for garbage remote d L cl where
  client: "cl_running Z \<Longrightarrow> 2 < avail (memory (client_state (cl_sender Z))) \<Longrightarrow>
    block_iteration garbage remote (cl_sender Z) (cl_udp Z) (cl_tcp Z) = Some (go, S, u, k) \<Longrightarrow>
    stream_step garbage remote d L cl Z (Z\<lparr>cl_sender := S, cl_udp := u, cl_tcp := k, cl_running := go\<rparr>)"
| server: "server_step L cl (in_transit Z) (srv Z) V \<Longrightarrow>
    stream_step garbage remote d L cl Z (Z\<lparr>srv := V\<rparr>)"
| bytes: "xs = take n (drop (acks_moved Z) (outgoing (tcp (srv Z)) (client_sd cl))) \<Longrightarrow>
    stream_step garbage remote d L cl Z (Z\<lparr>acks_moved := acks_moved Z + length xs,
      cl_tcp := (cl_tcp Z)\<lparr>incoming := (incoming (cl_tcp Z))(d := incoming (cl_tcp Z) d @ xs)\<rparr>\<rparr>)"

text \<open>The steps with whole control packets are among them.\<close>

lemma system_step_stream:
  assumes "system_step garbage remote d L cl Z Z'" shows "stream_step garbage remote d L cl Z Z'"
  using assms
proof (cases rule: system_step.cases)
  case (acks_arrive xs n)
  then show ?thesis using stream_step.bytes [OF acks_arrive(2)] by simp
qed (auto intro: stream_step.client stream_step.server)

text \<open>\<open>unread\<close> are the bytes of the stream that have arrived and not been read.\<close>

definition unread :: "ucp_ctrl_packet list \<Rightarrow> nat \<Rightarrow> u8 list \<Rightarrow> bool" where
  "unread ms moved xs \<longleftrightarrow> (\<exists>p \<le> moved. moved \<le> 6 * length ms \<and> xs = take (moved - p) (drop p (concat (map ctrl_wire ms))))"

definition stream_side :: "u8 list \<Rightarrow> int \<Rightarrow> nat set \<Rightarrow> ucp_ctrl_packet list \<Rightarrow> system \<Rightarrow> bool" where
  "stream_side b d A ms Z \<longleftrightarrow> (cl_running Z \<longrightarrow> \<not> done_flag (client_state (cl_sender Z))
       \<and> (\<exists>w. client_inv b A w d (cl_sender Z) (cl_tcp Z) \<and> all_sent b (w_read w) Z))
     \<and> (\<not> cl_running Z \<longrightarrow> done_flag (client_state (cl_sender Z)) \<or> {0..<packet_count b} \<subseteq> A)
     \<and> (\<forall>i \<in> A. i < packet_count b \<and> ctrl UCP_FLAG_ACK (of_nat i) \<in> set ms)
     \<and> unread ms (acks_moved Z) (incoming (cl_tcp Z) d) \<and> in_transit Z \<subseteq> part_datagrams b"

definition stream_inv :: "u8 list \<Rightarrow> int \<Rightarrow> addr \<Rightarrow> tcp_client \<Rightarrow> system \<Rightarrow> bool" where
  "stream_inv b d L cl Z \<longleftrightarrow> (\<exists>I ms n A. server_inv b L cl I ms n (srv Z) \<and> stream_side b d A ms Z)"

lemma unread_later: "unread ms n xs \<Longrightarrow> unread (ms @ ms') n xs"
  unfolding unread_def
proof (elim exE conjE)
  fix p assume p: "p \<le> n" "n \<le> 6 * length ms" "xs = take (n - p) (drop p (concat (map ctrl_wire ms)))"
  then have "take (n - p) (drop p (concat (map ctrl_wire (ms @ ms')))) = xs" using length_wires [of ms] by simp
  then show "\<exists>p \<le> n. n \<le> 6 * length (ms @ ms') \<and> xs = take (n - p) (drop p (concat (map ctrl_wire (ms @ ms'))))"
    using p(1,2) by (intro exI [of _ p]) simp
qed

lemma unread_drop: "unread ms n xs \<Longrightarrow> unread ms n (drop k xs)"
  unfolding unread_def
proof (elim exE conjE)
  fix p assume p: "p \<le> n" "n \<le> 6 * length ms" "xs = take (n - p) (drop p (concat (map ctrl_wire ms)))"
  let ?q = "min n (p + k)"
  have "drop k xs = take (n - ?q) (drop ?q (concat (map ctrl_wire ms)))"
    using p(3) by (cases "p + k \<le> n") (simp_all add: drop_take min_def add.commute)
  then show "\<exists>p \<le> n. n \<le> 6 * length ms \<and> drop k xs = take (n - p) (drop p (concat (map ctrl_wire ms)))"
    using p(2) by (intro exI [of _ ?q]) simp
qed

lemma unread_more:
  assumes "unread ms n xs" "ys = take k (drop n (concat (map ctrl_wire ms)))"
  shows "unread ms (n + length ys) (xs @ ys)"
proof -
  let ?W = "concat (map ctrl_wire ms)"
  obtain p where p: "p \<le> n" "n \<le> 6 * length ms" "xs = take (n - p) (drop p ?W)" using assms(1) unfolding unread_def by blast
  have ly: "length ys = min k (6 * length ms - n)" using assms(2) length_wires [of ms] by simp
  have tk: "take (length (take k zs)) zs = take k zs" for zs :: "u8 list" by (cases "k \<le> length zs") simp_all
  have "take (length ys) (drop n ?W) = ys" unfolding assms(2) by (rule tk)
  then have "ys = take (length ys) (drop (n - p) (drop p ?W))" using p(1) by simp
  then have "xs @ ys = take (n + length ys - p) (drop p ?W)"
    using p(1,3) by (metis Nat.add_diff_assoc2 take_add)
  then show ?thesis using p(1,2) ly unfolding unread_def by (intro exI [of _ p]) simp
qed

lemma unread_answers:
  assumes "unread ms n xs" "\<forall>m \<in> set ms. answers m" "x \<in> set (heard (take k xs))" "answers x"
  shows "x \<in> set ms"
proof -
  obtain p j where "xs = take j (drop p (concat (map ctrl_wire ms)))" using assms(1) unfolding unread_def by blast
  then have "x \<in> set (heard (drop p (concat (map ctrl_wire ms))))" using assms(3) heard_take by fastforce
  then show ?thesis using heard_stream [OF assms(2)] assms(4) by blast
qed


lemma stream_inv_client:
  assumes s: "server_inv b L cl I ms n (srv Z)" and c: "stream_side b d A ms Z" and small: "packet_count b \<le> 2 ^ 16"
    and g: "pkt_type garbage \<noteq> UCP_PACKET_TYPE_CTRL" and run: "cl_running Z"
    and a: "2 < avail (memory (client_state (cl_sender Z)))"
    and step: "block_iteration garbage remote (cl_sender Z) (cl_udp Z) (cl_tcp Z) = Some (go, S, u, k)"
  shows "stream_inv b d L cl (Z\<lparr>cl_sender := S, cl_udp := u, cl_tcp := k, cl_running := go\<rparr>)"
proof -
  note cv = c [unfolded stream_side_def]
  let ?k = "(cl_tcp Z)\<lparr>incoming := (incoming (cl_tcp Z))(d := drop 1024 (incoming (cl_tcp Z) d))\<rparr>"
    and ?ms = "heard (take 1024 (incoming (cl_tcp Z) d))" and ?Z = "Z\<lparr>cl_sender := S, cl_udp := u, cl_tcp := k, cl_running := go\<rparr>"
  obtain w where w: "client_inv b A w d (cl_sender Z) (cl_tcp Z)" "all_sent b (w_read w) Z" using cv run by blast
  have cn: "connected d (ack_server (cl_sender Z)) (cl_tcp Z)" using w(1) by (simp add: client_inv_def)
  then have cn': "connected d (ack_server (cl_sender Z)) ?k" by (simp add: connected_incoming)
  consider S' where "block_iteration garbage remote (cl_sender Z) (cl_udp Z) (cl_tcp Z) = Some (False, S', cl_udp Z, cl_tcp Z)"
      "{0..<packet_count b} \<subseteq> A"
    | S' A' w' i where "i < packet_count b"
      "block_iteration garbage remote (cl_sender Z) (cl_udp Z) (cl_tcp Z) = Some (\<not> done_flag (client_state S'), S',
          udp_sent remote (data_wire (data_packet (file_packet b i))) (cl_udp Z), ?k)"
      "client_inv b A' w' d S' ?k" "A' \<subseteq> A \<union> {j. j < packet_count b \<and> ctrl UCP_FLAG_ACK (of_nat j) \<in> set ?ms}"
      "win_iterate b ?ms w = Some (file_packet b i, w')"
    using client_iterates_hears [OF w(1) a tick_hears [OF cn g] cn', of remote "cl_udp Z"] by blast
  then have "\<exists>A'. stream_side b d A' ms ?Z"
  proof cases
    case 1
    then have "stream_side b d A ms ?Z" using step cv unfolding stream_side_def by (simp add: in_transit_def)
    then show ?thesis by blast
  next
    case 2
    have e: "S = S'" "u = udp_sent remote (data_wire (data_packet (file_packet b i))) (cl_udp Z)" "k = ?k"
        "go = (\<not> done_flag (client_state S'))" using step 2(2) by auto
    have "in_transit ?Z \<subseteq> part_datagrams b"
      by (rule in_transit_sent [of Z b i]) (use cv 2(1) e(2) in simp_all)
    moreover have "ctrl UCP_FLAG_ACK (of_nat j) \<in> set ms" if j: "j < packet_count b" "ctrl UCP_FLAG_ACK (of_nat j) \<in> set ?ms" for j
    proof -
      have "unat (of_nat j :: u32) = j" by (intro of_nat_inverse [OF refl]) (use j(1) small in simp)
      then have "answers (ctrl UCP_FLAG_ACK (of_nat j))" using j(1) small by (simp add: answers_def)
      then show ?thesis using unread_answers [OF _ server_answers [OF s small] j(2)] cv by blast
    qed
    then have "\<forall>i \<in> A'. i < packet_count b \<and> ctrl UCP_FLAG_ACK (of_nat i) \<in> set ms" using 2(4) cv by blast
    moreover have "unread ms (acks_moved Z) (drop 1024 (incoming (cl_tcp Z) d))" using unread_drop cv by blast
    moreover have "all_sent b (w_read w') ?Z" by (rule all_sent_iterate [OF w(2) 2(5)]) (simp add: e(2))
    ultimately have "stream_side b d A' ms ?Z" using 2(3) unfolding stream_side_def e by auto
    then show ?thesis by blast
  qed
  then show ?thesis using s unfolding stream_inv_def by auto
qed

lemma stream_step_inv:
  assumes "stream_step garbage remote d L cl Z Z'" "stream_inv b d L cl Z" "packet_count b \<le> 2 ^ 16"
    and "pkt_type garbage \<noteq> UCP_PACKET_TYPE_CTRL"
  shows "stream_inv b d L cl Z'"
proof -
  obtain I ms n A where s: "server_inv b L cl I ms n (srv Z)" and c: "stream_side b d A ms Z"
    using assms(2) unfolding stream_inv_def by blast
  note cv = c [unfolded stream_side_def]
  from assms(1) show ?thesis
  proof (cases rule: stream_step.cases)
    case (client go S u k)
    then show ?thesis using stream_inv_client [OF s c assms(3,4)] by simp
  next
    case (server V)
    obtain I' ms' n' where V: "server_inv b L cl I' (ms @ ms') n' V" using server_step_inv [OF server(2) s] cv by blast
    have "unread (ms @ ms') (acks_moved Z) (incoming (cl_tcp Z) d)" using unread_later cv by blast
    then have "stream_side b d A (ms @ ms') Z'" using cv unfolding stream_side_def server(1) by (auto simp: in_transit_def all_sent_def)
    moreover have "server_inv b L cl I' (ms @ ms') n' (srv Z')" using V server(1) by simp
    ultimately show ?thesis unfolding stream_inv_def by blast
  next
    case (bytes xs m)
    have "outgoing (tcp (srv Z)) (client_sd cl) = concat (map ctrl_wire ms)" using s by (simp add: server_inv_def sent_inv_def)
    then have "unread ms (acks_moved Z + length xs) (incoming (cl_tcp Z) d @ xs)" using unread_more bytes(2) cv by metis
    then have "stream_side b d A ms Z'"
      using cv unfolding stream_side_def bytes(1) by (auto simp: in_transit_def all_sent_def client_inv_def connected_incoming)
    moreover have "server_inv b L cl I ms n (srv Z')" using s bytes(1) by simp
    ultimately show ?thesis unfolding stream_inv_def by blast
  qed
qed

lemma stream_start_inv: "system_start b d L cl Z \<Longrightarrow> stream_inv b d L cl Z"
proof -
  assume a: "system_start b d L cl Z"
  then have "server_inv b L cl {} [] [] (srv Z)" by (intro server_start_inv) (simp add: system_start_def)
  moreover have "stream_side b d {} [] Z" using a unfolding system_start_def stream_side_def
    by (auto simp: unread_def all_sent_def win_start_def intro!: exI [of _ win_start])
  ultimately show ?thesis unfolding stream_inv_def by blast
qed

lemma stream_reachable_inv:
  assumes "(stream_step garbage remote d L cl)\<^sup>*\<^sup>* Z0 Z" "system_start b d L cl Z0" "packet_count b \<le> 2 ^ 16"
    and "pkt_type garbage \<noteq> UCP_PACKET_TYPE_CTRL"
  shows "stream_inv b d L cl Z"
  using assms(1)
proof (induction rule: rtranclp_induct)
  case base
  show ?case by (rule stream_start_inv [OF assms(2)])
next
  case (step Z Z')
  then show ?case using stream_step_inv [OF step(2,3) assms(3,4)] by blast
qed


lemma stream_inv_stopped:
  assumes "stream_inv b d L cl Z" "\<not> cl_running Z" "\<not> done_flag (client_state (cl_sender Z))"
  shows "ready (recv_handle (rcvr (srv Z))) (length b) b"
    and "i < packet_count b \<Longrightarrow> acked (outgoing (tcp (srv Z)) (client_sd cl)) i"
proof -
  obtain I ms n A where s: "server_inv b L cl I ms n (srv Z)" and c: "stream_side b d A ms Z"
    using assms(1) unfolding stream_inv_def by blast
  have A: "{0..<packet_count b} \<subseteq> A" "\<forall>i \<in> A. i < packet_count b \<and> ctrl UCP_FLAG_ACK (of_nat i) \<in> set ms"
    using c assms(2,3) by (auto simp: stream_side_def)
  have "\<forall>i < packet_count b. ctrl UCP_FLAG_ACK (of_nat i) \<in> set ms" using A by auto
  note all = server_all_acked [OF s this]
  show "ready (recv_handle (rcvr (srv Z))) (length b) b" by (rule all(1))
  show "i < packet_count b \<Longrightarrow> acked (outgoing (tcp (srv Z)) (client_sd cl)) i" by (rule all(2))
qed

lemma system_run_stream:
  assumes "(system_step garbage remote d L cl)\<^sup>*\<^sup>* Z Z'" shows "(stream_step garbage remote d L cl)\<^sup>*\<^sup>* Z Z'"
  using assms by (induction rule: rtranclp_induct) (auto dest: system_step_stream intro: rtranclp.rtrancl_into_rtrancl)

subsection \<open>A run to the end from every state\<close>

lemma stream_inv_more: "stream_inv b d L cl (more_memory n1 n2 Z) = stream_inv b d L cl Z"
  by (simp add: stream_inv_def stream_side_def server_inv_more client_inv_more)

lemma stream_run_inv:
  assumes "(stream_step garbage remote d L cl)\<^sup>*\<^sup>* Z Z'" "stream_inv b d L cl Z" "packet_count b \<le> 2 ^ 16"
    and "pkt_type garbage \<noteq> UCP_PACKET_TYPE_CTRL"
  shows "stream_inv b d L cl Z'"
  using assms(1,2)
proof (induction rule: rtranclp_induct)
  case (step Z Z')
  then show ?case using stream_step_inv [OF step(2) _ assms(3,4)] by blast
qed

text \<open>Where the client has read all that arrived, up to the end of a control packet, the state is one of whole control packets.\<close>

lemma stream_inv_boundary:
  assumes "stream_inv b d L cl Z" "cl_running Z" "incoming (cl_tcp Z) d = []" "acks_moved Z = 6 * q"
  shows "system_inv b d L cl Z"
proof -
  obtain I ms n A where s: "server_inv b L cl I ms n (srv Z)" and c: "stream_side b d A ms Z"
    using assms(1) unfolding stream_inv_def by blast
  have "q \<le> length ms" using c assms(4) by (auto simp: stream_side_def unread_def)
  then have "client_side b d A ms [] Z" using c assms(2-4) by (auto simp: stream_side_def client_side_def)
  with s show ?thesis unfolding system_inv_def by blast
qed

text \<open>An iteration of the client that hears nothing.\<close>

lemma stream_client_deaf:
  assumes c: "client_inv b A w d (cl_sender Z) (cl_tcp Z)" "all_sent b (w_read w) Z" "cl_running Z"
      "\<not> done_flag (client_state (cl_sender Z))" "send_ok (cl_udp Z)"
    and a: "2 < client_avail Z" and g: "pkt_type garbage \<noteq> UCP_PACKET_TYPE_CTRL"
    and deaf: "length (incoming (cl_tcp Z) d) < 6"
  shows "\<exists>Z'. stream_step garbage remote d L cl Z Z' \<and> srv Z' = srv Z \<and> acks_moved Z' = acks_moved Z
    \<and> \<not> done_flag (client_state (cl_sender Z'))
    \<and> (case win_iterate b [] w of None \<Rightarrow> \<not> cl_running Z'
      | Some (p, w') \<Rightarrow> \<exists>A'. client_live b d A' w' Z' \<and> client_avail Z - 3 \<le> client_avail Z')"
proof -
  let ?k = "(cl_tcp Z)\<lparr>incoming := (incoming (cl_tcp Z))(d := [])\<rparr>"
  have cn: "connected d (ack_server (cl_sender Z)) (cl_tcp Z)" using c(1) by (simp add: client_inv_def)
  then have cn': "connected d (ack_server (cl_sender Z)) ?k" by (simp add: connected_incoming)
  have h: "heard (take 1024 (incoming (cl_tcp Z) d)) = []" "drop 1024 (incoming (cl_tcp Z) d) = []"
    using deaf by (simp_all add: heard_def)
  consider S' where "win_iterate b [] w = None" "done_flag (client_state S') = done_flag (client_state (cl_sender Z))"
      "block_iteration garbage remote (cl_sender Z) (cl_udp Z) (cl_tcp Z) = Some (False, S', cl_udp Z, cl_tcp Z)"
    | S' A' w' i where "win_iterate b [] w = Some (file_packet b i, w')"
      "block_iteration garbage remote (cl_sender Z) (cl_udp Z) (cl_tcp Z) = Some (\<not> done_flag (client_state S'), S',
          udp_sent remote (data_wire (data_packet (file_packet b i))) (cl_udp Z), ?k)"
      "client_inv b A' w' d S' ?k" "client_avail Z - 3 \<le> avail (memory (client_state S'))"
      "done_flag (client_state S') = done_flag (client_state (cl_sender Z))"
    using client_iterates_hears [OF c(1) a tick_hears [OF cn g, unfolded h] cn', of remote "cl_udp Z"] by auto
  then show ?thesis
  proof cases
    case 1
    from stream_step.client [OF c(3) a 1(3), of d L cl] 1(1,2) c(4) show ?thesis
      by (intro exI [of _ "Z\<lparr>cl_sender := S', cl_udp := cl_udp Z, cl_tcp := cl_tcp Z, cl_running := False\<rparr>"]) simp
  next
    case 2
    define Z' where "Z' = Z\<lparr>cl_sender := S', cl_udp := udp_sent remote (data_wire (data_packet (file_packet b i))) (cl_udp Z),
        cl_tcp := ?k, cl_running := True\<rparr>"
    have st: "stream_step garbage remote d L cl Z Z'"
      using stream_step.client [OF c(3) a 2(2), of d L cl] 2(5) c(4) by (simp add: Z'_def)
    have "all_sent b (w_read w') Z'" by (rule all_sent_iterate [OF c(2) 2(1)]) (simp add: Z'_def)
    then have "client_live b d A' w' Z'" using 2(3,5) c(4,5) by (simp add: client_live_def Z'_def udp_sent_def)
    with st 2(1,4,5) c(4) show ?thesis by (intro exI [of _ Z']) (auto simp: Z'_def)
  qed
qed

text \<open>The client gets the bytes up to the end of a control packet, fewer than six, and hears nothing.\<close>

lemma stream_to_boundary:
  assumes c: "client_inv b A w d (cl_sender Z) (cl_tcp Z)" "all_sent b (w_read w) Z" "cl_running Z"
      "\<not> done_flag (client_state (cl_sender Z))" "send_ok (cl_udp Z)"
    and a: "2 < client_avail Z" and g: "pkt_type garbage \<noteq> UCP_PACKET_TYPE_CTRL" and inc: "incoming (cl_tcp Z) d = []"
    and W: "length (outgoing (tcp (srv Z)) (client_sd cl)) = 6 * j" "acks_moved Z \<le> 6 * j"
  shows "\<exists>Z'. (stream_step garbage remote d L cl)\<^sup>*\<^sup>* Z Z' \<and> srv Z' = srv Z \<and> acks_moved Z' = 6 * ((acks_moved Z + 5) div 6)
    \<and> \<not> done_flag (client_state (cl_sender Z'))
    \<and> (case win_iterate b [] w of None \<Rightarrow> \<not> cl_running Z'
      | Some (p, w') \<Rightarrow> \<exists>A'. client_live b d A' w' Z' \<and> client_avail Z - 3 \<le> client_avail Z')"
proof -
  define n where "n = 6 * ((acks_moved Z + 5) div 6) - acks_moved Z"
  define xs where "xs = take n (drop (acks_moved Z) (outgoing (tcp (srv Z)) (client_sd cl)))"
  have n: "n < 6" "acks_moved Z + n = 6 * ((acks_moved Z + 5) div 6)" "n \<le> 6 * j - acks_moved Z"
    using W(2) unfolding n_def by presburger+
  have lx: "length xs = n" using n(3) W(1) by (simp add: xs_def)
  define Z1 where "Z1 = Z\<lparr>acks_moved := acks_moved Z + n, cl_tcp := (cl_tcp Z)\<lparr>incoming := (incoming (cl_tcp Z))(d := xs)\<rparr>\<rparr>"
  have s1: "stream_step garbage remote d L cl Z Z1"
    using stream_step.bytes [OF xs_def, of garbage remote d L] by (simp add: Z1_def lx inc)
  have Z1: "client_inv b A w d (cl_sender Z1) (cl_tcp Z1)" "all_sent b (w_read w) Z1" "cl_running Z1"
      "\<not> done_flag (client_state (cl_sender Z1))" "send_ok (cl_udp Z1)" "2 < client_avail Z1"
      "length (incoming (cl_tcp Z1) d) < 6" "srv Z1 = srv Z" "client_avail Z1 = client_avail Z"
      "acks_moved Z1 = 6 * ((acks_moved Z + 5) div 6)"
    using c a n(1,2) lx by (simp_all add: Z1_def client_inv_def connected_incoming all_sent_def in_transit_def)
  from stream_client_deaf [OF Z1(1-6) g Z1(7), of remote L cl, unfolded Z1(8-10)] show ?thesis
    using s1 by (meson converse_rtranclp_into_rtranclp r_into_rtranclp)
qed

lemma stream_recovers:
  assumes inv: "stream_inv b d L cl Z" and small: "packet_count b \<le> 2 ^ 16" and g: "pkt_type garbage \<noteq> UCP_PACKET_TYPE_CTRL"
    and run: "cl_running Z" and inc: "incoming (cl_tcp Z) d = []" and ok: "send_ok (cl_udp Z)"
  shows "\<exists>m1. \<forall>n1 \<ge> m1. \<exists>m2. \<forall>n2 \<ge> m2. \<exists>Z'. (stream_step garbage remote d L cl)\<^sup>*\<^sup>* (more_memory n1 n2 Z) Z'
    \<and> \<not> cl_running Z' \<and> \<not> done_flag (client_state (cl_sender Z')) \<and> ready (recv_handle (rcvr (srv Z'))) (length b) b"
proof -
  let ?N = "packet_count b" and ?step = "stream_step garbage remote d L cl"
  obtain I ms n A where s: "server_inv b L cl I ms n (srv Z)" and c: "stream_side b d A ms Z"
    using inv unfolding stream_inv_def by blast
  obtain w where w: "client_inv b A w d (cl_sender Z) (cl_tcp Z)" "all_sent b (w_read w) Z" "\<not> done_flag (client_state (cl_sender Z))"
    using c run unfolding stream_side_def by blast
  have moved: "acks_moved Z \<le> 6 * length ms" using c by (auto simp: stream_side_def unread_def)
  define q where "q = (acks_moved Z + 5) div 6"
  have q: "q \<le> length ms" using moved unfolding q_def by presburger
  have "\<exists>m2. \<forall>n2 \<ge> m2. \<exists>Z'. ?step\<^sup>*\<^sup>* (more_memory n1 n2 Z) Z' \<and> \<not> cl_running Z' \<and> \<not> done_flag (client_state (cl_sender Z')) \<and> ready (recv_handle (rcvr (srv Z'))) (length b) b"
    if n1: "2 * (length n + length (inbox (udp (srv Z))) + ?N) \<le> n1" for n1
  proof -
    define V where "V = srv (more_memory n1 0 Z)"
    have srv: "srv (more_memory n1 n2 Z) = V" for n2 by (simp add: V_def more_memory_def)
    have V: "server_inv b L cl I ms n V" using s by (simp add: V_def server_inv_more)
    have W: "length (outgoing (tcp V) (client_sd cl)) = 6 * length ms"
      using V length_wires [of ms] by (simp add: server_inv_def sent_inv_def)
    have av: "2 * (length (inbox (udp V)) + ?N) \<le> avail (seq_queue V)"
        "2 * (length n + length (inbox (udp V)) + ?N) \<le> avail (seq_memory (seqr V))"
      using n1 by (simp_all add: V_def more_memory_def)
    obtain m where m: "\<And>Z A w' p. win_iterate b [] w = Some (p, w') \<Longrightarrow> srv Z = V \<Longrightarrow> acks_moved Z = 6 * q \<Longrightarrow>
        client_live b d A w' Z \<Longrightarrow> m \<le> client_avail Z \<Longrightarrow> \<exists>Z'. (system_step garbage remote d L cl)\<^sup>*\<^sup>* Z Z' \<and> \<not> cl_running Z'"
    proof (cases "win_iterate b [] w")
      case (Some x)
      then show ?thesis using that live_recovers [OF V q av, where w = "snd x" and d = d and garbage = garbage and remote = remote] by (cases x) fastforce
    qed (use that in simp)
    have "\<exists>Z'. ?step\<^sup>*\<^sup>* (more_memory n1 n2 Z) Z' \<and> \<not> cl_running Z' \<and> \<not> done_flag (client_state (cl_sender Z')) \<and> ready (recv_handle (rcvr (srv Z'))) (length b) b"
      if n2: "3 + m \<le> n2" for n2
    proof -
      let ?Z = "more_memory n1 n2 Z"
      have Z: "client_inv b A w d (cl_sender ?Z) (cl_tcp ?Z)" "all_sent b (w_read w) ?Z" "cl_running ?Z"
          "\<not> done_flag (client_state (cl_sender ?Z))" "send_ok (cl_udp ?Z)" "2 < client_avail ?Z" "incoming (cl_tcp ?Z) d = []"
          "length (outgoing (tcp (srv ?Z)) (client_sd cl)) = 6 * length ms" "acks_moved ?Z \<le> 6 * length ms"
        using w run ok n2 inc W moved srv by (simp_all add: client_inv_more)
      obtain Z1 where Z1: "?step\<^sup>*\<^sup>* ?Z Z1" "srv Z1 = V" "acks_moved Z1 = 6 * q" "\<not> done_flag (client_state (cl_sender Z1))"
          "case win_iterate b [] w of None \<Rightarrow> \<not> cl_running Z1
            | Some (p, w') \<Rightarrow> \<exists>A'. client_live b d A' w' Z1 \<and> client_avail ?Z - 3 \<le> client_avail Z1"
        using stream_to_boundary [OF Z(1-6) g Z(7-9), of remote L] srv by (auto simp: q_def)
      have i1: "stream_inv b d L cl Z1" using stream_run_inv [OF Z1(1) _ small g] inv by (simp add: stream_inv_more)
      show ?thesis
      proof (cases "win_iterate b [] w")
        case None
        then show ?thesis using Z1(1,4,5) stream_inv_stopped(1) [OF i1] by auto
      next
        case (Some x)
        obtain p w' where x: "x = (p, w')" by (cases x)
        obtain A' where A': "client_live b d A' w' Z1" "client_avail ?Z - 3 \<le> client_avail Z1" using Z1(5) Some x by auto
        have "m \<le> client_avail Z1" using A'(2) n2 unfolding more_memory_simps by linarith
        from m [OF Some [unfolded x] Z1(2,3) A'(1) this] obtain Z2 where
          Z2: "(system_step garbage remote d L cl)\<^sup>*\<^sup>* Z1 Z2" "\<not> cl_running Z2" by blast
        have "system_inv b d L cl Z1" using stream_inv_boundary [OF i1 _ _ Z1(3)] A'(1) by (simp add: client_live_def)
        note i2 = system_run_inv [OF Z2(1) this]
        have "ready (recv_handle (rcvr (srv Z2))) (length b) b" by (rule system_inv_stopped(1) [OF i2 Z2(2)])
        moreover have "\<not> done_flag (client_state (cl_sender Z2))" using i2 by (auto simp: system_inv_def client_side_def)
        moreover have "?step\<^sup>*\<^sup>* ?Z Z2" using rtranclp_trans [OF Z1(1) system_run_stream [OF Z2(1)]] .
        ultimately show ?thesis using Z2(2) by blast
      qed
    qed
    then show ?thesis by blast
  qed
  then show ?thesis by blast
qed

subsection \<open>A cut that ends the transfer\<close>

lemma stream_client:
  assumes c: "client_inv b A w d (cl_sender Z) (cl_tcp Z)" "cl_running Z" "\<not> done_flag (client_state (cl_sender Z))"
    and a: "2 < client_avail Z" and g: "pkt_type garbage \<noteq> UCP_PACKET_TYPE_CTRL" and more: "\<not> {0..<packet_count b} \<subseteq> A"
  defines "ms \<equiv> heard (take 1024 (incoming (cl_tcp Z) d))"
  shows "\<exists>Z' A' w'. stream_step garbage remote d L cl Z Z' \<and> srv Z' = srv Z \<and> acks_moved Z' = acks_moved Z
    \<and> incoming (cl_tcp Z') d = drop 1024 (incoming (cl_tcp Z) d) \<and> client_inv b A' w' d (cl_sender Z') (cl_tcp Z')
    \<and> A' \<subseteq> A \<union> {j. j < packet_count b \<and> ctrl UCP_FLAG_ACK (of_nat j) \<in> set ms}
    \<and> client_avail Z - 3 \<le> client_avail Z' \<and> cl_running Z' = (\<not> done_flag (client_state (cl_sender Z')))
    \<and> done_flag (client_state (cl_sender Z')) = (\<exists>m. ms = [m] \<and> ctrl_flag m = UCP_FLAG_FIN)"
proof -
  let ?k = "(cl_tcp Z)\<lparr>incoming := (incoming (cl_tcp Z))(d := drop 1024 (incoming (cl_tcp Z) d))\<rparr>"
  have cn: "connected d (ack_server (cl_sender Z)) (cl_tcp Z)" using c(1) by (simp add: client_inv_def)
  then have cn': "connected d (ack_server (cl_sender Z)) ?k" by (simp add: connected_incoming)
  obtain S' A' w' i where s: "block_iteration garbage remote (cl_sender Z) (cl_udp Z) (cl_tcp Z) = Some (\<not> done_flag (client_state S'), S',
          udp_sent remote (data_wire (data_packet (file_packet b i))) (cl_udp Z), ?k)" "client_inv b A' w' d S' ?k"
      "A' \<subseteq> A \<union> {j. j < packet_count b \<and> ctrl UCP_FLAG_ACK (of_nat j) \<in> set ms}"
      "client_avail Z - 3 \<le> avail (memory (client_state S'))"
      "done_flag (client_state S') = (done_flag (client_state (cl_sender Z)) \<or> (\<exists>m ms'. ms = m # ms' \<and> ctrl_flag m = UCP_FLAG_FIN))"
    using client_iterates_hears [OF c(1) a tick_hears [OF cn g] cn', of remote "cl_udp Z"] more unfolding ms_def by blast
  have "(\<exists>m ms'. ms = m # ms' \<and> ctrl_flag m = UCP_FLAG_FIN) = (\<exists>m. ms = [m] \<and> ctrl_flag m = UCP_FLAG_FIN)"
    unfolding ms_def using heard_singleton by metis
  then have "done_flag (client_state S') = (\<exists>m. ms = [m] \<and> ctrl_flag m = UCP_FLAG_FIN)" using s(5) c(3) by (simp only: simp_thms)
  with s(2-4) stream_step.client [OF c(2) a s(1), of d L cl] show ?thesis
    by (intro exI [of _ "Z\<lparr>cl_sender := S', cl_udp := udp_sent remote (data_wire (data_packet (file_packet b i))) (cl_udp Z),
        cl_tcp := ?k, cl_running := \<not> done_flag (client_state S')\<rparr>"] exI [of _ A'] exI [of _ w']) simp
qed

text \<open>Control packet 3 without its first byte is a FIN.\<close>

lemma cut_ack_is_fin:
  assumes "ys \<noteq> []"
  shows "\<exists>m. heard (drop 1 (ctrl_wire (ctrl UCP_FLAG_ACK 3) @ ys)) = [m] \<and> ctrl_flag m = UCP_FLAG_FIN"
proof -
  obtain y zs where "ys = y # zs" using assms by (cases ys) auto
  moreover have "byte_of 0 UCP_FLAG_ACK = 1" "byte_of 0 (3 :: u32) = 3" by (simp_all add: byte_of_def packet_enums)
  ultimately show ?thesis by (simp add: heard_def ctrl_wire_def packet_enums)
qed


text \<open>The client has read its part to the end, nothing has arrived and nothing is acknowledged.\<close>

lemma part_is_sent:
  assumes Z0: "system_start b d L cl Z0" and ok: "send_ok (cl_udp Z0)" and pc: "0 < packet_count b"
    and a: "3 * packet_count b \<le> client_avail Z0"
  shows "\<exists>Z w. (system_step garbage remote d L cl)\<^sup>*\<^sup>* Z0 Z \<and> srv Z = srv Z0 \<and> acks_moved Z = 0
    \<and> client_live b d {} w Z \<and> w_read w = packet_count b \<and> client_avail Z0 - 3 * packet_count b \<le> client_avail Z"
proof -
  have live: "client_live b d {} win_start Z0"
    using Z0 ok by (simp add: client_live_def system_start_def all_sent_def win_start_def)
  have ah: "ahead b win_start = packet_count b" by (simp add: ahead_def win_start_def)
  obtain Z where Z: "(system_step garbage remote d L cl)\<^sup>*\<^sup>* Z0 Z" "srv Z = srv Z0" "acks_moved Z = acks_moved Z0"
      "\<not> cl_running Z \<or> (\<exists>w'. client_live b d {} w' Z \<and> draining b w' \<and> client_avail Z0 - 3 * packet_count b \<le> client_avail Z)"
    using client_reads_part [OF live, of garbage remote L cl] a unfolding ah by blast
  have "outgoing (tcp (srv Z)) (client_sd cl) = []" using Z0 Z(2) by (simp add: system_start_def server_start_def)
  then have "\<not> acked (outgoing (tcp (srv Z)) (client_sd cl)) 0" by (simp add: acked_def ctrl_frames.simps)
  then have "cl_running Z" using system_inv_stopped(2) [OF system_reachable_inv [OF Z(1) Z0] _ pc] by blast
  then show ?thesis using Z Z0 by (auto simp: draining_def system_start_def)
qed

text \<open>The server receives one packet twice and answers, first of all with its ACK.\<close>

lemma server_answers_twice:
  assumes inv: "server_inv b L cl {} [] [] V" and e: "inbox (udp V) = []" and i: "i < packet_count b"
    and p: "(src, data_wire (data_packet (file_packet b i))) \<in> D" and D: "D \<subseteq> part_datagrams b"
    and a: "4 \<le> avail (seq_queue V)" "4 \<le> avail (seq_memory (seqr V))"
  shows "\<exists>V' ys. (server_step L cl D)\<^sup>*\<^sup>* V V' \<and> outgoing (tcp V') (client_sd cl) = ctrl_wire (ctrl UCP_FLAG_ACK (of_nat i)) @ ys \<and> ys \<noteq> []
    \<and> (\<exists>ms. server_inv b L cl {i} ms [] V')"
proof -
  obtain V1 m1 where V1: "(server_step L cl D)\<^sup>*\<^sup>* V V1" "server_inv b L cl {i} m1 [] V1"
      "ctrl UCP_FLAG_ACK (of_nat i) \<in> set m1" "hd m1 = ctrl UCP_FLAG_ACK (of_nat i)" "inbox (udp V1) = []"
      "2 \<le> avail (seq_queue V1)" "2 \<le> avail (seq_memory (seqr V1))"
    using server_serves_packet [OF inv e i p D] a by fastforce
  obtain V2 m2 where V2: "(server_step L cl D)\<^sup>*\<^sup>* V1 V2" "server_inv b L cl {i} (m1 @ m2) [] V2"
      "ctrl UCP_FLAG_ACK (of_nat i) \<in> set m2"
    using server_serves_packet [OF V1(2,5) i p D] V1(6,7) by auto
  obtain m1' where m1: "m1 = ctrl UCP_FLAG_ACK (of_nat i) # m1'" using V1(3,4) by (cases m1) auto
  have "outgoing (tcp V2) (client_sd cl) = concat (map ctrl_wire (m1 @ m2))" using V2(2) by (simp add: server_inv_def sent_inv_def)
  moreover have "concat (map ctrl_wire (m1' @ m2)) \<noteq> []" using V2(3) by (cases m2) (auto simp: ctrl_wire_def)
  moreover have "(server_step L cl D)\<^sup>*\<^sup>* V V2" using V1(1) V2(1) by (rule rtranclp_trans)
  ultimately show ?thesis using V2(2) unfolding m1
    by (intro exI [of _ V2] exI [of _ "concat (map ctrl_wire (m1' @ m2))"] conjI exI [of _ "ctrl UCP_FLAG_ACK (of_nat i) # m1' @ m2"])
      simp_all
qed

lemma stream_cut_at_one:
  assumes c: "client_inv b {} w d (cl_sender Z) (cl_tcp Z)" "cl_running Z" "\<not> done_flag (client_state (cl_sender Z))"
      "incoming (cl_tcp Z) d = []" "acks_moved Z = 0"
    and a: "6 \<le> client_avail Z" and g: "pkt_type garbage \<noteq> UCP_PACKET_TYPE_CTRL" and pc: "0 < packet_count b"
    and out: "outgoing (tcp (srv Z)) (client_sd cl) = ctrl_wire (ctrl UCP_FLAG_ACK 3) @ ys" "ys \<noteq> []"
  shows "\<exists>Z'. (stream_step garbage remote d L cl)\<^sup>*\<^sup>* Z Z' \<and> srv Z' = srv Z \<and> \<not> cl_running Z'"
proof -
  let ?W = "outgoing (tcp (srv Z)) (client_sd cl)" and ?step = "stream_step garbage remote d L cl"
  have pc': "\<not> {0..<packet_count b} \<subseteq> {}" using pc by auto
  define Z1 where "Z1 = Z\<lparr>acks_moved := 1, cl_tcp := (cl_tcp Z)\<lparr>incoming := (incoming (cl_tcp Z))(d := take 1 ?W)\<rparr>\<rparr>"
  have "length (take 1 ?W) = 1" unfolding out(1) by simp
  then have s1: "?step Z Z1" using stream_step.bytes [of "take 1 ?W" 1 Z cl garbage remote d L] c(4,5) unfolding Z1_def by simp
  have Z1: "client_inv b {} w d (cl_sender Z1) (cl_tcp Z1)" "cl_running Z1" "\<not> done_flag (client_state (cl_sender Z1))"
      "2 < client_avail Z1" "incoming (cl_tcp Z1) d = take 1 ?W" "acks_moved Z1 = 1" "srv Z1 = srv Z" "client_avail Z1 = client_avail Z"
    using c a by (simp_all add: Z1_def client_inv_def connected_incoming)
  have deaf: "heard (take 1024 (incoming (cl_tcp Z1) d)) = []" unfolding Z1(5) by (simp add: heard_def)
  from stream_client [OF Z1(1-4) g pc', of remote L cl, unfolded deaf] obtain Z2 w2 where
    Z2: "?step Z1 Z2" "srv Z2 = srv Z" "acks_moved Z2 = 1" "incoming (cl_tcp Z2) d = []" "client_inv b {} w2 d (cl_sender Z2) (cl_tcp Z2)"
      "cl_running Z2" "\<not> done_flag (client_state (cl_sender Z2))" "client_avail Z - 3 \<le> client_avail Z2"
    using Z1(5-8) by auto
  define n where "n = length ?W"
  define Z3 where "Z3 = Z2\<lparr>acks_moved := 1 + length (drop 1 ?W), cl_tcp := (cl_tcp Z2)\<lparr>incoming := (incoming (cl_tcp Z2))(d := drop 1 ?W)\<rparr>\<rparr>"
  have s3: "?step Z2 Z3"
    using stream_step.bytes [of "drop 1 ?W" n Z2 cl garbage remote d L] Z2(2-4) unfolding Z3_def n_def by simp
  have Z3: "client_inv b {} w2 d (cl_sender Z3) (cl_tcp Z3)" "cl_running Z3" "\<not> done_flag (client_state (cl_sender Z3))"
      "2 < client_avail Z3" "incoming (cl_tcp Z3) d = drop 1 ?W" "srv Z3 = srv Z"
    using Z2 a by (simp_all add: Z3_def client_inv_def connected_incoming)
  obtain m where m: "heard (drop 1 ?W) = [m]" "ctrl_flag m = UCP_FLAG_FIN" using cut_ack_is_fin [OF out(2)] unfolding out(1) by blast
  then have fin: "heard (take 1024 (incoming (cl_tcp Z3) d)) = [m]" unfolding Z3(5) by (auto simp: heard_def split: if_splits)
  from stream_client [OF Z3(1-4) g pc', of remote L cl, unfolded fin] obtain Z4 where Z4: "?step Z3 Z4" "srv Z4 = srv Z" "\<not> cl_running Z4"
    using Z3(6) m(2) by auto
  have "?step\<^sup>*\<^sup>* Z Z4" using s1 Z2(1) s3 Z4(1) by (meson r_into_rtranclp rtranclp_trans)
  then show ?thesis using Z4(2,3) by blast
qed


subsection \<open>Properties\<close>

text \<open>C1: the transfer is safe however TCP cuts the control stream. Any number of its bytes may arrive at a time and any
  number may wait, so that reads begin inside packets; for a part of at most \<open>2 ^ 16\<close> packets, when the
  uninitialised local of the callback does not hold a control packet and the disk takes every write (a condition of the
  start), a client that has stopped
  without taking anything for a FIN has had every packet of the part acknowledged, and the server's file is the part.\<close>

theorem transfer_safe_any_cut:
  assumes "(stream_step garbage remote d L cl)\<^sup>*\<^sup>* Z0 Z" "system_start b d L cl Z0" "packet_count b \<le> 2 ^ 16"
    and "pkt_type garbage \<noteq> UCP_PACKET_TYPE_CTRL" "\<not> cl_running Z" "\<not> done_flag (client_state (cl_sender Z))"
  shows "ready (recv_handle (rcvr (srv Z))) (length b) b
    \<and> (\<forall>i < packet_count b. acked (outgoing (tcp (srv Z)) (client_sd cl)) i)"
  using stream_inv_stopped [OF stream_reachable_inv [OF assms(1-4)] assms(5,6)] by blast

theorem transfer_safe_any_cut_witness:
  "\<exists>Z0 Z. (stream_step zero_packet zero_addr 5 1 example_client)\<^sup>*\<^sup>* Z0 Z \<and> system_start [7, 8] 5 1 example_client Z0
    \<and> \<not> cl_running Z \<and> ready (recv_handle (rcvr (srv Z))) 2 [7, 8]"
proof -
  have pc: "packet_count [7, 8] \<le> 2 ^ 16" by (simp add: packet_count_def UDP_PACKET_DATA_SIZE_val)
  have g: "pkt_type zero_packet \<noteq> UCP_PACKET_TYPE_CTRL" by (simp add: zero_packet_def ucp_packet_init_def packet_enums)
  have st: "system_start [7, 8] 5 1 example_client (more_memory n m (example_system [7, 8] 0))" for n m
    unfolding system_start_more by (rule example_system_start) simp
  have "cl_running (example_system [7, 8] 0)" "incoming (cl_tcp (example_system [7, 8] 0)) 5 = []"
      "send_ok (cl_udp (example_system [7, 8] 0))"
    by (simp_all add: example_system_def example_net_def example_connection_def)
  from stream_recovers [OF stream_start_inv [OF example_system_start] pc g this, of zero_addr] obtain n m Z where
    r: "(stream_step zero_packet zero_addr 5 1 example_client)\<^sup>*\<^sup>* (more_memory n m (example_system [7, 8] 0)) Z" "\<not> cl_running Z"
      "\<not> done_flag (client_state (cl_sender Z))"
    by fastforce
  have "ready (recv_handle (rcvr (srv Z))) (length [7 :: u8, 8]) [7, 8]"
    using transfer_safe_any_cut [OF r(1) st pc g r(2,3)] by blast
  moreover have "length [7 :: u8, 8] = 2" by simp
  ultimately show ?thesis using st r(1,2) by metis
qed

text \<open>C2: a transfer can always be completed. From every state that a run can reach in which the client's loop runs and has read
  all the control bytes that have arrived, at the end of a packet or inside one, whatever datagrams were lost, repeated or delivered
  out of order, a run goes on in which no step faults, the loop of the client ends without a FIN and the file of the server is the
  part. What it needs: a disk that takes every write (a condition of the start), a socket of the client that sends, a part of at
  most \<open>2 ^ 16\<close> packets, an uninitialised local of the callback that holds no control packet, and memory: any amount above a bound
  for the server, and then any amount above a bound for the client, which frees nothing. The run chooses which datagrams and how
  many bytes of the stream arrive; other runs can fail (\<open>cut_ack_ends_transfer\<close>).\<close>

theorem transfer_never_stuck:
  assumes "(stream_step garbage remote d L cl)\<^sup>*\<^sup>* Z0 Z" "system_start b d L cl Z0" "packet_count b \<le> 2 ^ 16"
    and "pkt_type garbage \<noteq> UCP_PACKET_TYPE_CTRL" "cl_running Z" "incoming (cl_tcp Z) d = []" "send_ok (cl_udp Z)"
  shows "\<exists>m1. \<forall>n1 \<ge> m1. \<exists>m2. \<forall>n2 \<ge> m2. \<exists>Z'. (stream_step garbage remote d L cl)\<^sup>*\<^sup>* (more_memory n1 n2 Z) Z'
    \<and> \<not> cl_running Z' \<and> \<not> done_flag (client_state (cl_sender Z')) \<and> ready (recv_handle (rcvr (srv Z'))) (length b) b"
  by (rule stream_recovers [OF stream_reachable_inv [OF assms(1-4)] assms(3-7)])

text \<open>A client that has sent its only packet, which nobody has received.\<close>

theorem transfer_never_stuck_witness:
  "\<exists>Z n m Z'. stream_step zero_packet zero_addr 5 1 example_client (example_system [7, 8] 5) Z \<and> cl_running Z
    \<and> (stream_step zero_packet zero_addr 5 1 example_client)\<^sup>*\<^sup>* (more_memory n m Z) Z'
    \<and> \<not> cl_running Z' \<and> ready (recv_handle (rcvr (srv Z'))) 2 [7, 8]"
proof -
  let ?Z0 = "example_system [7, 8] 5"
  have g: "pkt_type zero_packet \<noteq> UCP_PACKET_TYPE_CTRL" by (simp add: zero_packet_def ucp_packet_init_def packet_enums)
  have st: "system_start [7, 8] 5 1 example_client ?Z0" by (rule example_system_start) simp
  note s = st [unfolded system_start_def]
  have ok: "send_ok (cl_udp ?Z0)" "2 < client_avail ?Z0" by (simp_all add: example_system_def example_net_def)
  have "all_sent [7, 8] (w_read win_start) ?Z0" by (simp add: all_sent_def win_start_def)
  moreover have pc: "packet_count [7, 8] = 1" "packet_count [7, 8] \<le> 2 ^ 16" by (simp_all add: packet_count_def UDP_PACKET_DATA_SIZE_val)
  then have "\<exists>x. win_iterate [7, 8] [] win_start = Some x" by (simp add: win_iterate_def win_next_def win_start_def)
  ultimately obtain Z A w where Z: "stream_step zero_packet zero_addr 5 1 example_client ?Z0 Z" "client_live [7, 8] 5 A w Z"
    using stream_client_deaf [of "[7, 8]" "{}" win_start 5 ?Z0 zero_packet zero_addr 1 example_client] s ok g by auto
  have r: "(stream_step zero_packet zero_addr 5 1 example_client)\<^sup>*\<^sup>* ?Z0 Z" using Z(1) by blast
  have l: "cl_running Z" "incoming (cl_tcp Z) 5 = []" "send_ok (cl_udp Z)" using Z(2) by (simp_all add: client_live_def)
  from transfer_never_stuck [OF r st pc(2) g l] obtain n m Z' where
    "(stream_step zero_packet zero_addr 5 1 example_client)\<^sup>*\<^sup>* (more_memory n m Z) Z'" "\<not> cl_running Z'"
    "ready (recv_handle (rcvr (srv Z'))) (length [7 :: u8, 8]) [7, 8]" by blast
  moreover have "length [7 :: u8, 8] = 2" by simp
  ultimately show ?thesis using Z(1) l(1) by metis
qed

text \<open>C30: a cut ACK can end a transfer. For every part of at least four packets and every start of the system, with a client's
  socket that sends, memory for the run, and an uninitialised local of the callback that holds no control packet, there is a run in
  which TCP hands over the first byte of the ACK of packet 3 alone: the rest of it is read as a FIN, the client's loop ends, and
  nothing but packet 3 has been written to the file and acknowledged.\<close>

theorem cut_ack_ends_transfer:
  assumes "system_start b d L cl Z0" "4 \<le> packet_count b" "send_ok (cl_udp Z0)" "pkt_type garbage \<noteq> UCP_PACKET_TYPE_CTRL"
    and "3 * packet_count b + 6 \<le> client_avail Z0" "4 \<le> avail (seq_queue (srv Z0))" "4 \<le> avail (seq_memory (seqr (srv Z0)))"
  shows "\<exists>Z c. (stream_step garbage remote d L cl)\<^sup>*\<^sup>* Z0 Z \<and> \<not> cl_running Z
    \<and> ready (recv_handle (rcvr (srv Z))) (length b) c \<and> written b {3} c
    \<and> (\<forall>i < packet_count b. acked (outgoing (tcp (srv Z)) (client_sd cl)) i \<longrightarrow> i = 3)"
proof -
  let ?D = "part_datagrams b"
  have pc: "0 < packet_count b" "3 < packet_count b" using assms(2) by simp_all
  obtain Z1 w where Z1: "(system_step garbage remote d L cl)\<^sup>*\<^sup>* Z0 Z1" "srv Z1 = srv Z0" "acks_moved Z1 = 0"
      "client_live b d {} w Z1" "w_read w = packet_count b" "client_avail Z0 - 3 * packet_count b \<le> client_avail Z1"
    using part_is_sent [OF assms(1,3) pc(1)] assms(5) by fastforce
  note live = Z1(4) [unfolded client_live_def]
  have sent: "(remote, data_wire (data_packet (file_packet b 3))) \<in> in_transit Z1" using live Z1(5) pc(2) by (simp add: all_sent_def)
  have tr: "in_transit Z1 \<subseteq> part_datagrams b"
    using system_reachable_inv [OF Z1(1) assms(1)] by (auto simp: system_inv_def client_side_def)
  have "server_inv b L cl {} [] [] (srv Z1)" "inbox (udp (srv Z1)) = []"
    using assms(1) Z1(2) server_start_inv by (simp_all add: system_start_def server_start_def)
  from server_answers_twice [OF this pc(2) sent tr] obtain V ys ms where
    V: "(server_step L cl (in_transit Z1))\<^sup>*\<^sup>* (srv Z1) V" "outgoing (tcp V) (client_sd cl) = ctrl_wire (ctrl UCP_FLAG_ACK 3) @ ys"
      "ys \<noteq> []" "server_inv b L cl {3} ms [] V"
    using assms(6,7) Z1(2) by auto
  define Z2 where "Z2 = Z1\<lparr>srv := V\<rparr>"
  have r2: "(system_step garbage remote d L cl)\<^sup>*\<^sup>* Z1 Z2" unfolding Z2_def by (rule server_run_in_system [OF V(1) order_refl])
  have Z2: "client_inv b {} w d (cl_sender Z2) (cl_tcp Z2)" "cl_running Z2" "\<not> done_flag (client_state (cl_sender Z2))"
      "incoming (cl_tcp Z2) d = []" "acks_moved Z2 = 0" "6 \<le> client_avail Z2"
      "outgoing (tcp (srv Z2)) (client_sd cl) = ctrl_wire (ctrl UCP_FLAG_ACK 3) @ ys" "srv Z2 = V"
    using live Z1(3,6) assms(5) V(2) by (simp_all add: Z2_def)
  obtain Z where Z: "(stream_step garbage remote d L cl)\<^sup>*\<^sup>* Z2 Z" "srv Z = V" "\<not> cl_running Z"
    using stream_cut_at_one [OF Z2(1-6) assms(4) pc(1) Z2(7) V(3), of remote L] Z2(8) by auto
  have run: "(stream_step garbage remote d L cl)\<^sup>*\<^sup>* Z0 Z"
    using system_run_stream [OF rtranclp_trans [OF Z1(1) r2]] Z(1) by (rule rtranclp_trans)
  have v: "length b < 2 ^ 32" "{3} \<subseteq> {0..<packet_count b}" "sent_inv cl {3} ms (tcp V)" using V(4) by (simp_all add: server_inv_def)
  obtain c where "ready (recv_handle (rcvr V)) (length b) c" "written b {3} c" using V(4) by (auto simp: server_inv_def file_inv_def)
  moreover have "\<forall>i < packet_count b. acked (outgoing (tcp V) (client_sd cl)) i \<longrightarrow> i = 3"
    using sent_inv_acked(2) [OF v(3,2,1)] by blast
  ultimately show ?thesis using run Z(2,3) by blast
qed


theorem cut_ack_ends_transfer_witness:
  "\<exists>Z c. (stream_step zero_packet zero_addr 5 1 example_client)\<^sup>*\<^sup>* (example_system (replicate 27499 7) 30) Z \<and> \<not> cl_running Z
    \<and> ready (recv_handle (rcvr (srv Z))) 27499 c \<and> c ! 0 = 0"
proof -
  let ?b = "replicate 27499 (7 :: u8)" and ?Z = "example_system (replicate 27499 7) 30"
  have l: "length ?b = 27499" by simp
  have pc: "packet_count ?b = 4" by (simp add: packet_count_def UDP_PACKET_DATA_SIZE_val)
  have st: "system_start ?b 5 1 example_client ?Z" by (rule example_system_start) simp
  have ok: "send_ok (cl_udp ?Z)" "pkt_type zero_packet \<noteq> UCP_PACKET_TYPE_CTRL" "3 * packet_count ?b + 6 \<le> client_avail ?Z"
      "4 \<le> avail (seq_queue (srv ?Z))" "4 \<le> avail (seq_memory (seqr (srv ?Z)))"
    unfolding pc by (simp_all add: example_system_def example_net_def example_server_state_def empty_queue_def zero_packet_def
        ucp_packet_init_def packet_enums)
  have "4 \<le> packet_count ?b" unfolding pc ..
  from cut_ack_ends_transfer [OF st this ok, of zero_addr] obtain Z c where
    Z: "(stream_step zero_packet zero_addr 5 1 example_client)\<^sup>*\<^sup>* ?Z Z" "\<not> cl_running Z"
      "ready (recv_handle (rcvr (srv Z))) (length ?b) c" "written ?b {3} c" by blast
  have "c ! 0 = 0" using Z(4) by (simp add: written_def)
  then show ?thesis using Z(1-3) unfolding l by blast
qed


end
