(* ===== verification/Session.thy ===== *)
theory Session
  imports Control_Stream
begin

text \<open>
  How a transfer begins: the client announces its part with a metadata packet, the server creates the file and
  connects back, and the system is then in a start state of \<open>Transfer_System\<close>. At the end, the two programs from their
  command lines to the file that is copied.
\<close>

subsection \<open>The client's side of the set-up\<close>

definition announced :: "file_io_partition_handle \<Rightarrow> string \<Rightarrow> ucp_metadata_packet" where
  "announced h name = \<lparr>desination_name = take 19 (name_bytes name) @ replicate (20 - length (take 19 (name_bytes name))) 0,
     part_index = idx h, part_size = handle_part_size h\<rparr>"

text \<open>What the host gives a client thread: sockets, and a connection from the server on the descriptor \<open>d\<close>.\<close>

definition client_host_ok :: "int \<Rightarrow> u8 list \<Rightarrow> udp_net \<Rightarrow> kernel \<Rightarrow> bool" where
  "client_host_ok d buf u k \<longleftrightarrow> length buf = UDP_PACKET_SIZE \<and> 0 \<le> udp_next_sd u \<and> udp_bind_ok u \<and> sent u = [] \<and> send_ok u
     \<and> net_alloc k \<and> 0 \<le> next_sd k \<and> next_sd k < d \<and> d < FD_SETSIZE \<and> bind_ok k \<and> listen_ok k
     \<and> (\<exists>peer. backlog k = [(d, peer)]) \<and> incoming k d = []
     \<and> \<not> broken k (next_sd k) \<and> \<not> broken k d \<and> \<not> hung_up k d"

lemma announced_encodes:
  assumes "length buf = UDP_PACKET_SIZE"
  shows "\<exists>p len. ucp_packet_init_metadata True (name_bytes name) n (idx h) (handle_part_size h) = Some (Some p)
    \<and> ucp_packet_encode (Some p) (Some buf) (of_nat (length buf))
        = Some (len, Some (meta_wire (announced h name) @ drop (unat len) buf))
    \<and> unat len = length (meta_wire (announced h name)) \<and> unat len = 26"
proof -
  define p where "p = (the (ucp_packet_init True UCP_PACKET_TYPE_METADATA))\<lparr>metadata_packet := announced h name\<rparr>"
  have p: "wf_packet p" "pkt_type p = UCP_PACKET_TYPE_METADATA" "metadata_packet p = announced h name"
      "length (desination_name (announced h name)) = NAME_SIZE"
    by (simp_all add: p_def ucp_packet_init_def wf_packet_def NAME_SIZE_def announced_def)
  have n: "unat (of_nat UDP_PACKET_SIZE :: u64) = UDP_PACKET_SIZE" "sizeof_ucp_packet \<le> UDP_PACKET_SIZE"
    by (simp_all add: UDP_PACKET_SIZE_val sizeof_ucp_packet_val)
  have "ucp_packet_init_metadata True (name_bytes name) n (idx h) (handle_part_size h) = Some (Some p)"
    unfolding init_metadata_Some p_def announced_def ..
  moreover obtain len where "ucp_packet_encode (Some p) (Some buf) (of_nat (length buf))
        = Some (len, Some (meta_wire (announced h name) @ drop (unat len) buf))"
      "unat len = length (meta_wire (announced h name))"
    using meta_codec.enc [of p buf "of_nat (length buf)"] p n assms by auto
  moreover have "length (meta_wire (announced h name)) = 26" using p(4) by (simp add: meta_wire_def NAME_SIZE_def)
  ultimately show ?thesis by auto
qed

lemma server_listens:
  assumes "0 \<le> next_sd k" "next_sd k < FD_SETSIZE" "bind_ok k" "listen_ok k"
  shows "tcp_server_start True k = Some (Start_live \<lparr>sd = next_sd k, max_sd = next_sd k, server_fd_set = {next_sd k}, endpoints = []\<rparr>,
    k\<lparr>open_sds := insert (next_sd k) (open_sds k)\<rparr>)"
  using assms by (simp add: tcp_server_start_def k_socket_def FD_SET_def Let_def)

lemma server_accepts:
  assumes "net_alloc k" "backlog k = [(d, peer)]" "0 \<le> d" "d < FD_SETSIZE" "max_sd s < d"
  shows "accept_loop s k = Some (s\<lparr>max_sd := d, server_fd_set := insert d (server_fd_set s),
      endpoints := \<lparr>ep_addr = (case peer of None \<Rightarrow> zero_addr | Some a \<Rightarrow> a), ep_sd = d\<rparr> # endpoints s\<rparr>,
    k\<lparr>backlog := [], open_sds := insert d (open_sds k)\<rparr>)"
  using assms by (subst accept_loop.simps)
    (auto simp: tcp_server_accept_def create_child_socket_def FD_SET_def Let_def split: option.splits)

lemma block_thread_starts:
  assumes host: "client_host_ok d buf u k"
    and ctx: "ctx_handle ctx = Some h" "dst_ip ctx = Some ip" "dst_filename ctx = Some name"
  shows "\<exists>remote S k'. block_thread_start inet True True buf now ctx c u k
      = Some (Some (ctx\<lparr>start_time := now\<rparr>, remote, S), u\<lparr>sent := [(remote, meta_wire (announced h name))]\<rparr>, k')
    \<and> client_state S = c \<and> sender_handle S = h \<and> length (send_buffer S) = UDP_PACKET_SIZE
    \<and> connected d (ack_server S) k' \<and> incoming k' d = [] \<and> s_addr remote = inet ip"
proof -
  obtain peer where hk: "backlog k = [(d, peer)]" using host unfolding client_host_ok_def by blast
  note hs = host [unfolded client_host_ok_def]
  obtain p len where p: "ucp_packet_init_metadata True (name_bytes name) (of_nat (length name)) (idx h) (handle_part_size h)
        = Some (Some p)"
      "ucp_packet_encode (Some p) (Some buf) (of_nat (length buf))
        = Some (len, Some (meta_wire (announced h name) @ drop (unat len) buf))"
      "unat len = length (meta_wire (announced h name))" "unat len = 26"
    using announced_encodes hs by blast
  let ?b = "meta_wire (announced h name) @ drop (unat len) buf" and ?s = "\<lparr>sd = next_sd k, max_sd = next_sd k,
      server_fd_set = {next_sd k}, endpoints = []\<rparr>"
  let ?k = "k\<lparr>open_sds := insert (next_sd k) (open_sds k)\<rparr>"
  define remote where "remote = \<lparr>sin_family = AF_INET, sin_port = htons (of_nat SERVER_BASE_PORT + ucast (idx h)), s_addr = inet ip\<rparr>"
  have sock: "create_socket (of_nat CLIENT_BASE_PORT + ucast (idx h)) (Some zero_addr) u = Some (udp_next_sd u)"
    using hs by (simp add: create_socket_def udp_socket_initialise_def udp_socket_bind_def)
  have snd: "udp_socket_send remote ?b len u = Some (26, u\<lparr>sent := [(remote, meta_wire (announced h name))]\<rparr>)"
    using hs p(3,4) by (simp add: udp_socket_send_def get_bytes_def)
  have start: "tcp_server_start True k = Some (Start_live ?s, ?k)" using server_listens hs by simp
  have "net_alloc ?k" "backlog ?k = [(d, peer)]" "0 \<le> d" "d < FD_SETSIZE" "max_sd ?s < d" using hk hs by simp_all
  from server_accepts [OF this] obtain s' where
    s': "accept_loop ?s ?k = Some (s', ?k\<lparr>backlog := [], open_sds := insert d (open_sds ?k)\<rparr>)"
      "server_fd_set s' = {next_sd k, d}" "sd s' = next_sd k" "max_sd s' = d" by (auto simp: insert_commute)
  have "block_setup inet True True buf ctx u k = Some (Some (s', remote, ?b), u\<lparr>sent := [(remote, meta_wire (announced h name))]\<rparr>,
      ?k\<lparr>backlog := [], open_sds := insert d (open_sds ?k)\<rparr>)"
    using hs ctx sock start p(1,2) snd s'(1) by (simp add: block_setup_def block_open_def block_announce_def remote_def Let_def)
  then show ?thesis
    using hs ctx(1) s'(2-4) p(3,4)
    by (auto simp: block_thread_start_def connected_def UDP_PACKET_SIZE_val remote_def)
qed

subsection \<open>The two sides meet\<close>

lemma c_string_padded:
  assumes "0 \<notin> set xs"
  shows "c_string (xs @ replicate (Suc n) 0) = Some xs"
proof -
  have "takeWhile (\<lambda>x. x \<noteq> 0) (xs @ replicate (Suc n) 0) = xs @ takeWhile (\<lambda>x. x \<noteq> 0) (replicate (Suc n) (0 :: u8))"
    using assms by (intro takeWhile_append2) auto
  then show ?thesis by (simp add: c_string_def)
qed

lemma c_string_announced:
  assumes "0 \<notin> set (name_bytes name)"
  shows "c_string (desination_name (announced h name)) = Some (take 19 (name_bytes name))"
proof -
  have "0 \<notin> set (take 19 (name_bytes name))" using assms by (auto dest: in_set_takeD)
  moreover obtain n where "20 - length (take 19 (name_bytes name)) = Suc n"
    by (cases "20 - length (take 19 (name_bytes name))") auto
  ultimately show ?thesis unfolding announced_def by (metis c_string_padded ucp_metadata_packet.select_convs(1))
qed

text \<open>The system once the loop of the client and the threads of the server run.\<close>

definition session_system :: "sender \<Rightarrow> udp_net \<Rightarrow> kernel \<Rightarrow> server_state \<Rightarrow> system" where
  "session_system S u k V = \<lparr>cl_sender = S, cl_udp = u, cl_tcp = k, cl_running = True, srv = V, acks_moved = 0\<rparr>"

lemma session_starts:
  assumes "server_start b L cl V" "crep (memory (client_state S)) [] []" "\<not> done_flag (client_state S)"
    and "fresh_handle (sender_handle S) b" "length (send_buffer S) = UDP_PACKET_SIZE" "connected d (ack_server S) k"
    and "incoming k d = []" "sent u = [(remote, meta_wire md)]" "length (desination_name md) = NAME_SIZE"
  shows "system_start b d L cl (session_system S u k V)"
proof -
  have "wrep (memory (client_state S)) (sender_handle S) b win_start"
    using assms(2) reading_fresh [OF assms(4)] by (simp add: wrep_def win_start_def)
  then have "client_inv b {} win_start d S k"
    using assms(1,5,6) win_inv_start [of b] by (simp add: client_inv_def server_start_def)
  moreover have "in_transit (session_system S u k V) \<subseteq> part_datagrams b"
    using assms(8,9) by (auto simp: in_transit_def session_system_def part_datagrams_def)
  ultimately show ?thesis using assms(1,3,7) by (simp add: system_start_def session_system_def)
qed

subsection \<open>A session\<close>

text \<open>A session begins as it should. A client thread with a destination announces its part and waits; the datagram it
  has sent, delivered to the server from any address, makes the server create a file of zeros as long as the part, under
  the first 19 bytes of the name, and connect to that address; the two programs are then in a start state of the
  transfer.\<close>

lemma session_setup_correct:
  assumes "client_host_ok d buf u k" "ctx_handle ctx = Some h" "dst_ip ctx = Some ip" "dst_filename ctx = Some name"
    and "crep s [] []" "fresh_handle h b" "unat (handle_part_size h) = length b" "length b < 2 ^ 32" "0 \<notin> set (name_bytes name)"
    and "server_host_ok f (length b) buffer packet L qs ms v kv" "fopen_wb (take 19 (name_bytes name)) = Some f"
  shows "\<exists>remote S u' k' xs. block_thread_start inet True True buf now ctx \<lparr>memory = s, done_flag = False, created = 0\<rparr> u k
        = Some (Some (ctx\<lparr>start_time := now\<rparr>, remote, S), u', k')
    \<and> u' = u\<lparr>sent := [(remote, xs)]\<rparr> \<and> s_addr remote = inet ip
    \<and> (\<forall>src. \<exists>cl V. server_main fopen_wb True garbage buffer packet handle L qs ms (v\<lparr>inbox := [(src, xs)]\<rparr>) kv = Some (Some (cl, V))
        \<and> ep_addr (client_server cl) = src
        \<and> ready (recv_handle (rcvr V)) (length b) (replicate (length b) 0)
        \<and> system_start b d L cl (session_system S u' k' V))"
proof -
  obtain remote S k' where c: "block_thread_start inet True True buf now ctx \<lparr>memory = s, done_flag = False, created = 0\<rparr> u k
        = Some (Some (ctx\<lparr>start_time := now\<rparr>, remote, S), u\<lparr>sent := [(remote, meta_wire (announced h name))]\<rparr>, k')"
      "client_state S = \<lparr>memory = s, done_flag = False, created = 0\<rparr>" "sender_handle S = h"
      "length (send_buffer S) = UDP_PACKET_SIZE" "connected d (ack_server S) k'" "incoming k' d = []" "s_addr remote = inet ip"
    using block_thread_starts [OF assms(1-4)] by blast
  have md: "length (desination_name (announced h name)) = NAME_SIZE" "unat (part_size (announced h name)) = length b"
    using assms(7) by (simp_all add: announced_def NAME_SIZE_def)
  have "\<exists>cl V. server_main fopen_wb True garbage buffer packet handle L qs ms
        (v\<lparr>inbox := [(src, meta_wire (announced h name))]\<rparr>) kv = Some (Some (cl, V))
      \<and> ep_addr (client_server cl) = src \<and> ready (recv_handle (rcvr V)) (length b) (replicate (length b) 0)
      \<and> system_start b d L cl (session_system S (u\<lparr>sent := [(remote, meta_wire (announced h name))]\<rparr>) k' V)" for src
  proof -
    obtain cl V where V: "server_main fopen_wb True garbage buffer packet handle L qs ms
        (v\<lparr>inbox := [(src, meta_wire (announced h name))]\<rparr>) kv = Some (Some (cl, V))"
        "server_start b L cl V" "ep_addr (client_server cl) = src"
      using server_main_starts [of f "length b" buffer packet L qs ms v kv fopen_wb, OF assms(10,11) refl md(2) assms(8) md(1)
          c_string_announced [OF assms(9)]] by blast
    have "system_start b d L cl (session_system S (u\<lparr>sent := [(remote, meta_wire (announced h name))]\<rparr>) k' V)"
      by (rule session_starts [OF V(2), where md = "announced h name" and remote = remote]) (use c assms(5,6) md(1) in simp_all)
    moreover have "ready (recv_handle (rcvr V)) (length b) (replicate (length b) 0)" using V(2) by (simp add: server_start_def)
    ultimately show ?thesis using V(1,3) by blast
  qed
  with c(1,7) show ?thesis
    by (intro exI [of _ remote] exI [of _ S] exI [of _ "u\<lparr>sent := [(remote, meta_wire (announced h name))]\<rparr>"] exI [of _ k']
        exI [of _ "meta_wire (announced h name)"]) simp
qed

definition announcing_ctx :: thread_ctx where
  "announcing_ctx = blank_ctx\<lparr>ctx_handle := Some ((example_handle [1, 2])\<lparr>handle_part_size := 2\<rparr>),
     dst_ip := Some ''1.2.3.4'', dst_filename := Some ''b''\<rparr>"

definition empty_lists :: client_mem where
  "empty_lists = memory (client_state (cl_sender (example_system [1, 2] 50)))"

lemma empty_lists_ok: "crep empty_lists [] []"
  by (rule exI)+ (auto simp: two_lists_def empty_lists_def example_system_def pending_packet_list_def in_flight_packet_list_def
      dll_def nxts_def prvs_def wf_mem_def)

definition waiting_kernel :: kernel where
  "waiting_kernel = (example_connection [])\<lparr>open_sds := {}, next_sd := 3, backlog := [(5, None)]\<rparr>"

definition raw_queue :: queue_mem where
  "raw_queue = \<lparr>elems = [1 \<mapsto> \<lparr>obj = 0, nxt = 0, prv = 0\<rparr>], members = (\<lambda>_. 0), brk = 2, avail = 20, qitems = Map.empty\<rparr>"

definition raw_memory :: seq_mem where
  "raw_memory = \<lparr>elems = Map.empty, members = (\<lambda>_. 0), brk = 1, avail = 20, items = Map.empty\<rparr>"

lemma session_setup_example:
  "\<exists>ctx' remote S u' k' xs cl V. block_thread_start (\<lambda>_. 16909060) True True (replicate UDP_PACKET_SIZE 0) \<lparr>tv_sec = 9, tv_usec = 0\<rparr>
        announcing_ctx \<lparr>memory = empty_lists, done_flag = False, created = 0\<rparr> example_net waiting_kernel
      = Some (Some (ctx', remote, S), u', k')
    \<and> u' = example_net\<lparr>sent := [(remote, xs)]\<rparr>
    \<and> server_main (\<lambda>name. if name = [98] then Some (example_file []) else None) True 0 (replicate UDP_PACKET_SIZE 0) zero_packet
        zero_handle 1 raw_queue raw_memory (example_net\<lparr>inbox := [(zero_addr, xs)]\<rparr>) example_tcp = Some (Some (cl, V))
    \<and> system_start [1, 2] 5 1 cl (session_system S u' k' V)"
proof -
  let ?h = "(example_handle [1, 2])\<lparr>handle_part_size := 2\<rparr>" and ?buf = "replicate UDP_PACKET_SIZE (0 :: u8)"
    and ?open = "\<lambda>name :: u8 list. if name = [98] then Some (example_file []) else None"
  have host: "client_host_ok 5 ?buf example_net waiting_kernel"
    by (simp add: client_host_ok_def example_net_def waiting_kernel_def example_connection_def FD_SETSIZE_def)
  have ctx: "ctx_handle announcing_ctx = Some ?h" "dst_ip announcing_ctx = Some ''1.2.3.4''" "dst_filename announcing_ctx = Some ''b''"
    by (simp_all add: announcing_ctx_def)
  have name: "name_bytes ''b'' = [98]" by (simp add: name_bytes_def)
  have h: "fresh_handle ?h [1, 2]" "unat (handle_part_size ?h) = length [1 :: u8, 2]" "length [1 :: u8, 2] < 2 ^ 32"
    using example_handle_ok(1) [of "[1, 2]"] by (simp_all add: fresh_handle_def)
  have srv: "server_host_ok (example_file []) (length [1 :: u8, 2]) ?buf zero_packet 1 raw_queue raw_memory example_net example_tcp"
    using wf_zero_packet by (simp add: server_host_ok_def example_net_def example_file_def example_tcp_def can_send_def raw_queue_def
        raw_memory_def wf_mem_def)
  have zero: "0 \<notin> set (name_bytes ''b'')" "?open (take 19 (name_bytes ''b'')) = Some (example_file [])" by (simp_all add: name)
  from session_setup_correct [where inet = "\<lambda>_. 16909060" and now = "\<lparr>tv_sec = 9, tv_usec = 0\<rparr>" and fopen_wb = ?open and b = "[1, 2]" and garbage = 0 and handle = zero_handle, OF host ctx empty_lists_ok h zero(1) srv zero(2)]
  show ?thesis by blast
qed

subsection \<open>What is copied\<close>

text \<open>
  Every run of the system from \<open>Z0\<close>, however TCP cuts the control stream, copies \<open>b\<close> if the client takes nothing for a FIN:
  where its loop has ended the server's file is \<open>b\<close>, and while it runs and has read what has arrived a run can go on to such an end.
\<close>

definition copies :: "ucp_packet \<Rightarrow> sockaddr_in \<Rightarrow> int \<Rightarrow> addr \<Rightarrow> tcp_client \<Rightarrow> u8 list \<Rightarrow> system \<Rightarrow> bool" where
  "copies garbage remote d L cl b Z0 \<longleftrightarrow> (\<forall>Z. (stream_step garbage remote d L cl)\<^sup>*\<^sup>* Z0 Z \<longrightarrow>
      (\<not> cl_running Z \<longrightarrow> \<not> done_flag (client_state (cl_sender Z)) \<longrightarrow> ready (recv_handle (rcvr (srv Z))) (length b) b)
    \<and> (cl_running Z \<longrightarrow> incoming (cl_tcp Z) d = [] \<longrightarrow> send_ok (cl_udp Z) \<longrightarrow> (\<exists>m1. \<forall>n1 \<ge> m1. \<exists>m2. \<forall>n2 \<ge> m2. \<exists>Z'.
        (stream_step garbage remote d L cl)\<^sup>*\<^sup>* (more_memory n1 n2 Z) Z' \<and> \<not> cl_running Z'
        \<and> \<not> done_flag (client_state (cl_sender Z')) \<and> ready (recv_handle (rcvr (srv Z'))) (length b) b)))"

lemma system_start_copies:
  assumes "system_start b d L cl Z0" "packet_count b \<le> 2 ^ 16" "pkt_type garbage \<noteq> UCP_PACKET_TYPE_CTRL"
  shows "copies garbage remote d L cl b Z0"
  unfolding copies_def
proof (intro allI impI conjI)
  fix Z assume "(stream_step garbage remote d L cl)\<^sup>*\<^sup>* Z0 Z"
  note inv = stream_reachable_inv [OF this assms]
  show "\<not> cl_running Z \<Longrightarrow> \<not> done_flag (client_state (cl_sender Z)) \<Longrightarrow> ready (recv_handle (rcvr (srv Z))) (length b) b"
    by (rule stream_inv_stopped(1) [OF inv])
  show "cl_running Z \<Longrightarrow> incoming (cl_tcp Z) d = [] \<Longrightarrow> send_ok (cl_udp Z) \<Longrightarrow> \<exists>m1. \<forall>n1 \<ge> m1. \<exists>m2. \<forall>n2 \<ge> m2. \<exists>Z'.
        (stream_step garbage remote d L cl)\<^sup>*\<^sup>* (more_memory n1 n2 Z) Z' \<and> \<not> cl_running Z'
        \<and> \<not> done_flag (client_state (cl_sender Z')) \<and> ready (recv_handle (rcvr (srv Z'))) (length b) b"
    by (rule stream_recovers [OF inv assms(2,3)])
qed

lemma copies_ends:
  assumes "copies garbage remote d L cl b Z0" "cl_running Z0" "incoming (cl_tcp Z0) d = []" "send_ok (cl_udp Z0)"
  shows "\<exists>n m Z. (stream_step garbage remote d L cl)\<^sup>*\<^sup>* (more_memory n m Z0) Z \<and> \<not> cl_running Z
    \<and> ready (recv_handle (rcvr (srv Z))) (length b) b"
  using assms unfolding copies_def by (meson order_refl rtranclp.rtrancl_refl)

subsection \<open>Property\<close>

text \<open>C3: what a run of the two programs copies. The client's \<open>main\<close> has the file split into ten parts and starts a thread
  for each. The first thread sends one datagram to the destination; from whichever address the server sees it come, the
  server answers to that address. In every run of the system that begins so, however datagrams are lost and TCP cuts the control
  stream, the file of the server is the first part once the client's loop has ended without taking anything for a FIN; and from every
  state of such a run in which the loop runs and has read what has arrived, a run can go on to that end, if
  the socket of the client sends and there is memory. This is for a first part of at most \<open>2 ^ 16\<close> packets, a server's disk that
  takes every write, and an uninitialised local of the callback that holds no control packet. As the other threads have no
  destination (\<open>client_main_correct\<close>), of a file that is longer than its first part the rest is not copied.\<close>

theorem program_copies_first_part:
  assumes "ip \<noteq> []" "name \<noteq> []" "CHR '':'' \<notin> set ip" "CHR '':'' \<notin> set name" "0 \<notin> set (name_bytes name)"
    and "sh (take 254 (''/usr/bin/split -d -n '' @ show_int (int NUM_THREADS) @ '' '' @ src @ '' tmp_'')) dk = Some (0, dk')"
    and "\<forall>i < NUM_THREADS. files dk' (part_path i) = Some (parts ! i) \<and> may_open dk' (part_path i)"
    and "wf_mem s" "2 < brk s" "dom (packets s) \<subseteq> {0<..<brk s}" "length ctxs = NUM_THREADS"
    and "parts ! 0 = b" "packet_count b \<le> 2 ^ 16" "client_host_ok d buf u k" "pkt_type garbage \<noteq> UCP_PACKET_TYPE_CTRL"
    and "server_host_ok f (length b) buffer packet L qs ms v kv" "fopen_wb (take 19 (name_bytes name)) = Some f"
  shows "\<exists>s' ctxs' ctx remote S u' k' xs.
      client_main sh True [prog, src, ip @ CHR '':'' # name] ctxs s dk = Some (Some (s', ctxs'), dk')
    \<and> block_thread_start inet True True buf now (ctxs' ! 0) \<lparr>memory = s', done_flag = False, created = 0\<rparr> u k
        = Some (Some (ctx, remote, S), u', k')
    \<and> u' = u\<lparr>sent := [(remote, xs)]\<rparr> \<and> s_addr remote = inet ip \<and> incoming k' d = []
    \<and> (\<forall>peer. \<exists>cl V. server_main fopen_wb True g buffer packet handle L qs ms (v\<lparr>inbox := [(peer, xs)]\<rparr>) kv = Some (Some (cl, V))
      \<and> ep_addr (client_server cl) = peer
      \<and> copies garbage remote d L cl b (session_system S u' k' V))"
proof -
  have len: "length b < 2 ^ 32"
    using assms(13) by (simp add: packet_count_def UDP_PACKET_DATA_SIZE_val split: if_splits) 
  let ?ctxs = "started_ctxs ctxs ip name parts" and ?h = "part_handle 0 b"
  have N: "0 < NUM_THREADS" by (simp add: NUM_THREADS_def)
  obtain s' where run: "client_main sh True [prog, src, ip @ CHR '':'' # name] ctxs s dk = Some (Some (s', ?ctxs), dk')" "crep s' [] []"
    using client_main_runs [of ip name sh src dk dk' parts s, OF assms(1-4,6-10)] by blast
  have ctx: "ctx_handle (?ctxs ! 0) = Some ?h" "dst_ip (?ctxs ! 0) = Some ip" "dst_filename (?ctxs ! 0) = Some name"
    using started_ctxs_nth [OF assms(11) N, of ip name parts] assms(12) by simp_all
  have h: "fresh_handle ?h b" "unat (handle_part_size ?h) = length b"
    using part_handle_fresh [OF N, of b] of_nat_inverse [where 'a = 32, of "length b", OF refl] len by simp_all
  from session_setup_correct [where inet = inet and now = now and fopen_wb = fopen_wb and garbage = g and handle = handle,
      OF assms(14) ctx run(2) h len assms(5,16,17)]
  obtain remote S u' k' xs where c: "block_thread_start inet True True buf now (?ctxs ! 0) \<lparr>memory = s', done_flag = False, created = 0\<rparr> u k
        = Some (Some ((?ctxs ! 0)\<lparr>start_time := now\<rparr>, remote, S), u', k')" "u' = u\<lparr>sent := [(remote, xs)]\<rparr>" "s_addr remote = inet ip"
      "\<forall>peer. \<exists>cl V. server_main fopen_wb True g buffer packet handle L qs ms (v\<lparr>inbox := [(peer, xs)]\<rparr>) kv = Some (Some (cl, V))
        \<and> ep_addr (client_server cl) = peer \<and> ready (recv_handle (rcvr V)) (length b) (replicate (length b) 0)
        \<and> system_start b d L cl (session_system S u' k' V)" by blast
  from c(4) system_start_copies [of b d L _ "session_system S u' k' _" garbage remote, OF _ assms(13,15)]
  have "\<forall>peer. \<exists>cl V. server_main fopen_wb True g buffer packet handle L qs ms (v\<lparr>inbox := [(peer, xs)]\<rparr>) kv = Some (Some (cl, V))
      \<and> ep_addr (client_server cl) = peer \<and> copies garbage remote d L cl b (session_system S u' k' V)" by meson
  moreover have "incoming k' d = []" using c(4) by (auto simp: system_start_def session_system_def)
  ultimately show ?thesis using run(1) c(1-3)
    by (intro exI [of _ s'] exI [of _ ?ctxs] exI [of _ "(?ctxs ! 0)\<lparr>start_time := now\<rparr>"] exI [of _ remote] exI [of _ S]
        exI [of _ u'] exI [of _ k'] exI [of _ xs] conjI)
qed

theorem program_copies_first_part_witness:
  "\<exists>s' ctxs' dk' ctx remote S u' k' xs cl V Z.
      client_main example_shell True [''ucp'', ''a'', ''1.2.3.4:b''] (replicate 10 blank_ctx) blank_memory example_disk
        = Some (Some (s', ctxs'), dk')
    \<and> block_thread_start (\<lambda>_. 16909060) True True (replicate UDP_PACKET_SIZE 0) \<lparr>tv_sec = 9, tv_usec = 0\<rparr> (ctxs' ! 0)
        \<lparr>memory = s', done_flag = False, created = 0\<rparr> example_net waiting_kernel = Some (Some (ctx, remote, S), u', k')
    \<and> server_main (\<lambda>name. if name = [98] then Some (example_file []) else None) True 0 (replicate UDP_PACKET_SIZE 0) zero_packet
        zero_handle 1 raw_queue raw_memory (example_net\<lparr>inbox := [(zero_addr, xs)]\<rparr>) example_tcp = Some (Some (cl, V))
    \<and> (\<exists>n m. (stream_step zero_packet remote 5 1 cl)\<^sup>*\<^sup>* (more_memory n m (session_system S u' k' V)) Z)
    \<and> \<not> cl_running Z \<and> ready (recv_handle (rcvr (srv Z))) 1 [7]"
proof -
  have N: "NUM_THREADS = 10" by (simp add: NUM_THREADS_def)
  let ?buf = "replicate UDP_PACKET_SIZE (0 :: u8)" and ?open = "\<lambda>name :: u8 list. if name = [98] then Some (example_file []) else None"
    and ?dk = "example_disk\<lparr>files := (\<lambda>_. Some [7])\<rparr>" and ?now = "\<lparr>tv_sec = 9, tv_usec = 0\<rparr>"
  have split: "example_shell c example_disk = Some (0, ?dk)" for c by (simp add: example_shell_def)
  have parts: "\<forall>i < NUM_THREADS. files ?dk (part_path i) = Some (replicate 10 [7] ! i) \<and> may_open ?dk (part_path i)"
    by (simp add: N example_disk_def)
  have mem: "wf_mem blank_memory" "2 < brk blank_memory" "dom (packets blank_memory) \<subseteq> {0<..<brk blank_memory}"
    by (simp_all add: blank_memory_def wf_mem_def)
  have ctxs: "length (replicate 10 blank_ctx) = NUM_THREADS" by (simp add: N)
  have b: "replicate 10 [7] ! 0 = [7 :: u8]" "packet_count [7 :: u8] \<le> 2 ^ 16"
    by (simp_all add: packet_count_def UDP_PACKET_DATA_SIZE_val)
  have g: "pkt_type zero_packet \<noteq> UCP_PACKET_TYPE_CTRL" by (simp add: zero_packet_def ucp_packet_init_def packet_enums)
  have name: "name_bytes ''b'' = [98]" by (simp add: name_bytes_def)
  have args: "''1.2.3.4'' \<noteq> []" "''b'' \<noteq> []" "CHR '':'' \<notin> set ''1.2.3.4''" "CHR '':'' \<notin> set ''b''" "0 \<notin> set (name_bytes ''b'')"
    by (simp_all add: name)
  have host: "client_host_ok 5 ?buf example_net waiting_kernel"
    by (simp add: client_host_ok_def example_net_def waiting_kernel_def example_connection_def FD_SETSIZE_def)
  have srv: "server_host_ok (example_file []) (length [7 :: u8]) ?buf zero_packet 1 raw_queue raw_memory example_net example_tcp"
    using wf_zero_packet by (simp add: server_host_ok_def example_net_def example_file_def example_tcp_def can_send_def raw_queue_def
        raw_memory_def wf_mem_def)
  have fopen: "?open (take 19 (name_bytes ''b'')) = Some (example_file [])" by (simp add: name)
  have arg: "''1.2.3.4'' @ CHR '':'' # ''b'' = ''1.2.3.4:b''" by simp
  from program_copies_first_part [of "''1.2.3.4''" "''b''" example_shell "''a''" example_disk ?dk "replicate 10 [7]" blank_memory
      "replicate 10 blank_ctx" "[7]" 5 ?buf example_net waiting_kernel zero_packet "example_file []" ?buf zero_packet 1 raw_queue raw_memory
      example_net example_tcp ?open "''ucp''" "\<lambda>_. 16909060" ?now 0 zero_handle,
      OF args split parts mem ctxs b host g srv fopen, unfolded arg]
  obtain s' ctxs' ctx remote S u' k' xs where c: "client_main example_shell True [''ucp'', ''a'', ''1.2.3.4:b''] (replicate 10 blank_ctx)
        blank_memory example_disk = Some (Some (s', ctxs'), ?dk)"
      "block_thread_start (\<lambda>_. 16909060) True True ?buf ?now (ctxs' ! 0) \<lparr>memory = s', done_flag = False, created = 0\<rparr> example_net
        waiting_kernel = Some (Some (ctx, remote, S), u', k')" "u' = example_net\<lparr>sent := [(remote, xs)]\<rparr>" "incoming k' 5 = []"
      "\<And>peer. \<exists>cl V. server_main ?open True 0 ?buf zero_packet zero_handle 1 raw_queue raw_memory
        (example_net\<lparr>inbox := [(peer, xs)]\<rparr>) example_tcp = Some (Some (cl, V))
      \<and> copies zero_packet remote 5 1 cl [7] (session_system S u' k' V)" by metis
  have "cl_running (session_system S u' k' V)" "incoming (cl_tcp (session_system S u' k' V)) 5 = []"
      "send_ok (cl_udp (session_system S u' k' V))" for V
    by (simp_all add: session_system_def c(3,4) example_net_def)
  with c(5) [of zero_addr] copies_ends [of zero_packet remote 5 1 _ "[7]" "session_system S u' k' _"]
  have "\<exists>cl V Z n m. server_main ?open True 0 ?buf zero_packet zero_handle 1 raw_queue raw_memory
        (example_net\<lparr>inbox := [(zero_addr, xs)]\<rparr>) example_tcp = Some (Some (cl, V))
      \<and> (stream_step zero_packet remote 5 1 cl)\<^sup>*\<^sup>* (more_memory n m (session_system S u' k' V)) Z
      \<and> \<not> cl_running Z \<and> ready (recv_handle (rcvr (srv Z))) (length [7 :: u8]) [7]" by meson
  moreover have "length [7 :: u8] = 1" by simp
  ultimately show ?thesis using c(1,2) by metis
qed

end
