(* ===== verification/Client_Threads.thy ===== *)
theory Client_Threads
  imports Client_Loop
begin

text \<open>
  The threads of the client. Each has a part, a buffer and a connection of its own; the two packet lists, \<open>done\<close> and
  \<open>packet_count\<close> are shared, without a lock. The steps here are whole iterations of the loop of \<open>block_thread\<close>: what the
  sharing does even when no two threads are inside an iteration at the same time.
\<close>

subsection \<open>The process\<close>

record thread_state =
  th_remote :: sockaddr_in
  th_live :: bool
  th_locals :: sender

text \<open>\<open>segments\<close> is the history of the segments that the threads have read from their connections.\<close>

record process =
  threads :: "thread_state list"
  shared :: client
  pr_udp :: udp_net
  pr_tcp :: kernel
  segments :: "u8 list list"

text \<open>What an iteration has read from the connection \<open>d\<close>, when it took the kernel from \<open>k\<close> to \<open>k'\<close>.\<close>

definition segments_read :: "kernel \<Rightarrow> kernel \<Rightarrow> int \<Rightarrow> u8 list list" where
  "segments_read k k' d = (if incoming k' d = incoming k d then [] else [take 1024 (incoming k d)])"

text \<open>\<open>ds\<close> are the descriptors of the threads' connections. Any bytes may arrive on one, any number of them at a time.\<close>

inductive process_step :: "ucp_packet \<Rightarrow> int list \<Rightarrow> process \<Rightarrow> process \<Rightarrow> bool" for garbage ds where
  iterate: "t < length (threads P) \<Longrightarrow> th_live (threads P ! t) \<Longrightarrow> 2 < avail (memory (shared P)) \<Longrightarrow>
    block_iteration garbage (th_remote (threads P ! t)) ((th_locals (threads P ! t))\<lparr>client_state := shared P\<rparr>)
      (pr_udp P) (pr_tcp P) = Some (go, S, u, k) \<Longrightarrow>
    process_step garbage ds P (P\<lparr>threads := (threads P)[t := (threads P ! t)\<lparr>th_live := go, th_locals := S\<rparr>],
      shared := client_state S, pr_udp := u, pr_tcp := k, segments := segments P @ segments_read (pr_tcp P) k (ds ! t)\<rparr>)"
| replies: "t < length (threads P) \<Longrightarrow> process_step garbage ds P (P\<lparr>pr_tcp := (pr_tcp P)\<lparr>incoming :=
    (incoming (pr_tcp P))(ds ! t := incoming (pr_tcp P) (ds ! t) @ xs)\<rparr>\<rparr>)"

definition process_start :: "u8 list list \<Rightarrow> int list \<Rightarrow> process \<Rightarrow> bool" where
  "process_start bs ds P \<longleftrightarrow> length (threads P) = length bs \<and> length ds = length bs \<and> distinct ds
     \<and> crep (memory (shared P)) [] [] \<and> sent (pr_udp P) = [] \<and> segments P = []
     \<and> (\<forall>t < length bs. length (bs ! t) < 2 ^ 32 \<and> fresh_handle (sender_handle (th_locals (threads P ! t))) (bs ! t)
         \<and> length (send_buffer (th_locals (threads P ! t))) = UDP_PACKET_SIZE
         \<and> connected (ds ! t) (ack_server (th_locals (threads P ! t))) (pr_tcp P) \<and> incoming (pr_tcp P) (ds ! t) = [])"

subsection \<open>The shared window\<close>

text \<open>
  The packets read by all threads, \<open>rd t\<close> of them by thread \<open>t\<close>, and those of \<open>A\<close> that an ACK has removed: the two lists
  hold the others, each once.
\<close>

definition part_packet :: "u8 list list \<Rightarrow> nat \<times> nat \<Rightarrow> ucp_packet" where
  "part_packet bs x = file_packet (bs ! fst x) (snd x)"

definition all_read :: "u8 list list \<Rightarrow> (nat \<Rightarrow> nat) \<Rightarrow> (nat \<times> nat) set" where
  "all_read bs rd = (SIGMA t : {..<length bs}. {..<rd t})"

definition shared_inv :: "u8 list list \<Rightarrow> (nat \<times> nat) set \<Rightarrow> (nat \<Rightarrow> nat) \<Rightarrow> ucp_packet list \<Rightarrow> ucp_packet list \<Rightarrow> bool" where
  "shared_inv bs A rd pend infl \<longleftrightarrow> (\<forall>t < length bs. rd t \<le> packet_count (bs ! t)) \<and> A \<subseteq> all_read bs rd
     \<and> held (part_packet bs) (all_read bs rd - A) (pend @ infl)"

lemma shared_inv_start: "shared_inv bs {} (\<lambda>_. 0) [] []"
  by (simp add: shared_inv_def all_read_def held_empty)

lemma finite_all_read [simp]: "finite (all_read bs rd)"
  by (simp add: all_read_def)

lemma all_read_Suc: "t < length bs \<Longrightarrow> all_read bs (rd(t := Suc (rd t))) = insert (t, rd t) (all_read bs rd)"
  by (auto simp: all_read_def less_Suc_eq split: if_splits)

lemma shared_sendable: "shared_inv bs A rd pend infl \<Longrightarrow> \<forall>p \<in> set (pend @ infl). sendable p"
  unfolding shared_inv_def by (metis (no_types, lifting) held_set imageE part_packet_def sendable_file_packet)

text \<open>What a thread takes to send comes from its own part or from the lists, and goes back to the list in flight.\<close>

lemma shared_next:
  assumes v: "shared_inv bs A rd pend infl" and t: "t < length bs"
    and n: "win_next (bs ! t) \<lparr>w_read = rd t, w_pend = pend, w_infl = infl\<rparr> = (Some p, w1)"
  shows "shared_inv bs A (rd(t := w_read w1)) (w_pend w1) (w_infl w1 @ [p])
    \<and> (\<exists>x \<in> all_read bs (rd(t := w_read w1)). p = part_packet bs x)"
proof (cases "pend = [] \<and> rd t < packet_count (bs ! t)")
  case True
  then have w1: "p = part_packet bs (t, rd t)" "w_read w1 = Suc (rd t)" "w_pend w1 = []" "w_infl w1 = infl"
    using n by (auto simp: win_next_def part_packet_def)
  have new: "(t, rd t) \<notin> all_read bs rd" "(t, rd t) \<notin> A" using v by (auto simp: all_read_def shared_inv_def)
  have "insert (t, rd t) (all_read bs rd) - A = insert (t, rd t) (all_read bs rd - A)" using new by blast
  moreover have "held (part_packet bs) (insert (t, rd t) (all_read bs rd - A)) (infl @ [p])"
    by (rule held_insert [of _ _ "pend @ infl"]) (use v new w1(1) True in \<open>simp_all add: shared_inv_def\<close>)
  ultimately have "held (part_packet bs) (insert (t, rd t) (all_read bs rd) - A) (infl @ [p])" by simp
  then show ?thesis using v w1 True t all_read_Suc [OF t, of rd] by (auto simp: shared_inv_def)
next
  case False
  then have m: "mset (pend @ infl) = mset (w_pend w1 @ w_infl w1 @ [p])" "w_read w1 = rd t"
    using n by (auto simp: win_next_def split: list.splits)
  have h: "held (part_packet bs) (all_read bs rd - A) (w_pend w1 @ w_infl w1 @ [p])"
    by (rule held_perm [of _ _ "pend @ infl"]) (use v m(1) in \<open>simp_all add: shared_inv_def\<close>)
  have "p \<in> part_packet bs ` (all_read bs rd - A)" using held_set [OF h] by auto
  then show ?thesis using h v m(2) by (auto simp: shared_inv_def)
qed

text \<open>An ACK takes away one packet at most, of some part, that has its number.\<close>

lemma shared_ctrl:
  assumes v: "shared_inv bs A rd pend infl" and w: "w = \<lparr>w_read = r, w_pend = pend, w_infl = infl\<rparr>"
  shows "\<exists>A'. shared_inv bs A' rd (w_pend (win_ctrl m w)) (w_infl (win_ctrl m w)) \<and> A \<subseteq> A'
    \<and> (\<forall>x \<in> A' - A. m = ctrl UCP_FLAG_ACK (of_nat (snd x)))"
proof (cases "ctrl_flag m = UCP_FLAG_ACK \<and> split_first (ctrl_seq_no m) infl \<noteq> None")
  case True
  then obtain us y vs where sp: "split_first (ctrl_seq_no m) infl = Some (us, y, vs)" by auto
  then have i: "infl = us @ y # vs" "seq_of y = ctrl_seq_no m" by (simp_all add: split_first_Some)
  have w': "w_pend (win_ctrl m w) = pend" "w_infl (win_ctrl m w) = us @ vs"
    using True sp by (simp_all add: win_ctrl_def w packet_enums)
  have "held (part_packet bs) (all_read bs rd - A) (pend @ infl)" using v by (simp add: shared_inv_def)
  from held_remove [OF this, of y "pend @ us @ vs"] i(1) obtain x where
    x: "x \<in> all_read bs rd - A" "y = part_packet bs x" "held (part_packet bs) (all_read bs rd - A - {x}) (pend @ us @ vs)"
    by auto
  have "all_read bs rd - A - {x} = all_read bs rd - insert x A" by blast
  then have "shared_inv bs (insert x A) rd pend (us @ vs)" using v x by (simp add: shared_inv_def)
  moreover have "m = ctrl UCP_FLAG_ACK (of_nat (snd x))" using True i(2) x(2) by (cases m) (simp add: part_packet_def)
  ultimately show ?thesis unfolding w' by (intro exI [of _ "insert x A"]) auto
next
  case False
  then have same: "mset (w_pend (win_ctrl m w) @ w_infl (win_ctrl m w)) = mset (pend @ infl)"
    by (auto simp: win_ctrl_def w split_first_Some split: option.splits)
  then have "shared_inv bs A rd (w_pend (win_ctrl m w)) (w_infl (win_ctrl m w))"
    using v held_perm [OF _ same] unfolding shared_inv_def by blast
  then show ?thesis by blast
qed

lemma shared_iterate:
  assumes v: "shared_inv bs A rd pend infl" and t: "t < length bs"
    and it: "win_iterate (bs ! t) ms \<lparr>w_read = rd t, w_pend = pend, w_infl = infl\<rparr> = Some (p, w')"
  shows "\<exists>A'. shared_inv bs A' (rd(t := w_read w')) (w_pend w') (w_infl w') \<and> A \<subseteq> A'
    \<and> (\<forall>x \<in> A' - A. ctrl UCP_FLAG_ACK (of_nat (snd x)) \<in> set ms)
    \<and> (\<exists>x \<in> all_read bs (rd(t := w_read w')). p = part_packet bs x)"
proof -
  obtain w1 where w1: "win_next (bs ! t) \<lparr>w_read = rd t, w_pend = pend, w_infl = infl\<rparr> = (Some p, w1)"
      "w' = win_acks ms (win_sent p w1)"
    using it by (auto simp: win_iterate_acks split: prod.splits option.splits)
  note s = shared_next [OF v t w1(1)]
  have ws: "win_sent p w1 = \<lparr>w_read = w_read w1, w_pend = w_pend w1, w_infl = w_infl w1 @ [p]\<rparr>" by (simp add: win_sent_def)
  show ?thesis
  proof (cases ms)
    case Nil
    then have "w' = win_sent p w1" using w1(2) by (simp add: win_acks_def)
    then show ?thesis using s by (intro exI [of _ A]) (simp add: ws)
  next
    case (Cons m ms')
    then have w': "w' = win_ctrl m (win_sent p w1)" "w_read w' = w_read w1"
      using w1(2) by (auto simp: win_acks_def win_ctrl_def win_sent_def split: option.splits)
    obtain A' where A': "shared_inv bs A' (rd(t := w_read w1)) (w_pend w') (w_infl w')" "A \<subseteq> A'"
        "\<forall>x \<in> A' - A. m = ctrl UCP_FLAG_ACK (of_nat (snd x))"
      using shared_ctrl [OF conjunct1 [OF s] ws, of m] unfolding w'(1) by blast
    then show ?thesis using s Cons w'(2) by (intro exI [of _ A']) auto
  qed
qed

subsection \<open>The process\<close>

definition thread_ok :: "u8 list \<Rightarrow> nat \<Rightarrow> int \<Rightarrow> kernel \<Rightarrow> sender \<Rightarrow> bool" where
  "thread_ok b j d k S \<longleftrightarrow> reading (sender_handle S) b j \<and> length (send_buffer S) = UDP_PACKET_SIZE \<and> connected d (ack_server S) k"

text \<open>A segment that begins with the bytes of an ACK of packet \<open>i\<close>.\<close>

definition acked_in :: "u8 list list \<Rightarrow> nat \<Rightarrow> bool" where
  "acked_in sgs i \<longleftrightarrow> (\<exists>xs \<in> set sgs. take 6 xs = ctrl_wire (ctrl UCP_FLAG_ACK (of_nat i)))"

lemma acked_in_append: "acked_in sgs i \<Longrightarrow> acked_in (sgs @ sgs') i" "acked_in sgs' i \<Longrightarrow> acked_in (sgs @ sgs') i"
  by (auto simp: acked_in_def)

lemma heard_in_segment:
  assumes "ctrl UCP_FLAG_ACK (of_nat i) \<in> set (heard (take 1024 (incoming k d)))"
    and "incoming k' d = drop 1024 (incoming k d)"
  shows "acked_in (segments_read k k' d) i"
proof -
  let ?xs = "take 1024 (incoming k d)" and ?m = "ctrl UCP_FLAG_ACK (of_nat i)"
  have h: "heard ?xs = [?m]" using assms(1) heard_singleton by (cases "heard ?xs") fastforce+
  then have w: "take 6 ?xs = ctrl_wire ?m" using heard_wire [of ?xs ?m "[]"] by simp
  have "incoming k d \<noteq> []" using h by (auto simp: heard_def)
  then have "length (incoming k' d) < length (incoming k d)" using assms(2) by (cases "incoming k d") simp_all
  then have "segments_read k k' d = [?xs]" by (auto simp: segments_read_def)
  then show ?thesis using w by (simp add: acked_in_def)
qed

text \<open>Whatever was sent, by any thread, to any address, is a packet that some thread has read.\<close>

definition from_parts :: "u8 list list \<Rightarrow> (nat \<Rightarrow> nat) \<Rightarrow> udp_net \<Rightarrow> bool" where
  "from_parts bs rd u \<longleftrightarrow> snd ` set (sent u) \<subseteq> (\<lambda>x. data_wire (data_packet (part_packet bs x))) ` all_read bs rd"

lemma from_parts_mono: "from_parts bs rd u \<Longrightarrow> all_read bs rd \<subseteq> all_read bs rd' \<Longrightarrow> from_parts bs rd' u"
  unfolding from_parts_def by (meson image_mono order_trans)

lemma from_parts_sent:
  "from_parts bs rd u \<Longrightarrow> x \<in> all_read bs rd \<Longrightarrow> from_parts bs rd (udp_sent a (data_wire (data_packet (part_packet bs x))) u)"
  by (auto simp: from_parts_def udp_sent_def)

text \<open>The invariant; the first part has its witnesses named.\<close>

definition window_inv ::
    "u8 list list \<Rightarrow> int list \<Rightarrow> (nat \<times> nat) set \<Rightarrow> (nat \<Rightarrow> nat) \<Rightarrow> ucp_packet list \<Rightarrow> ucp_packet list \<Rightarrow> process \<Rightarrow> bool" where
  "window_inv bs ds A rd pend infl P \<longleftrightarrow> shared_inv bs A rd pend infl \<and> crep (memory (shared P)) pend infl
     \<and> (\<forall>x \<in> A. acked_in (segments P) (snd x))
     \<and> (\<forall>t < length bs. th_live (threads P ! t) \<longrightarrow>
         thread_ok (bs ! t) (rd t) (ds ! t) (pr_tcp P) (th_locals (threads P ! t)))
     \<and> from_parts bs rd (pr_udp P)"

definition process_inv :: "u8 list list \<Rightarrow> int list \<Rightarrow> process \<Rightarrow> bool" where
  "process_inv bs ds P \<longleftrightarrow> length (threads P) = length bs \<and> length ds = length bs \<and> distinct ds
     \<and> (\<forall>t < length bs. length (bs ! t) < 2 ^ 32) \<and> (\<exists>A rd pend infl. window_inv bs ds A rd pend infl P)"

lemma thread_ok_start:
  "fresh_handle (sender_handle S) b \<Longrightarrow> length (send_buffer S) = UDP_PACKET_SIZE \<Longrightarrow> connected d (ack_server S) k \<Longrightarrow>
    thread_ok b 0 d k S"
  by (simp add: thread_ok_def reading_fresh)

lemma process_start_inv:
  assumes "process_start bs ds P"
  shows "process_inv bs ds P"
proof -
  note s = assms [unfolded process_start_def]
  have "\<forall>t < length bs. th_live (threads P ! t) \<longrightarrow>
      thread_ok (bs ! t) 0 (ds ! t) (pr_tcp P) (th_locals (threads P ! t))"
    using s thread_ok_start by simp
  moreover have "two_lists (memory (shared P)) pending_packet_list [] [] in_flight_packet_list [] []"
    using s by (auto simp: two_lists_def)
  ultimately show ?thesis unfolding process_inv_def window_inv_def from_parts_def using s shared_inv_start
    by (intro conjI exI [of _ "{}"] exI [of _ "\<lambda>_. 0"] exI [of _ "[]"]) simp_all
qed

text \<open>A thread does not notice what arrives and what is read.\<close>

lemma thread_ok_incoming: "thread_ok b j d (k\<lparr>incoming := f\<rparr>) S = thread_ok b j d k S"
  by (simp add: thread_ok_def connected_incoming)

lemma thread_iterates:
  assumes v: "shared_inv bs A rd pend infl" and t: "t < length bs" and len: "length (bs ! t) < 2 ^ 32"
    and c: "crep (memory c) pend infl" "2 < avail (memory c)" and g: "pkt_type garbage \<noteq> UCP_PACKET_TYPE_CTRL"
    and ok: "thread_ok (bs ! t) (rd t) d k S"
    and it: "block_iteration garbage remote (S\<lparr>client_state := c\<rparr>) u k = Some (go, S', u', k')"
  shows "\<exists>A' rd' pend' infl'. shared_inv bs A' rd' pend' infl' \<and> crep (memory (client_state S')) pend' infl'
    \<and> A \<subseteq> A' \<and> (\<forall>x \<in> A' - A. acked_in (segments_read k k' d) (snd x))
    \<and> (\<forall>s. s \<noteq> t \<longrightarrow> rd' s = rd s) \<and> all_read bs rd \<subseteq> all_read bs rd'
    \<and> (\<exists>f. k' = k\<lparr>incoming := f\<rparr>) \<and> (go \<longrightarrow> thread_ok (bs ! t) (rd' t) d k' S')
    \<and> (u' = u \<or> (\<exists>x \<in> all_read bs rd'. u' = udp_sent remote (data_wire (data_packet (part_packet bs x))) u))"
proof -
  let ?w = "\<lparr>w_read = rd t, w_pend = pend, w_infl = infl\<rparr>" and ?S = "S\<lparr>client_state := c\<rparr>"
    and ?ms = "heard (take 1024 (incoming k d))" and ?k = "k\<lparr>incoming := (incoming k)(d := drop 1024 (incoming k d))\<rparr>"
  have w: "wrep (memory (client_state ?S)) (sender_handle ?S) (bs ! t) ?w"
    using c(1) ok by (simp add: wrep_def thread_ok_def)
  have s: "2 < avail (memory (client_state ?S))" "length (send_buffer ?S) = UDP_PACKET_SIZE" "connected d (ack_server ?S) k"
      "connected d (ack_server ?S) ?k" "\<forall>p \<in> set (w_pend ?w @ w_infl ?w). sendable p"
    using c(2) ok shared_sendable [OF v] by (simp_all add: thread_ok_def connected_incoming)
  note r = block_iteration_hears [OF w len s(1,2) tick_hears [OF s(3) g] s(4,5), of remote u]
  show ?thesis
  proof (cases "win_iterate (bs ! t) ?ms ?w")
    case None
    then have "go = False" "u' = u" "k' = k" "wrep (memory (client_state S')) (sender_handle S') (bs ! t) ?w" using r it by auto
    then show ?thesis using v
      by (intro exI [of _ A] exI [of _ rd] exI [of _ pend] exI [of _ infl] conjI exI [of _ "incoming k"]) (auto simp: wrep_def)
  next
    case (Some x)
    obtain p w' where x: "x = (p, w')" by (cases x)
    have i: "wrep (memory (client_state S')) (sender_handle S') (bs ! t) w'" "length (send_buffer S') = UDP_PACKET_SIZE"
        "connected d (ack_server S') ?k" "k' = ?k" "u' = udp_sent remote (data_wire (data_packet p)) u"
      using r it Some x by auto
    obtain A' where A': "shared_inv bs A' (rd(t := w_read w')) (w_pend w') (w_infl w')" "A \<subseteq> A'"
        "\<forall>x \<in> A' - A. ctrl UCP_FLAG_ACK (of_nat (snd x)) \<in> set ?ms" "\<exists>x \<in> all_read bs (rd(t := w_read w')). p = part_packet bs x"
      using shared_iterate [OF v t, of ?ms p w'] Some x by blast
    have ac: "\<forall>x \<in> A' - A. acked_in (segments_read k k' d) (snd x)" using A'(3) heard_in_segment i(4) by fastforce
    have "rd t \<le> w_read w'" using Some x
      by (auto simp: win_iterate_def win_next_def win_sent_def win_ctrl_def split: prod.splits option.splits list.splits if_splits)
    then have mono: "all_read bs rd \<subseteq> all_read bs (rd(t := w_read w'))" by (auto simp: all_read_def split: if_splits)
    have "thread_ok (bs ! t) (w_read w') d k' S'" using i(1-4) by (simp add: thread_ok_def wrep_def)
    moreover have "crep (memory (client_state S')) (w_pend w') (w_infl w')" using i(1) by (simp add: wrep_def)
    ultimately show ?thesis using A'(1,2,4) ac mono i(4,5)
      by (intro exI [of _ A'] exI [of _ "rd(t := w_read w')"] exI [of _ "w_pend w'"] exI [of _ "w_infl w'"]) auto
  qed
qed

lemma window_inv_iterate:
  assumes v: "window_inv bs ds A rd pend infl P" and t: "t < length bs" and len: "length (threads P) = length bs"
      "\<forall>t < length bs. length (bs ! t) < 2 ^ 32" and g: "pkt_type garbage \<noteq> UCP_PACKET_TYPE_CTRL"
    and st: "th_live (threads P ! t)" "2 < avail (memory (shared P))" "block_iteration garbage (th_remote (threads P ! t))
      ((th_locals (threads P ! t))\<lparr>client_state := shared P\<rparr>) (pr_udp P) (pr_tcp P) = Some (go, S, u, k)"
    and P': "P' = P\<lparr>threads := (threads P)[t := (threads P ! t)\<lparr>th_live := go, th_locals := S\<rparr>],
      shared := client_state S, pr_udp := u, pr_tcp := k, segments := segments P @ segments_read (pr_tcp P) k (ds ! t)\<rparr>"
  shows "\<exists>A rd pend infl. window_inv bs ds A rd pend infl P'"
proof -
  note w = v [unfolded window_inv_def]
  have sh: "shared_inv bs A rd pend infl" "crep (memory (shared P)) pend infl" "length (bs ! t) < 2 ^ 32"
      "thread_ok (bs ! t) (rd t) (ds ! t) (pr_tcp P) (th_locals (threads P ! t))"
    using w len(2) t st(1) by simp_all
  obtain A' rd' pend' infl' f where r: "shared_inv bs A' rd' pend' infl'" "crep (memory (client_state S)) pend' infl'"
      "A \<subseteq> A'" "\<forall>x \<in> A' - A. acked_in (segments_read (pr_tcp P) k (ds ! t)) (snd x)"
      "\<forall>s. s \<noteq> t \<longrightarrow> rd' s = rd s" "all_read bs rd \<subseteq> all_read bs rd'" "k = (pr_tcp P)\<lparr>incoming := f\<rparr>"
      "go \<longrightarrow> thread_ok (bs ! t) (rd' t) (ds ! t) k S"
      "u = pr_udp P \<or> (\<exists>x \<in> all_read bs rd'. u = udp_sent (th_remote (threads P ! t)) (data_wire (data_packet (part_packet bs x))) (pr_udp P))"
    using thread_iterates [OF sh(1) t sh(3,2) st(2) g sh(4) st(3)] by blast
  have "thread_ok (bs ! s) (rd' s) (ds ! s) (pr_tcp P') (th_locals (threads P' ! s))"
    if s: "s < length bs" "th_live (threads P' ! s)" for s
    using w r(5,7,8) s t len(1) by (cases "s = t") (auto simp: P' thread_ok_incoming)
  moreover have "from_parts bs rd (pr_udp P)" using w by simp
  then have "from_parts bs rd' (pr_udp P')" using from_parts_mono [OF _ r(6)] from_parts_sent r(9) unfolding P' by auto
  moreover have "\<forall>x \<in> A'. acked_in (segments P') (snd x)" using w r(4) acked_in_append by (fastforce simp: P')
  ultimately have "window_inv bs ds A' rd' pend' infl' P'" using r(1,2) unfolding window_inv_def by (simp add: P')
  then show ?thesis by blast
qed

lemma window_inv_replies:
  "window_inv bs ds A rd pend infl P \<Longrightarrow> window_inv bs ds A rd pend infl (P\<lparr>pr_tcp := (pr_tcp P)\<lparr>incoming := f\<rparr>\<rparr>)"
  by (simp add: window_inv_def thread_ok_incoming)

lemma process_step_inv:
  assumes "process_step garbage ds P P'" "process_inv bs ds P" "pkt_type garbage \<noteq> UCP_PACKET_TYPE_CTRL"
  shows "process_inv bs ds P'"
proof -
  have len: "length (threads P) = length bs" "length ds = length bs" "distinct ds" "\<forall>t < length bs. length (bs ! t) < 2 ^ 32"
    using assms(2) by (simp_all add: process_inv_def)
  obtain A rd pend infl where v: "window_inv bs ds A rd pend infl P" using assms(2) unfolding process_inv_def by blast
  from assms(1) have "length (threads P') = length (threads P) \<and> (\<exists>A rd pend infl. window_inv bs ds A rd pend infl P')"
  proof (cases rule: process_step.cases)
    case (iterate t go S u k)
    then show ?thesis using window_inv_iterate [OF v _ len(1,4) assms(3) iterate(3-5,1)] len(1) by simp
  next
    case (replies t xs)
    then show ?thesis using window_inv_replies [OF v] unfolding replies(1) by (intro conjI exI [of _ A] exI [of _ rd] exI [of _ pend] exI [of _ infl]) simp_all
  qed
  then show ?thesis using len unfolding process_inv_def by simp
qed

lemma process_run_inv:
  "(process_step garbage ds)\<^sup>*\<^sup>* P0 P \<Longrightarrow> process_start bs ds P0 \<Longrightarrow> pkt_type garbage \<noteq> UCP_PACKET_TYPE_CTRL \<Longrightarrow> process_inv bs ds P"
  by (induction rule: rtranclp_induct) (auto intro: process_start_inv process_step_inv)

lemma thread_returns:
  assumes v: "process_inv bs ds P" and t: "t < length bs" and live: "th_live (threads P ! t)" and a: "2 < avail (memory (shared P))"
    and g: "pkt_type garbage \<noteq> UCP_PACKET_TYPE_CTRL"
  shows "\<exists>r. block_iteration garbage (th_remote (threads P ! t)) ((th_locals (threads P ! t))\<lparr>client_state := shared P\<rparr>)
    (pr_udp P) (pr_tcp P) = Some r"
proof -
  let ?S = "(th_locals (threads P ! t))\<lparr>client_state := shared P\<rparr>" and ?k = "(pr_tcp P)\<lparr>incoming := (incoming (pr_tcp P))
    (ds ! t := drop 1024 (incoming (pr_tcp P) (ds ! t)))\<rparr>" and ?ms = "heard (take 1024 (incoming (pr_tcp P) (ds ! t)))"
  obtain A rd pend infl where i: "shared_inv bs A rd pend infl" "crep (memory (shared P)) pend infl"
      "thread_ok (bs ! t) (rd t) (ds ! t) (pr_tcp P) (th_locals (threads P ! t))" "length (bs ! t) < 2 ^ 32"
    using v t live unfolding process_inv_def window_inv_def by blast
  let ?w = "\<lparr>w_read = rd t, w_pend = pend, w_infl = infl\<rparr>"
  have w: "wrep (memory (client_state ?S)) (sender_handle ?S) (bs ! t) ?w" using i(2,3) by (simp add: wrep_def thread_ok_def)
  have s: "2 < avail (memory (client_state ?S))" "length (send_buffer ?S) = UDP_PACKET_SIZE"
      "connected (ds ! t) (ack_server ?S) (pr_tcp P)" "connected (ds ! t) (ack_server ?S) ?k"
      "\<forall>p \<in> set (w_pend ?w @ w_infl ?w). sendable p"
    using a i(3) shared_sendable [OF i(1)] by (simp_all add: thread_ok_def connected_incoming)
  show ?thesis
    using block_iteration_hears [OF w i(4) s(1,2) tick_hears [OF s(3) g] s(4,5), of "th_remote (threads P ! t)" "pr_udp P"]
    by (cases "win_iterate (bs ! t) ?ms ?w") auto
qed

subsection \<open>Runs without a reply\<close>

text \<open>Every thread is in its loop and has nothing to read; \<open>n\<close> free objects are left.\<close>

definition silent :: "u8 list list \<Rightarrow> int list \<Rightarrow> (nat \<Rightarrow> nat) \<Rightarrow> ucp_packet list \<Rightarrow> ucp_packet list \<Rightarrow> nat \<Rightarrow> process \<Rightarrow> bool" where
  "silent bs ds rd pend infl n P \<longleftrightarrow> length (threads P) = length bs \<and> length ds = length bs \<and> distinct ds
     \<and> (\<forall>t < length bs. length (bs ! t) < 2 ^ 32) \<and> crep (memory (shared P)) pend infl \<and> (\<forall>p \<in> set (pend @ infl). sendable p)
     \<and> n \<le> avail (memory (shared P)) \<and> \<not> done_flag (shared P) \<and> send_ok (pr_udp P)
     \<and> (\<forall>t < length bs. th_live (threads P ! t) \<and> incoming (pr_tcp P) (ds ! t) = []
         \<and> thread_ok (bs ! t) (rd t) (ds ! t) (pr_tcp P) (th_locals (threads P ! t)))"

lemma silent_iterates:
  assumes s: "silent bs ds rd pend infl (n + 3) P" and t: "t < length bs"
    and it: "win_iterate (bs ! t) [] \<lparr>w_read = rd t, w_pend = pend, w_infl = infl\<rparr> = Some (p, w')"
  shows "\<exists>P'. process_step garbage ds P P' \<and> silent bs ds (rd(t := w_read w')) (w_pend w') (w_infl w') n P'
    \<and> sent (pr_udp P') = sent (pr_udp P) @ [(th_remote (threads P ! t), data_wire (data_packet p))]
    \<and> (\<forall>i < length bs. th_remote (threads P' ! i) = th_remote (threads P ! i))"
proof -
  note s' = s [unfolded silent_def]
  let ?T = "threads P ! t" and ?w = "\<lparr>w_read = rd t, w_pend = pend, w_infl = infl\<rparr>"
  let ?S = "(th_locals ?T)\<lparr>client_state := shared P\<rparr>" and ?k = "(pr_tcp P)\<lparr>incoming := (incoming (pr_tcp P))(ds ! t := [])\<rparr>"
  have ok: "thread_ok (bs ! t) (rd t) (ds ! t) (pr_tcp P) (th_locals ?T)" "incoming (pr_tcp P) (ds ! t) = []" using s' t by simp_all
  then have k: "?k = pr_tcp P" by (simp add: fun_upd_idem)
  have w: "wrep (memory (client_state ?S)) (sender_handle ?S) (bs ! t) ?w" using s' ok(1) by (simp add: wrep_def thread_ok_def)
  have a: "length (bs ! t) < 2 ^ 32" "2 < avail (memory (client_state ?S))" "length (send_buffer ?S) = UDP_PACKET_SIZE"
      "connected (ds ! t) (ack_server ?S) (pr_tcp P)" "incoming (pr_tcp P) (ds ! t) = concat (map ctrl_wire [])"
      "length ([] :: ucp_ctrl_packet list) \<le> 170" "\<forall>m \<in> set ([] :: ucp_ctrl_packet list). unat (ctrl_flag m) < 256"
      "\<forall>p \<in> set (w_pend ?w @ w_infl ?w). sendable p"
    using s' ok t by (simp_all add: thread_ok_def)
  obtain S where S: "block_iteration garbage (th_remote ?T) ?S (pr_udp P) (pr_tcp P) = Some (\<not> done_flag (client_state S), S,
        udp_sent (th_remote ?T) (data_wire (data_packet p)) (pr_udp P), pr_tcp P)"
      "wrep (memory (client_state S)) (sender_handle S) (bs ! t) w'" "length (send_buffer S) = UDP_PACKET_SIZE"
      "connected (ds ! t) (ack_server S) (pr_tcp P)" "n \<le> avail (memory (client_state S))" "\<not> done_flag (client_state S)"
    using block_iteration_refines [OF w a, of garbage "th_remote ?T" "pr_udp P"] s' unfolding it k by auto
  define P' where "P' = P\<lparr>threads := (threads P)[t := ?T\<lparr>th_live := True, th_locals := S\<rparr>], shared := client_state S,
      pr_udp := udp_sent (th_remote ?T) (data_wire (data_packet p)) (pr_udp P), pr_tcp := pr_tcp P,
      segments := segments P\<rparr>"
  have st: "process_step garbage ds P P'"
    using process_step.iterate [of t P garbage _ S _ _ ds] S(1,6) s' t a(2) by (simp add: P'_def segments_read_def)
  have "set (w_pend w' @ w_infl w') \<subseteq> insert (file_packet (bs ! t) (rd t)) (set (pend @ infl))"
    using it by (auto simp: win_iterate_def win_next_def win_sent_def split: list.splits if_splits)
  then have "\<forall>p \<in> set (w_pend w' @ w_infl w'). sendable p" using s' sendable_file_packet by blast
  moreover have "thread_ok (bs ! t) (w_read w') (ds ! t) (pr_tcp P) S"
    using S(2-4) by (simp add: thread_ok_def wrep_def)
  moreover have "crep (memory (client_state S)) (w_pend w') (w_infl w')" using S(2) by (simp add: wrep_def)
  ultimately have "silent bs ds (rd(t := w_read w')) (w_pend w') (w_infl w') n P'"
    using s' S(5,6) unfolding silent_def by (auto simp: P'_def udp_sent_def nth_list_update)
  moreover have "th_remote (threads P' ! i) = th_remote (threads P ! i)" if "i < length bs" for i
  proof (cases "i = t")
    case True
    then have "i < length (threads P)" using that conjunct1 [OF s'] by simp
    then show ?thesis using True by (simp add: P'_def)
  qed (simp add: P'_def)
  moreover have "send_ok (pr_udp P)" using s' by simp
  then have "sent (pr_udp P') = sent (pr_udp P) @ [(th_remote ?T, data_wire (data_packet p))]"
    by (simp add: P'_def udp_sent_def)
  ultimately show ?thesis using st by blast
qed

lemma silent_reads_part:
  assumes "silent bs ds rd [] infl (n + 3 * j) P" "t < length bs" "rd t = 0" "j \<le> packet_count (bs ! t)"
  shows "\<exists>P'. (process_step garbage ds)\<^sup>*\<^sup>* P P'
    \<and> silent bs ds (rd(t := j)) [] (infl @ map (file_packet (bs ! t)) [0..<j]) n P'
    \<and> (\<forall>i < length bs. th_remote (threads P' ! i) = th_remote (threads P ! i))"
  using assms(1,4)
proof (induction j arbitrary: n)
  case 0
  then show ?case using assms(3) by (intro exI [of _ P]) (simp add: fun_upd_idem)
next
  case (Suc j)
  have "n + 3 * Suc j = n + 3 + 3 * j" by simp
  then have "silent bs ds rd [] infl (n + 3 + 3 * j) P" using Suc.prems(1) by metis
  from Suc.IH [OF this Suc_leD [OF Suc.prems(2)]] obtain P1 where P1: "(process_step garbage ds)\<^sup>*\<^sup>* P P1"
      "silent bs ds (rd(t := j)) [] (infl @ map (file_packet (bs ! t)) [0..<j]) (n + 3) P1"
      "\<forall>i < length bs. th_remote (threads P1 ! i) = th_remote (threads P ! i)" by blast
  have "win_iterate (bs ! t) [] \<lparr>w_read = (rd(t := j)) t, w_pend = [], w_infl = infl @ map (file_packet (bs ! t)) [0..<j]\<rparr>
      = Some (file_packet (bs ! t) j, \<lparr>w_read = Suc j, w_pend = [], w_infl = infl @ map (file_packet (bs ! t)) [0..<Suc j]\<rparr>)"
    using Suc.prems(2) by (simp add: win_iterate_def win_next_def win_sent_def)
  from silent_iterates [OF P1(2) assms(2) this, of garbage] obtain P2 where P2: "process_step garbage ds P1 P2"
      "silent bs ds (rd(t := Suc j)) [] (infl @ map (file_packet (bs ! t)) [0..<Suc j]) n P2"
      "\<forall>i < length bs. th_remote (threads P2 ! i) = th_remote (threads P1 ! i)" by (auto simp del: fun_upd_apply)
  have "(process_step garbage ds)\<^sup>*\<^sup>* P P2" using P1(1) P2(1) by (rule rtranclp.rtrancl_into_rtrancl)
  moreover have "\<forall>i < length bs. th_remote (threads P2 ! i) = th_remote (threads P ! i)" using P1(3) P2(3) by simp
  ultimately show ?case using P2(2) by blast
qed

text \<open>A thread that has read its part takes the oldest packet in flight, whichever thread put it there.\<close>

lemma silent_crosses:
  assumes s: "silent bs ds (\<lambda>_. 0) [] [] (3 * (packet_count (bs ! t) + 2)) P" and "i < length bs" "t < length bs" "i \<noteq> t"
    and "bs ! i \<noteq> []"
  shows "\<exists>P'. (process_step garbage ds)\<^sup>*\<^sup>* P P'
    \<and> (th_remote (threads P ! t), data_wire (data_packet (file_packet (bs ! i) 0))) \<in> set (sent (pr_udp P'))"
proof -
  let ?n = "packet_count (bs ! t)" and ?p = "file_packet (bs ! i) 0"
  have "0 < packet_count (bs ! i)" using assms(5) by (simp add: packet_count_iff)
  then have f: "win_iterate (bs ! i) [] \<lparr>w_read = (\<lambda>_. 0) i, w_pend = [], w_infl = []\<rparr>
      = Some (?p, \<lparr>w_read = 1, w_pend = [], w_infl = [?p]\<rparr>)" by (simp add: win_iterate_def win_next_def win_sent_def)
  have "silent bs ds (\<lambda>_. 0) [] [] (3 + 3 * ?n + 3) P" using s by (simp add: algebra_simps)
  from silent_iterates [OF this assms(2) f, of garbage] obtain P1 where P1: "process_step garbage ds P P1"
      "silent bs ds ((\<lambda>_. 0)(i := 1)) [] [?p] (3 + 3 * ?n) P1"
      "\<forall>j < length bs. th_remote (threads P1 ! j) = th_remote (threads P ! j)" by (auto simp del: fun_upd_apply)
  from silent_reads_part [OF P1(2) assms(3) _ order_refl, of garbage] assms(4) obtain P2 where
    P2: "(process_step garbage ds)\<^sup>*\<^sup>* P1 P2"
      "silent bs ds ((\<lambda>_. 0)(i := 1, t := ?n)) [] ([?p] @ map (file_packet (bs ! t)) [0..<?n]) (0 + 3) P2"
      "\<forall>j < length bs. th_remote (threads P2 ! j) = th_remote (threads P1 ! j)" by auto
  have "win_iterate (bs ! t) [] \<lparr>w_read = ((\<lambda>_. 0)(i := 1, t := ?n)) t, w_pend = [],
      w_infl = [?p] @ map (file_packet (bs ! t)) [0..<?n]\<rparr>
      = Some (?p, \<lparr>w_read = ?n, w_pend = [], w_infl = map (file_packet (bs ! t)) [0..<?n] @ [?p]\<rparr>)"
    by (simp add: win_iterate_def win_next_def win_sent_def)
  from silent_iterates [OF P2(2) assms(3) this, of garbage] obtain P3 where "process_step garbage ds P2 P3"
      "sent (pr_udp P3) = sent (pr_udp P2) @ [(th_remote (threads P2 ! t), data_wire (data_packet ?p))]" by blast
  then show ?thesis using P1(1,3) P2(1,3) assms(3)
    by (intro exI [of _ P3]) (auto intro: converse_rtranclp_into_rtranclp rtranclp.rtrancl_into_rtrancl)
qed

lemma silent_start:
  assumes "process_start bs ds P" "\<forall>t < length bs. th_live (threads P ! t)" "\<not> done_flag (shared P)" "send_ok (pr_udp P)"
    and "n \<le> avail (memory (shared P))"
  shows "silent bs ds (\<lambda>_. 0) [] [] n P"
  using assms thread_ok_start unfolding process_start_def silent_def by simp

subsection \<open>Properties\<close>

text \<open>C4: the threads of the client on their shared lists, in every interleaving of whole iterations and with whatever
  bytes arrive on their connections, which stay up: the two lists hold, each once, the packets that some thread has read, except
  those (of whatever part) for whose number a thread has read a segment that begins with the bytes of an ACK; only packets that
  were read are sent; and no thread ever faults in an iteration while there is memory. This is for an uninitialised local of
  the callback that holds no control packet.\<close>

theorem threads_share_window:
  assumes "process_start bs ds P0" "(process_step garbage ds)\<^sup>*\<^sup>* P0 P" "pkt_type garbage \<noteq> UCP_PACKET_TYPE_CTRL"
  shows "(\<exists>A rd pend infl. crep (memory (shared P)) pend infl
      \<and> mset (pend @ infl) = image_mset (part_packet bs) (mset_set (all_read bs rd - A))
      \<and> A \<subseteq> all_read bs rd \<and> (\<forall>t < length bs. rd t \<le> packet_count (bs ! t))
      \<and> (\<forall>(t, i) \<in> A. \<exists>xs \<in> set (segments P). take 6 xs = ctrl_wire (ctrl UCP_FLAG_ACK (of_nat i)))
      \<and> snd ` set (sent (pr_udp P)) \<subseteq> (\<lambda>x. data_wire (data_packet (part_packet bs x))) ` all_read bs rd)
    \<and> (\<forall>t < length bs. th_live (threads P ! t) \<and> 2 < avail (memory (shared P)) \<longrightarrow>
        (\<exists>r. block_iteration garbage (th_remote (threads P ! t)) ((th_locals (threads P ! t))\<lparr>client_state := shared P\<rparr>)
          (pr_udp P) (pr_tcp P) = Some r))"
proof -
  have v: "process_inv bs ds P" using process_run_inv assms by blast
  then obtain A rd pend infl where "shared_inv bs A rd pend infl" "crep (memory (shared P)) pend infl"
      "\<forall>x \<in> A. acked_in (segments P) (snd x)" "from_parts bs rd (pr_udp P)"
    unfolding process_inv_def window_inv_def by blast
  then have holds: "crep (memory (shared P)) pend infl
      \<and> mset (pend @ infl) = image_mset (part_packet bs) (mset_set (all_read bs rd - A))
      \<and> A \<subseteq> all_read bs rd \<and> (\<forall>t < length bs. rd t \<le> packet_count (bs ! t))
      \<and> (\<forall>(t, i) \<in> A. \<exists>xs \<in> set (segments P). take 6 xs = ctrl_wire (ctrl UCP_FLAG_ACK (of_nat i)))
      \<and> snd ` set (sent (pr_udp P)) \<subseteq> (\<lambda>x. data_wire (data_packet (part_packet bs x))) ` all_read bs rd"
    unfolding shared_inv_def held_def from_parts_def acked_in_def split_beta by blast
  have runs: "\<forall>t < length bs. th_live (threads P ! t) \<and> 2 < avail (memory (shared P)) \<longrightarrow>
        (\<exists>r. block_iteration garbage (th_remote (threads P ! t)) ((th_locals (threads P ! t))\<lparr>client_state := shared P\<rparr>)
          (pr_udp P) (pr_tcp P) = Some r)"
    using thread_returns [OF v _ _ _ assms(3)] by blast
  show ?thesis by (rule conjI [OF _ runs]) ((rule exI)+, rule holds)
qed

text \<open>C29: the sharing mixes the parts up even without a data race: when the replies take their time, a thread that has
  read its own part sends a packet of another part to the server of its own, which has no way to tell.\<close>

theorem threads_send_each_others_packets:
  assumes "process_start bs ds P" "\<forall>j < length bs. th_live (threads P ! j)" "\<not> done_flag (shared P)" "send_ok (pr_udp P)"
    and "3 * (packet_count (bs ! t) + 2) \<le> avail (memory (shared P))"
    and "i < length bs" "t < length bs" "i \<noteq> t" "bs ! i \<noteq> []"
  shows "\<exists>P'. (process_step garbage ds)\<^sup>*\<^sup>* P P'
    \<and> (th_remote (threads P ! t), data_wire (data_packet (file_packet (bs ! i) 0))) \<in> set (sent (pr_udp P'))"
  by (rule silent_crosses [OF silent_start [OF assms(1-5)] assms(6-9)])

text \<open>Two threads with the parts \<open>[7, 8]\<close> and \<open>[5]\<close>, at the beginning of their loops.\<close>

definition example_thread :: "u8 list \<Rightarrow> int \<Rightarrow> thread_state" where
  "example_thread b d = \<lparr>th_remote = zero_addr\<lparr>sin_port := of_int d\<rparr>, th_live = True,
     th_locals = (example_sender b)\<lparr>sender_handle := example_handle b,
       ack_server := \<lparr>sd = d - 2, max_sd = d, server_fd_set = {d - 2, d}, endpoints = []\<rparr>\<rparr>\<rparr>"

definition example_process :: process where
  "example_process = \<lparr>threads = [example_thread [7, 8] 5, example_thread [5] 6],
     shared = \<lparr>memory = \<lparr>elems = [1 \<mapsto> \<lparr>obj = 0, nxt = 1, prv = 1\<rparr>, 2 \<mapsto> \<lparr>obj = 0, nxt = 2, prv = 2\<rparr>],
         members = (\<lambda>_. 0), brk = 3, avail = 30, packets = Map.empty\<rparr>, done_flag = False, created = 0\<rparr>,
     pr_udp = example_net, pr_tcp = (example_connection [])\<lparr>open_sds := {3, 4, 5, 6}\<rparr>, segments = []\<rparr>"

lemma all_less_two: "(\<forall>j < length [x, y]. Q j) \<longleftrightarrow> Q 0 \<and> Q 1"
  by (auto simp: less_Suc_eq)

lemma example_process_start: "process_start [[7, 8], [5]] [5, 6] example_process"
proof -
  have "crep (memory (shared example_process)) [] []"
    by (rule exI)+ (auto simp: two_lists_def example_process_def pending_packet_list_def in_flight_packet_list_def
        dll_def nxts_def prvs_def wf_mem_def)
  moreover have "connected 5 (ack_server (th_locals (example_thread [7, 8] 5))) (pr_tcp example_process)"
      "connected 6 (ack_server (th_locals (example_thread [5] 6))) (pr_tcp example_process)"
    by (simp_all add: example_process_def example_thread_def connected_def example_connection_def)
  ultimately show ?thesis unfolding process_start_def all_less_two using example_handle_ok(1)
    by (simp add: example_process_def example_thread_def example_sender_def example_net_def example_connection_def)
qed

theorem threads_send_each_others_packets_witness:
  "\<exists>P'. (process_step (example_packet 1) [5, 6])\<^sup>*\<^sup>* example_process P'
    \<and> (zero_addr\<lparr>sin_port := 6\<rparr>, data_wire (data_packet (file_packet [7, 8] 0))) \<in> set (sent (pr_udp P'))"
proof -
  have n: "packet_count [5 :: u8] = 1" by (simp add: packet_count_def UDP_PACKET_DATA_SIZE_val)
  show ?thesis
    using threads_send_each_others_packets [OF example_process_start, of 1 0 "example_packet 1"] n
    unfolding all_less_two by (simp add: example_process_def example_thread_def example_net_def)
qed

text \<open>The first thread has sent its packet, and some bytes have arrived for it.\<close>

theorem threads_share_window_witness:
  "\<exists>P. (process_step (example_packet 0) [5, 6])\<^sup>*\<^sup>* example_process P
    \<and> snd ` set (sent (pr_udp P)) = {data_wire (data_packet (file_packet [7, 8] 0))} \<and> incoming (pr_tcp P) 5 = [1, 2, 3]
    \<and> (\<exists>A rd pend infl. crep (memory (shared P)) pend infl
      \<and> mset (pend @ infl) = image_mset (part_packet [[7, 8], [5]]) (mset_set (all_read [[7, 8], [5]] rd - A))
      \<and> A \<subseteq> all_read [[7, 8], [5]] rd \<and> (\<forall>t < length [[7, 8], [5] :: u8 list]. rd t \<le> packet_count ([[7, 8], [5]] ! t))
      \<and> (\<forall>(t, i) \<in> A. \<exists>xs \<in> set (segments P). take 6 xs = ctrl_wire (ctrl UCP_FLAG_ACK (of_nat i)))
      \<and> snd ` set (sent (pr_udp P))
        \<subseteq> (\<lambda>x. data_wire (data_packet (part_packet [[7, 8], [5]] x))) ` all_read [[7, 8], [5]] rd)"
proof -
  let ?bs = "[[7, 8], [5 :: u8]]" and ?ds = "[5, 6 :: int]"
  have g: "pkt_type (example_packet 0) \<noteq> UCP_PACKET_TYPE_CTRL" by (simp add: example_packet_def packet_enums)
  have pc: "packet_count [7, 8 :: u8] = 1" by (simp add: packet_count_def UDP_PACKET_DATA_SIZE_val)
  have live: "\<forall>t < length ?bs. th_live (threads example_process ! t)" "\<not> done_flag (shared example_process)"
      "send_ok (pr_udp example_process)" "0 + 3 \<le> avail (memory (shared example_process))"
    unfolding all_less_two by (simp_all add: example_process_def example_thread_def example_net_def)
  note s = silent_start [OF example_process_start live]
  have t: "0 < length ?bs" by simp
  have it: "win_iterate (?bs ! 0) [] \<lparr>w_read = (\<lambda>_. 0) 0, w_pend = [], w_infl = []\<rparr>
      = Some (file_packet [7, 8] 0, \<lparr>w_read = 1, w_pend = [], w_infl = [file_packet [7, 8] 0]\<rparr>)"
    by (simp add: win_iterate_def win_next_def win_sent_def pc)
  from silent_iterates [OF s t it, of "example_packet 0"] obtain P1 where
    P1: "process_step (example_packet 0) ?ds example_process P1" "silent ?bs ?ds ((\<lambda>_. 0)(0 := 1)) [] [file_packet [7, 8] 0] 0 P1"
      "snd ` set (sent (pr_udp P1)) = {data_wire (data_packet (file_packet [7, 8] 0))}"
    by (auto simp: example_process_def example_net_def simp del: fun_upd_apply)
  have i: "0 < length (threads P1)" "incoming (pr_tcp P1) (?ds ! 0) = []"
    using P1(2) unfolding silent_def all_less_two by simp_all
  define P2 where "P2 = P1\<lparr>pr_tcp := (pr_tcp P1)\<lparr>incoming := (incoming (pr_tcp P1))(?ds ! 0 := incoming (pr_tcp P1) (?ds ! 0) @ [1, 2, 3])\<rparr>\<rparr>"
  have "process_step (example_packet 0) ?ds P1 P2" unfolding P2_def by (rule process_step.replies [OF i(1)])
  with P1(1) have run: "(process_step (example_packet 0) ?ds)\<^sup>*\<^sup>* example_process P2" by (meson r_into_rtranclp rtranclp.rtrancl_into_rtrancl)
  have P2: "snd ` set (sent (pr_udp P2)) = {data_wire (data_packet (file_packet [7, 8] 0))}" "incoming (pr_tcp P2) 5 = [1, 2, 3]"
    using P1(3) i(2) by (simp_all add: P2_def)
  note w = threads_share_window [OF example_process_start run g, THEN conjunct1]
  show ?thesis by (intro exI [of _ P2] conjI run P2 w)
qed

end
