(* ===== verification/List_Race.thy ===== *)
theory List_Race
  imports Linked_List
begin

text \<open>
  \<open>LinkedListAppend\<close> statement by statement, as two threads of the client run it on the same list without a lock. The theory
  shows what the missing lock costs: one order of the statements in which an element is lost for good.
\<close>

subsection \<open>The statements of an append\<close>

text \<open>The new element, which no other thread can see yet.\<close>

definition append_begin :: "addr \<Rightarrow> 'a mem_scheme \<Rightarrow> (addr \<times> 'a mem_scheme) option" where
  "append_begin ob s = (case malloc_elem s of (new, s) \<Rightarrow> do {
     s \<leftarrow> set_obj new ob s;
     Some (new, s)
   })"

text \<open>The next statement of a thread: the test, four statements on one of its branches, and the count.\<close>

datatype append_at = ATest | AEmpty1 | AEmpty2 | AEmpty3 | AEmpty4 | AFull1 | AFull2 | AFull3 | AFull4 | ACount | ADone

fun append_statement :: "addr \<Rightarrow> addr \<Rightarrow> append_at \<Rightarrow> 'a mem_scheme \<Rightarrow> (append_at \<times> 'a mem_scheme) option" where
  "append_statement L new ATest s = do { empty \<leftarrow> LinkedListEmpty s L; Some (if empty then AEmpty1 else AFull1, s) }"
| "append_statement L new AEmpty1 s = do { s \<leftarrow> set_nxt L new s; Some (AEmpty2, s) }"
| "append_statement L new AEmpty2 s = do { s \<leftarrow> set_prv L new s; Some (AEmpty3, s) }"
| "append_statement L new AEmpty3 s = do { s \<leftarrow> set_nxt new L s; Some (AEmpty4, s) }"
| "append_statement L new AEmpty4 s = do { s \<leftarrow> set_prv new L s; Some (ACount, s) }"
| "append_statement L new AFull1 s = do { s \<leftarrow> set_nxt new L s; Some (AFull2, s) }"
| "append_statement L new AFull2 s = do { a \<leftarrow> elems s L; s \<leftarrow> set_prv new (prv a) s; Some (AFull3, s) }"
| "append_statement L new AFull3 s = do { a \<leftarrow> elems s L; s \<leftarrow> set_nxt (prv a) new s; Some (AFull4, s) }"
| "append_statement L new AFull4 s = do { s \<leftarrow> set_prv L new s; Some (ACount, s) }"
| "append_statement L new ACount s = Some (ADone, s\<lparr>members := (members s)(L := members s L + 1)\<rparr>)"
| "append_statement L new ADone s = Some (ADone, s)"

fun append_alone :: "addr \<Rightarrow> addr \<Rightarrow> nat \<Rightarrow> append_at \<Rightarrow> 'a mem_scheme \<Rightarrow> (append_at \<times> 'a mem_scheme) option" where
  "append_alone L new 0 pc s = Some (pc, s)"
| "append_alone L new (Suc k) pc s = do { (pc, s) \<leftarrow> append_statement L new pc s; append_alone L new k pc s }"

lemma append_by_statements:
  "L \<noteq> NULL \<Longrightarrow> LinkedListAppend s L ob = do {
     (new, s) \<leftarrow> append_begin ob s;
     (_, s) \<leftarrow> append_alone L new 6 ATest s;
     Some (True, s) }"
  by (simp add: LinkedListAppend_def append_begin_def eval_nat_numeral split: prod.splits bind_splits)

text \<open>Two threads: the schedule says who runs its next statement, \<open>False\<close> the first and \<open>True\<close> the second.\<close>

fun append_race :: "addr \<Rightarrow> addr \<Rightarrow> addr \<Rightarrow> bool list \<Rightarrow> append_at \<Rightarrow> append_at \<Rightarrow> 'a mem_scheme \<Rightarrow> (append_at \<times> append_at \<times> 'a mem_scheme) option" where
  "append_race L m n [] p q s = Some (p, q, s)"
| "append_race L m n (False # ts) p q s = do { (p, s) \<leftarrow> append_statement L m p s; append_race L m n ts p q s }"
| "append_race L m n (True # ts) p q s = do { (q, s) \<leftarrow> append_statement L n q s; append_race L m n ts p q s }"

subsection \<open>The race\<close>

text \<open>The first thread stops before it closes the ring; the second overwrites the only link to its element.\<close>

definition losing_schedule :: "bool list" where
  "losing_schedule = [False, False, False, False, True, True, True, True, False, False, True, True]"

lemma append_begin_Some: "wf_mem s \<Longrightarrow> 0 < avail s \<Longrightarrow> append_begin ob s = Some (brk s, s\<lparr>brk := Suc (brk s), avail := avail s - 1,
    elems := (elems s)(brk s \<mapsto> \<lparr>obj = ob, nxt = 0, prv = 0\<rparr>)\<rparr>)"
  by (simp add: append_begin_def malloc_elem_Some set_obj_def)

lemma race_loses:
  assumes e: "elems s L = Some f" "prv f = p" "elems s p = Some e" "p \<noteq> L" and m: "elems s m = Some em" "m \<noteq> L" "m \<noteq> p"
    and n: "elems s n = Some en" "n \<noteq> L" "n \<noteq> p" "n \<noteq> m"
  shows "append_race L m n losing_schedule ATest ATest s = Some (ADone, ADone, s\<lparr>elems := (elems s)(m \<mapsto> em\<lparr>nxt := L, prv := p\<rparr>,
      n \<mapsto> en\<lparr>nxt := L, prv := p\<rparr>, p \<mapsto> e\<lparr>nxt := n\<rparr>, L \<mapsto> f\<lparr>prv := n\<rparr>), members := (members s)(L := members s L + 2)\<rparr>)"
  using assms by (simp add: losing_schedule_def LinkedListEmpty_def set_nxt_def set_prv_def fun_eq_iff)

lemma race_in_turn:
  assumes e: "elems s L = Some f" "prv f = p" "elems s p = Some e" "p \<noteq> L" and m: "elems s m = Some em" "m \<noteq> L" "m \<noteq> p"
    and n: "elems s n = Some en" "n \<noteq> L" "n \<noteq> p" "n \<noteq> m"
  shows "append_race L m n (replicate 6 False @ replicate 6 True) ATest ATest s = Some (ADone, ADone, s\<lparr>elems := (elems s)(
      m \<mapsto> em\<lparr>nxt := n, prv := p\<rparr>, n \<mapsto> en\<lparr>nxt := L, prv := m\<rparr>, p \<mapsto> e\<lparr>nxt := m\<rparr>, L \<mapsto> f\<lparr>prv := n\<rparr>),
      members := (members s)(L := members s L + 2)\<rparr>)"
  using assms by (simp add: eval_nat_numeral LinkedListEmpty_def set_nxt_def set_prv_def fun_eq_iff)

subsection \<open>Properties\<close>

text \<open>C32: two threads that append to the same list that is not empty, as the client's threads do to the packets in flight,
  can lose an element: one order of their statements returns with a well-formed ring that holds the second
  object only, while the list counts both, so the first packet is in no list and is never sent again. One after the other, the
  same statements append both.\<close>

theorem unlocked_append_loses_element:
  assumes "wf_mem s" "dll (elems s) L ps" "ps \<noteq> []" "1 < avail s"
  shows "\<exists>m s1 n s2 s3 s4. append_begin a s = Some (m, s1) \<and> append_begin b s1 = Some (n, s2)
    \<and> append_race L m n losing_schedule ATest ATest s2 = Some (ADone, ADone, s3)
    \<and> dll (elems s3) L (ps @ [(n, b)]) \<and> members s3 L = members s L + 2
    \<and> append_race L m n (replicate 6 False @ replicate 6 True) ATest ATest s2 = Some (ADone, ADone, s4)
    \<and> dll (elems s4) L (ps @ [(m, a), (n, b)]) \<and> members s4 L = members s L + 2"
proof -
  let ?m = "brk s" and ?n = "Suc (brk s)" and ?p = "last (L # map fst ps)"
  define s1 where "s1 = s\<lparr>brk := ?n, avail := avail s - 1, elems := (elems s)(?m \<mapsto> \<lparr>obj = a, nxt = 0, prv = 0\<rparr>)\<rparr>"
  define s2 where "s2 = s1\<lparr>brk := Suc ?n, avail := avail s1 - 1, elems := (elems s1)(?n \<mapsto> \<lparr>obj = b, nxt = 0, prv = 0\<rparr>)\<rparr>"
  have w1: "wf_mem s1" "0 < avail s1" "brk s1 = ?n" using assms(1,4) by (auto simp: s1_def wf_mem_def)
  have b1: "append_begin a s = Some (?m, s1)" using append_begin_Some [OF assms(1), of a] assms(4) by (simp add: s1_def)
  have b2: "append_begin b s1 = Some (?n, s2)" using append_begin_Some [OF w1(1,2), of b] by (simp add: s2_def w1(3))
  have d: "dll (elems s) L (ps @ [])" using assms(2) by simp
  obtain e f where ef: "elems s ?p = Some e" "elems s L = Some f" "nxt e = L" "prv f = ?p"
    using dll_gap [OF d refl refl] by auto
  have pL: "?p \<noteq> L" using dll_ends_neq [OF assms(2,3)] assms(3) by (simp add: last_map)
  have ne: "?m \<noteq> ?p" "?m \<noteq> L" "?n \<noteq> ?p" "?n \<noteq> L" "elems s ?m = None" "elems s ?n = None"
    using assms(1) ef by (fastforce simp: wf_mem_def)+
  have v: "elems s2 L = Some f" "elems s2 ?p = Some e" "elems s2 ?m = Some \<lparr>obj = a, nxt = 0, prv = 0\<rparr>"
      "elems s2 ?n = Some \<lparr>obj = b, nxt = 0, prv = 0\<rparr>" "members s2 = members s"
    using ef ne by (simp_all add: s2_def s1_def)
  have fresh: "w \<noteq> ?m \<and> w \<noteq> ?n" if "w \<in> set (L # map fst ps)" for w using dll_dom [OF assms(2) that] ne(5,6) by auto
  let ?h = "(elems s)(?m \<mapsto> \<lparr>obj = a, nxt = L, prv = ?p\<rparr>)"
  have "dll ?h L (ps @ [])" using dll_cong [of L ps ?h "elems s"] fresh assms(2) by auto
  then have lost: "dll (fill_gap ?n b ?p L ?h) L (ps @ [(?n, b)])" using ne by (intro dll_fill_gap(1)) auto
  note race = race_loses [OF v(1) ef(4) v(2) pL v(3) ne(2,1) v(4) ne(4,3)]
  have "(elems s2)(?m \<mapsto> \<lparr>obj = a, nxt = L, prv = ?p\<rparr>, ?n \<mapsto> \<lparr>obj = b, nxt = L, prv = ?p\<rparr>, ?p \<mapsto> e\<lparr>nxt := ?n\<rparr>, L \<mapsto> f\<lparr>prv := ?n\<rparr>)
      = fill_gap ?n b ?p L ?h"
    using ef ne pL by (auto simp: fill_gap_def s2_def s1_def fun_eq_iff)
  then have s3: "append_race L ?m ?n losing_schedule ATest ATest s2
      = Some (ADone, ADone, s2\<lparr>elems := fill_gap ?n b ?p L ?h, members := (members s)(L := members s L + 2)\<rparr>)"
    using race v(5) by simp
  have "(elems s2)(?m \<mapsto> \<lparr>obj = a, nxt = ?n, prv = ?p\<rparr>, ?n \<mapsto> \<lparr>obj = b, nxt = L, prv = ?m\<rparr>, ?p \<mapsto> e\<lparr>nxt := ?m\<rparr>, L \<mapsto> f\<lparr>prv := ?n\<rparr>)
      = fill_gap ?n b ?m L (fill_gap ?m a ?p L (elems s))"
    using ef ne pL by (auto simp: fill_gap_def s2_def s1_def fun_eq_iff)
  then have s4: "append_race L ?m ?n (replicate 6 False @ replicate 6 True) ATest ATest s2
      = Some (ADone, ADone, s2\<lparr>elems := fill_gap ?n b ?m L (fill_gap ?m a ?p L (elems s)), members := (members s)(L := members s L + 2)\<rparr>)"
    using race_in_turn [OF v(1) ef(4) v(2) pL v(3) ne(2,1) v(4) ne(4,3)] v(5) by simp
  have "dll (fill_gap ?m a ?p L (elems s)) L (ps @ [(?m, a)])" using d ne assms(1) by (intro dll_fill_gap(1)) (auto simp: wf_mem_def)
  then have both: "dll (fill_gap ?n b ?m L (fill_gap ?m a ?p L (elems s))) L ((ps @ [(?m, a)]) @ [(?n, b)])"
    using ne pL by (intro dll_fill_gap(1)) (auto simp: fill_gap_def)
  show ?thesis using b1 b2 s3 lost s4 both
    by auto
qed

theorem unlocked_append_loses_element_witness:
  "\<exists>s3. append_race 1 4 5 losing_schedule ATest ATest (mem_two_list\<lparr>brk := 6, avail := 7, elems := (elems mem_two_list)(
      4 \<mapsto> \<lparr>obj = 90, nxt = 0, prv = 0\<rparr>, 5 \<mapsto> \<lparr>obj = 91, nxt = 0, prv = 0\<rparr>)\<rparr>) = Some (ADone, ADone, s3)
    \<and> dll (elems s3) 1 [(2, 70), (3, 80), (5, 91)]"
  using unlocked_append_loses_element [OF mem_two_list_ok(1,2), of 90 91] append_begin_Some [OF mem_two_list_ok(1,3), of 90]
  by (auto simp: mem_two_list_def append_begin_def malloc_elem_def malloc_def set_obj_def)

end
