(* ===== verification/Server_Threads.thy ===== *)
theory Server_Threads
  imports Ucp_Server List_Race
begin

text \<open>
  The mutex of \<open>ucp_server.c\<close>. \<open>server_step\<close> takes an iteration of a thread as one step; here every statement of a push and a pop,
  those of \<open>LinkedListAppend\<close>, \<open>LinkedListFirst\<close> and \<open>LinkedListUnlink\<close> inside them included, is a step,
  \<open>pthread_mutex_lock\<close> and \<open>pthread_mutex_unlock\<close> are steps of their own,
  and the threads interleave at every cut. The theory shows that the mutex makes
  the coarse steps right: every run of the fine steps is one of the coarse ones, and the threads never block each other for ever.
\<close>

subsection \<open>The iterations, statement by statement where they touch the queue\<close>

text \<open>The receiving thread up to the push: the item it will push, if any, and whether its loop goes on.\<close>

definition receive_and_save ::
    "receiver \<Rightarrow> udp_net \<Rightarrow> (bool \<times> sequencing_queue_item option \<times> receiver \<times> udp_net) option" where
  "receive_and_save r u = do {
     (ret, buffer, _, u) \<leftarrow> udp_socket_receive_from (recv_buffer r) True u;
     let r = r\<lparr>recv_buffer := buffer\<rparr>;
     if ret > 0 then do {
       pkt \<leftarrow> ucp_packet_decode (Some buffer) (of_nat (length buffer)) (Some (rcv_pkt r));
       pkt \<leftarrow> pkt;
       let r = r\<lparr>rcv_pkt := pkt\<rparr>;
       if pkt_type pkt = UCP_PACKET_TYPE_DATA then do {
         (ok, h) \<leftarrow> file_io_save_packet (recv_handle r) pkt;
         let r = r\<lparr>recv_handle := h\<rparr>;
         if \<not> ok then Some (False, Some \<lparr>item_seq_no = data_seq_no (data_packet pkt), item_flag = UCP_FLAG_NACK,
           item_is_last = False\<rparr>, r, u)
         else Some (True, Some \<lparr>item_seq_no = data_seq_no (data_packet pkt), item_flag = UCP_FLAG_ACK,
           item_is_last = (data_flag (data_packet pkt) = UCP_FLAG_DATA_END)\<rparr>, r, u)
       } else Some (True, None, r, u)
     } else Some (False, None, r, u)
   }"

text \<open>\<open>statements step k\<close> is a run of \<open>k\<close> statements by a thread that is alone.\<close>

primrec statements :: "('p \<Rightarrow> 's \<Rightarrow> ('p \<times> 's) option) \<Rightarrow> nat \<Rightarrow> 'p \<Rightarrow> 's \<Rightarrow> ('p \<times> 's) option" where
  "statements step 0 pc s = Some (pc, s)"
| "statements step (Suc k) pc s = do { (pc, s) \<leftarrow> step pc s; statements step k pc s }"

text \<open>The statements of a push: a new item, a new element with the item in it, and those of \<open>LinkedListAppend\<close> on the list.\<close>

definition item_new :: "sequencing_queue_item \<Rightarrow> queue_mem \<Rightarrow> (addr \<times> queue_mem) option" where
  "item_new x s = (case malloc s of (p, s) \<Rightarrow>
     if p = NULL then None else Some (p, s\<lparr>qitems := (qitems s)(p \<mapsto> x)\<rparr>))"

datatype push_at = PuNew | PuElem addr | PuLink addr append_at | PuDone

fun push_statement :: "addr \<Rightarrow> sequencing_queue_item \<Rightarrow> push_at \<Rightarrow> queue_mem \<Rightarrow> (push_at \<times> queue_mem) option" where
  "push_statement L x PuNew s = do { (p, s) \<leftarrow> item_new x s; Some (PuElem p, s) }"
| "push_statement L x (PuElem p) s =
     (if L = NULL then Some (PuDone, s) else do { (new, s) \<leftarrow> append_begin p s; Some (PuLink new ATest, s) })"
| "push_statement L x (PuLink new pc) s =
     do { (pc, s) \<leftarrow> append_statement L new pc s; Some (if pc = ADone then PuDone else PuLink new pc, s) }"
| "push_statement L x PuDone s = Some (PuDone, s)"

text \<open>
  The statements of a pop: the two of \<open>LinkedListFirst\<close>, the reading of the item, those of \<open>LinkedListUnlink\<close> with its test, its two
  links, the count and the \<open>free\<close> of the element, and the \<open>free\<close> of the item.
\<close>

datatype pop_at = PoTest | PoFirst | PoItem addr | PoUnlink addr addr sequencing_queue_item | PoNext addr addr sequencing_queue_item
  | PoPrev addr addr sequencing_queue_item | PoCount addr addr sequencing_queue_item | PoElem addr addr sequencing_queue_item
  | PoFree addr sequencing_queue_item | PoDone "sequencing_queue_item option"

fun pop_statement :: "addr \<Rightarrow> pop_at \<Rightarrow> queue_mem \<Rightarrow> (pop_at \<times> queue_mem) option" where
  "pop_statement L PoTest s = do { empty \<leftarrow> LinkedListEmpty s L; Some (if empty then PoDone None else PoFirst, s) }"
| "pop_statement L PoFirst s = do { a \<leftarrow> elems s L; Some (if nxt a = NULL then PoDone None else PoItem (nxt a), s) }"
| "pop_statement L (PoItem e) s = do { c \<leftarrow> elems s e; x \<leftarrow> qitems s (obj c); Some (PoUnlink e (obj c) x, s) }"
| "pop_statement L (PoUnlink e p x) s =
     do { empty \<leftarrow> LinkedListEmpty s L; Some (if empty then PoFree p x else PoNext e p x, s) }"
| "pop_statement L (PoNext e p x) s = do { c \<leftarrow> elems s e; s \<leftarrow> set_nxt (prv c) (nxt c) s; Some (PoPrev e p x, s) }"
| "pop_statement L (PoPrev e p x) s = do { c \<leftarrow> elems s e; s \<leftarrow> set_prv (nxt c) (prv c) s; Some (PoCount e p x, s) }"
| "pop_statement L (PoCount e p x) s = Some (PoElem e p x, s\<lparr>members := (members s)(L := members s L - 1)\<rparr>)"
| "pop_statement L (PoElem e p x) s = do { s \<leftarrow> free_elem e s; Some (PoFree p x, s) }"
| "pop_statement L (PoFree p x) s = Some (PoDone (Some x), s\<lparr>qitems := (qitems s)(p := None)\<rparr>)"
| "pop_statement L (PoDone it) s = Some (PoDone it, s)"

text \<open>A thread that runs all its statements without the other has run the operation.\<close>

lemma push_by_statements:
  "push_item L x s = do { (_, s) \<leftarrow> statements (push_statement L x) 8 PuNew s; Some s }"
  "statements (push_statement L x) 8 PuNew s = Some (pc, s') \<Longrightarrow> pc = PuDone"
  by (cases x; simp add: push_item_def sequencing_queue_push_def item_new_def LinkedListAppend_def append_begin_def eval_nat_numeral
      Let_def split: prod.splits bind_splits)
    (auto simp: eval_nat_numeral split: bind_splits if_splits)

lemma pop_by_statements:
  "sequencing_queue_pop L s = do { (pc, s) \<leftarrow> statements (pop_statement L) 9 PoTest s; case pc of PoDone it \<Rightarrow> Some (it, s) | _ \<Rightarrow> None }"
  by (simp add: sequencing_queue_pop_def LinkedListFirst_def LinkedListUnlink_def eval_nat_numeral split: bind_splits)

lemma receiving_split: "receiving_iteration L r s u = do {
    (go, it, r, u) \<leftarrow> receive_and_save r u;
    s \<leftarrow> (case it of None \<Rightarrow> Some s | Some x \<Rightarrow> push_item L x s);
    Some (go, r, s, u) }"
  by (auto simp: receiving_iteration_def receive_and_save_def push_item_def Let_def split: bind_splits)

subsection \<open>The threads\<close>

datatype thread = Receiving | Sequencing

text \<open>Where the threads are: in the loop, before the lock, at a statement between lock and unlock, or after it.\<close>

datatype rcv_pc = RLoop | RLock sequencing_queue_item bool | RPush sequencing_queue_item push_at bool | RUnlock bool

datatype seq_pc = SLoop | SLock | SPop pop_at | SUnlock "sequencing_queue_item option" | SServe sequencing_queue_item

text \<open>\<open>holder\<close> is the owner of \<open>mutex\<close>.\<close>

record server_threads =
  whole :: server_state
  rcv_at :: rcv_pc
  seq_at :: seq_pc
  holder :: "thread option"

definition threads_start :: "server_state \<Rightarrow> server_threads" where
  "threads_start S = \<lparr>whole = S, rcv_at = RLoop, seq_at = SLoop, holder = None\<rparr>"

inductive thread_step ::
    "addr \<Rightarrow> tcp_client \<Rightarrow> (sockaddr_in \<times> u8 list) set \<Rightarrow> server_threads \<Rightarrow> server_threads \<Rightarrow> bool"
  for L cl D where
  arrive: "p \<in> D \<Longrightarrow> thread_step L cl D F (F\<lparr>whole := S\<lparr>udp := (udp S)\<lparr>inbox := inbox (udp S) @ [p]\<rparr>\<rparr>\<rparr>)"
    if "S = whole F"
| receive: "rcv_at F = RLoop \<Longrightarrow> 1 < avail (seq_queue S) \<Longrightarrow> receive_and_save (rcvr S) (udp S) = Some (go, it, r, u) \<Longrightarrow>
    thread_step L cl D F (F\<lparr>whole := S\<lparr>rcvr := r, udp := u, rcv_running := it \<noteq> None \<or> go\<rparr>,
      rcv_at := (case it of None \<Rightarrow> RLoop | Some x \<Rightarrow> RLock x go)\<rparr>)"
    if "S = whole F" "rcv_running S"
| rcv_lock: "rcv_at F = RLock x go \<Longrightarrow> holder F = None \<Longrightarrow>
    thread_step L cl D F (F\<lparr>rcv_at := RPush x PuNew go, holder := Some Receiving\<rparr>)"
    if "S = whole F" "rcv_running S"
| rcv_push: "rcv_at F = RPush x pc go \<Longrightarrow> push_statement L x pc (seq_queue S) = Some (pc', s) \<Longrightarrow>
    thread_step L cl D F (F\<lparr>whole := S\<lparr>seq_queue := s\<rparr>,
      rcv_at := (if pc' = PuDone then RUnlock go else RPush x pc' go)\<rparr>)"
    if "S = whole F" "rcv_running S"
| rcv_unlock: "rcv_at F = RUnlock go \<Longrightarrow>
    thread_step L cl D F (F\<lparr>whole := S\<lparr>rcv_running := go\<rparr>, rcv_at := RLoop, holder := None\<rparr>)"
    if "S = whole F" "rcv_running S"
| seq_check: "seq_at F = SLoop \<Longrightarrow> 1 < avail (seq_memory (seqr S)) \<Longrightarrow>
    sequencer_complete (seq_memory (seqr S)) (the_sequencer (seqr S)) = Some (False, m) \<Longrightarrow>
    thread_step L cl D F (F\<lparr>whole := S\<lparr>seqr := (seqr S)\<lparr>seq_memory := m\<rparr>\<rparr>, seq_at := SLock\<rparr>)"
    if "S = whole F" "seq_running S"
| seq_end: "seq_at F = SLoop \<Longrightarrow> 1 < avail (seq_memory (seqr S)) \<Longrightarrow>
    sequencer_complete (seq_memory (seqr S)) (the_sequencer (seqr S)) = Some (True, m) \<Longrightarrow>
    sequencing_exit (Some cl) ((seqr S)\<lparr>seq_memory := m\<rparr>) (tcp S) = Some (m', k) \<Longrightarrow>
    thread_step L cl D F (F\<lparr>whole := S\<lparr>rcv_running := False, seq_running := False, seqr := (seqr S)\<lparr>seq_memory := m'\<rparr>, tcp := k\<rparr>\<rparr>)"
    if "S = whole F" "seq_running S"
| seq_lock: "seq_at F = SLock \<Longrightarrow> holder F = None \<Longrightarrow>
    thread_step L cl D F (F\<lparr>seq_at := SPop PoTest, holder := Some Sequencing\<rparr>)"
    if "S = whole F" "seq_running S"
| seq_pop: "seq_at F = SPop pc \<Longrightarrow> pop_statement L pc (seq_queue S) = Some (pc', s) \<Longrightarrow>
    thread_step L cl D F (F\<lparr>whole := S\<lparr>seq_queue := s\<rparr>, seq_at := (case pc' of PoDone it \<Rightarrow> SUnlock it | _ \<Rightarrow> SPop pc')\<rparr>)"
    if "S = whole F" "seq_running S"
| seq_unlock: "seq_at F = SUnlock it \<Longrightarrow>
    thread_step L cl D F (F\<lparr>seq_at := (case it of None \<Rightarrow> SLoop | Some x \<Rightarrow> SServe x), holder := None\<rparr>)"
    if "S = whole F" "seq_running S"
| seq_serve: "seq_at F = SServe x \<Longrightarrow> serve_item (Some cl) x (seqr S) (tcp S) = Some (t, k) \<Longrightarrow>
    thread_step L cl D F (F\<lparr>whole := S\<lparr>seqr := t, tcp := k\<rparr>, seq_at := SLoop\<rparr>)"
    if "S = whole F" "seq_running S"

subsection \<open>The simulation\<close>

text \<open>A run to the end splits at every statement, and a statement before the end moves on.\<close>

lemma push_rest:
  assumes "statements (push_statement L x) k pc s = Some (PuDone, s')" "pc \<noteq> PuDone"
  shows "\<exists>pc1 s1 k1. push_statement L x pc s = Some (pc1, s1) \<and> pc1 \<noteq> pc \<and> k = Suc k1
    \<and> statements (push_statement L x) k1 pc1 s1 = Some (PuDone, s')"
proof -
  obtain k1 where k: "k = Suc k1" using assms by (cases k) auto
  obtain pc1 s1 where p: "push_statement L x pc s = Some (pc1, s1)" "statements (push_statement L x) k1 pc1 s1 = Some (PuDone, s')"
    using assms(1) unfolding k by (auto split: bind_splits)
  have "pc1 \<noteq> pc"
  proof (cases pc)
    case (PuLink new at)
    then show ?thesis
      using p(1) by (cases at) (auto split: bind_splits if_splits)
  qed (use p(1) assms(2) in \<open>auto split: bind_splits if_splits\<close>)
  with k p show ?thesis by blast
qed

lemma pop_rest:
  assumes "statements (pop_statement L) k pc s = Some (PoDone it, s')" "\<forall>i. pc \<noteq> PoDone i"
  shows "\<exists>pc1 s1 k1. pop_statement L pc s = Some (pc1, s1) \<and> pc1 \<noteq> pc \<and> avail s1 = avail s \<and> k = Suc k1
    \<and> statements (pop_statement L) k1 pc1 s1 = Some (PoDone it, s')"
proof -
  obtain k1 where k: "k = Suc k1" using assms by (cases k) auto
  obtain pc1 s1 where p: "pop_statement L pc s = Some (pc1, s1)" "statements (pop_statement L) k1 pc1 s1 = Some (PoDone it, s')"
    using assms(1) unfolding k by (auto split: bind_splits)
  have "pc1 \<noteq> pc \<and> avail s1 = avail s"
    using p(1) assms(2) by (cases pc) (auto simp: set_nxt_def set_prv_def free_elem_def split: bind_splits if_splits option.splits)
  with k p show ?thesis by blast
qed

lemma push_end: "statements (push_statement L x) k PuDone s = Some (PuDone, s)"
  by (induction k) simp_all

lemma pop_end: "statements (pop_statement L) k (PoDone it) s = Some (PoDone it, s)"
  by (induction k) simp_all

text \<open>
  \<open>T\<close> is the state of the threads, \<open>S\<close> the one in which their iterations are whole: the receiving thread's takes effect with the last
  statement of its push, the sequencing thread's with that of its pop. In between, a thread that goes on alone
  ends its operation with the list that the whole operation leaves.
\<close>

fun rcv_agrees :: "rcv_pc \<Rightarrow> server_state \<Rightarrow> server_state \<Rightarrow> bool" where
  "rcv_agrees (RLock x go) T S \<longleftrightarrow> 1 < avail (seq_queue S) \<and> receive_and_save (rcvr S) (udp S) = Some (go, Some x, rcvr T, udp T)"
| "rcv_agrees (RPush x pc go) T S \<longleftrightarrow> 1 < avail (seq_queue S) \<and> receive_and_save (rcvr S) (udp S) = Some (go, Some x, rcvr T, udp T)"
| "rcv_agrees pc T S \<longleftrightarrow> (\<forall>go. pc = RUnlock go \<longrightarrow> go) \<and> rcvr T = rcvr S \<and> udp T = udp S"

definition checked :: "server_state \<Rightarrow> server_state \<Rightarrow> bool" where
  "checked T S \<longleftrightarrow> tcp T = tcp S \<and> 1 < avail (seq_memory (seqr S))
     \<and> (\<exists>m. sequencer_complete (seq_memory (seqr S)) (the_sequencer (seqr S)) = Some (False, m) \<and> seqr T = (seqr S)\<lparr>seq_memory := m\<rparr>)"

definition serving :: "tcp_client \<Rightarrow> sequencing_queue_item \<Rightarrow> server_state \<Rightarrow> server_state \<Rightarrow> bool" where
  "serving cl x T S \<longleftrightarrow> serve_item (Some cl) x (seqr T) (tcp T) = Some (seqr S, tcp S)
     \<and> (\<exists>ms ms'. outgoing (tcp T) (client_sd cl) = concat (map ctrl_wire ms)
         \<and> outgoing (tcp S) (client_sd cl) = concat (map ctrl_wire (ms @ ms')))"

fun seq_agrees :: "tcp_client \<Rightarrow> seq_pc \<Rightarrow> server_state \<Rightarrow> server_state \<Rightarrow> bool" where
  "seq_agrees cl SLock T S \<longleftrightarrow> checked T S"
| "seq_agrees cl (SPop pc) T S \<longleftrightarrow> checked T S"
| "seq_agrees cl (SUnlock (Some x)) T S \<longleftrightarrow> serving cl x T S"
| "seq_agrees cl (SServe x) T S \<longleftrightarrow> serving cl x T S"
| "seq_agrees cl _ T S \<longleftrightarrow> seqr T = seqr S \<and> tcp T = tcp S"

text \<open>The queue: \<open>q\<close> in the threads' state and \<open>q0\<close> in the coarse one.\<close>

fun queue_agrees :: "addr \<Rightarrow> rcv_pc \<Rightarrow> seq_pc \<Rightarrow> queue_mem \<Rightarrow> queue_mem \<Rightarrow> bool" where
  "queue_agrees L (RPush x pc go) sp q q0 \<longleftrightarrow> pc \<noteq> PuDone \<and> (\<exists>s' k. push_item L x q0 = Some s'
     \<and> statements (push_statement L x) k pc q = Some (PuDone, s'))"
| "queue_agrees L rp (SPop pc) q q0 \<longleftrightarrow> avail q = avail q0 \<and> (\<forall>i. pc \<noteq> PoDone i) \<and> (\<exists>it s' k.
     sequencing_queue_pop L q0 = Some (it, s') \<and> statements (pop_statement L) k pc q = Some (PoDone it, s'))"
| "queue_agrees L rp sp q q0 \<longleftrightarrow> q = q0"

fun rcv_inside :: "rcv_pc \<Rightarrow> bool" where
  "rcv_inside (RPush _ _ _) = True"
| "rcv_inside (RUnlock _) = True"
| "rcv_inside _ = False"

fun seq_inside :: "seq_pc \<Rightarrow> bool" where
  "seq_inside (SPop _) = True"
| "seq_inside (SUnlock _) = True"
| "seq_inside _ = False"

definition mutex_inv :: "server_threads \<Rightarrow> bool" where
  "mutex_inv F \<longleftrightarrow> (holder F = Some Receiving \<longleftrightarrow> rcv_inside (rcv_at F)) \<and> (holder F = Some Sequencing \<longleftrightarrow> seq_inside (seq_at F))"

definition agrees :: "addr \<Rightarrow> tcp_client \<Rightarrow> server_threads \<Rightarrow> server_state \<Rightarrow> bool" where
  "agrees L cl F S \<longleftrightarrow> mutex_inv F \<and> rcv_running (whole F) \<and> seq_running (whole F)
     \<and> rcv_agrees (rcv_at F) (whole F) S \<and> seq_agrees cl (seq_at F) (whole F) S
     \<and> queue_agrees L (rcv_at F) (seq_at F) (seq_queue (whole F)) (seq_queue S)"

lemma queue_agrees_same:
  "queue_agrees L rp sp q q0 \<Longrightarrow> \<not> rcv_inside rp \<Longrightarrow> \<not> seq_inside sp \<Longrightarrow> q = q0"
  "\<not> rcv_inside rp \<Longrightarrow> \<not> seq_inside sp \<Longrightarrow> queue_agrees L rp sp q q"
  by (cases "(L, rp, sp, q, q0)" rule: queue_agrees.cases; simp)+

lemma queue_agrees_avail: "queue_agrees L rp sp q q0 \<Longrightarrow> \<not> rcv_inside rp \<Longrightarrow> avail q = avail q0"
  by (cases "(L, rp, sp, q, q0)" rule: queue_agrees.cases) simp_all

lemma queue_agrees_rcv: "\<not> rcv_inside rp \<Longrightarrow> \<not> rcv_inside rp' \<Longrightarrow> queue_agrees L rp sp q q0 = queue_agrees L rp' sp q q0"
  by (cases rp; cases rp'; cases sp) simp_all

lemma queue_agrees_seq: "\<not> seq_inside sp \<Longrightarrow> \<not> seq_inside sp' \<Longrightarrow> queue_agrees L rp sp q q0 = queue_agrees L rp sp' q q0"
  by (cases rp; cases sp; cases sp') simp_all

text \<open>A datagram that arrives while the receiving thread works on an earlier one waits behind it.\<close>

lemma receive_and_save_arrive:
  assumes "receive_and_save r u = Some (go, it, r', u')"
  shows "receive_and_save r (u\<lparr>inbox := inbox u @ [p]\<rparr>) = Some (go, it, r', u'\<lparr>inbox := inbox u' @ [p]\<rparr>)"
  using assms by (auto simp: receive_and_save_def udp_socket_receive_from_def Let_def split: list.splits bind_splits if_splits)

lemma commit_receive:
  assumes v: "server_inv b L cl I ms n S" and r: "rcv_agrees (RPush x pc go) T S" and p: "push_item L x (seq_queue S) = Some s"
  shows "go" and "server_step L cl D S (S\<lparr>rcvr := rcvr T, rcv_running := True, seq_queue := s, udp := udp T\<rparr>)"
proof -
  have a: "1 < avail (seq_queue S)" "rcv_running S" using v r by (simp_all add: server_inv_def)
  have it: "receiving_iteration L (rcvr S) (seq_queue S) (udp S) = Some (go, rcvr T, s, udp T)"
    using r p by (auto simp: receiving_split)
  show "go" using server_inv_receive [OF v a(1) it] by (auto simp: server_inv_def)
  then show "server_step L cl D S (S\<lparr>rcvr := rcvr T, rcv_running := True, seq_queue := s, udp := udp T\<rparr>)"
    using server_step.receive [OF a(2,1) it, of cl D] by simp
qed

lemma commit_sequence:
  assumes v: "server_inv b L cl I ms n S" and c: "checked T S" and pop: "sequencing_queue_pop L (seq_queue S) = Some (it, s)"
  shows "case it of
      None \<Rightarrow> server_step L cl D S (S\<lparr>seq_queue := s, seqr := seqr T, tcp := tcp T\<rparr>)
    | Some x \<Rightarrow> \<exists>t k. server_step L cl D S (S\<lparr>seq_queue := s, seqr := t, tcp := k\<rparr>) \<and> avail s = avail (seq_queue S)
        \<and> serving cl x T (S\<lparr>seq_queue := s, seqr := t, tcp := k\<rparr>)"
proof -
  obtain m where m: "sequencer_complete (seq_memory (seqr S)) (the_sequencer (seqr S)) = Some (False, m)"
      "seqr T = (seqr S)\<lparr>seq_memory := m\<rparr>" "tcp T = tcp S" "1 < avail (seq_memory (seqr S))"
    using c by (auto simp: checked_def)
  obtain t s' k ms' where it: "sequencing_iteration L (Some cl) (seqr S) (seq_queue S) (tcp S) = Some (False, t, s', k)"
      "server_inv b L cl I (ms @ ms') (tl n) (S\<lparr>seq_queue := s', seqr := t, tcp := k\<rparr>)" "avail s' = avail (seq_queue S)"
    using server_sequence_item [OF v m(4)] by blast
  have run: "seq_running S" using v by (simp add: server_inv_def)
  note st = server_step.sequence [OF run m(4) it(1), of D]
  show ?thesis
  proof (cases it)
    case None
    then have "t = seqr T" "s' = s" "k = tcp T" using it(1) m(1-3) pop by (auto simp: sequencing_split)
    then show ?thesis using st None by simp
  next
    case (Some x)
    then have "s' = s" "serve_item (Some cl) x (seqr T) (tcp T) = Some (t, k)"
      using it(1) m(1-3) pop by (auto simp: sequencing_split split: bind_splits)
    moreover have "outgoing (tcp T) (client_sd cl) = concat (map ctrl_wire ms)" "outgoing k (client_sd cl) = concat (map ctrl_wire (ms @ ms'))"
      using v it(2) m(3) by (simp_all add: server_inv_def sent_inv_def)
    ultimately show ?thesis using st it(3) Some by (auto simp: serving_def simp del: map_append concat_append)
  qed
qed

lemma rcv_agrees_arrive:
  "rcv_agrees pc T S \<Longrightarrow> rcv_agrees pc (T\<lparr>udp := (udp T)\<lparr>inbox := inbox (udp T) @ [p]\<rparr>\<rparr>) (S\<lparr>udp := (udp S)\<lparr>inbox := inbox (udp S) @ [p]\<rparr>\<rparr>)"
  by (cases pc) (auto simp: receive_and_save_arrive)

lemma seq_agrees_cong:
  "seq_agrees cl pc T S \<Longrightarrow> seqr T' = seqr T \<Longrightarrow> tcp T' = tcp T \<Longrightarrow> seqr S' = seqr S \<Longrightarrow> tcp S' = tcp S \<Longrightarrow> seq_agrees cl pc T' S'"
  by (cases "(cl, pc, T, S)" rule: seq_agrees.cases) (auto simp: checked_def serving_def)

lemma rcv_agrees_cong:
  "rcv_agrees pc T S \<Longrightarrow> rcvr T' = rcvr T \<Longrightarrow> udp T' = udp T \<Longrightarrow>
    rcvr S' = rcvr S \<Longrightarrow> udp S' = udp S \<Longrightarrow> avail (seq_queue S') = avail (seq_queue S) \<Longrightarrow> rcv_agrees pc T' S'"
  by (cases pc) auto

text \<open>A step of the receiving thread, with the sequencing thread anywhere.\<close>

lemma push_simulates:
  assumes v: "server_inv b L cl I ms n S" and g: "agrees L cl F S" and pc: "rcv_at F = RPush x pc go"
    and st: "push_statement L x pc (seq_queue (whole F)) = Some (pc', s)"
  shows "\<exists>S'. (S' = S \<or> server_step L cl D S S') \<and> agrees L cl (F\<lparr>whole := (whole F)\<lparr>seq_queue := s\<rparr>,
      rcv_at := (if pc' = PuDone then RUnlock go else RPush x pc' go)\<rparr>) S'"
proof -
  let ?T = "whole F"
  have ag: "rcv_running ?T" "seq_running ?T" "rcv_agrees (RPush x pc go) ?T S" "seq_agrees cl (seq_at F) ?T S"
      "holder F = Some Receiving" "\<not> seq_inside (seq_at F)"
    using g pc by (auto simp: agrees_def mutex_inv_def)
  obtain s' k where p: "pc \<noteq> PuDone" "push_item L x (seq_queue S) = Some s'"
      "statements (push_statement L x) k pc (seq_queue ?T) = Some (PuDone, s')" using g pc by (auto simp: agrees_def)
  obtain k1 where k1: "statements (push_statement L x) k1 pc' s = Some (PuDone, s')" using push_rest [OF p(3,1)] st by auto
  show ?thesis
  proof (cases "pc' = PuDone")
    case True
    define S' where "S' = S\<lparr>rcvr := rcvr ?T, rcv_running := True, seq_queue := s', udp := udp ?T\<rparr>"
    have "s = s'" using k1 push_end [of L x k1 s] True by simp
    moreover have "seq_agrees cl (seq_at F) (?T\<lparr>seq_queue := s'\<rparr>) S'" by (rule seq_agrees_cong [OF ag(4)]) (simp_all add: S'_def)
    moreover have "queue_agrees L (RUnlock go) (seq_at F) s' s'" by (cases "seq_at F") (use ag(6) in simp_all)
    ultimately have "agrees L cl (F\<lparr>whole := ?T\<lparr>seq_queue := s\<rparr>, rcv_at := RUnlock go\<rparr>) S'"
      using commit_receive(1) [OF v ag(3) p(2)] ag by (simp add: agrees_def mutex_inv_def S'_def)
    then show ?thesis using commit_receive(2) [OF v ag(3) p(2), of D] True unfolding S'_def by auto
  next
    case False
    have "seq_agrees cl (seq_at F) (?T\<lparr>seq_queue := s\<rparr>) S" by (rule seq_agrees_cong [OF ag(4)]) simp_all
    then have "agrees L cl (F\<lparr>whole := ?T\<lparr>seq_queue := s\<rparr>, rcv_at := RPush x pc' go\<rparr>) S"
      using ag p(2) k1 False by (auto simp: agrees_def mutex_inv_def)
    then show ?thesis using False by auto
  qed
qed

lemma receiving_simulates:
  assumes v: "server_inv b L cl I ms n S" and g: "agrees L cl F S" and st: "thread_step L cl D F F'" and rcv: "rcv_at F' \<noteq> rcv_at F"
  shows "\<exists>S'. (S' = S \<or> server_step L cl D S S') \<and> agrees L cl F' S'"
proof -
  have ag: "mutex_inv F" "rcv_running (whole F)" "seq_running (whole F)" "rcv_agrees (rcv_at F) (whole F) S"
      "seq_agrees cl (seq_at F) (whole F) S" "queue_agrees L (rcv_at F) (seq_at F) (seq_queue (whole F)) (seq_queue S)"
    using g by (simp_all add: agrees_def)
  from st show ?thesis
  proof (cases rule: thread_step.cases)
    case (receive T go it r u)
    obtain x where x: "it = Some x" using receive(1,4) rcv by (cases it) simp_all
    have "1 < avail (seq_queue S)" using queue_agrees_avail [OF ag(6)] receive by simp
    then have "rcv_agrees (RLock x go) (whole F') S" using ag(4) receive x by simp
    moreover have "seq_agrees cl (seq_at F) (whole F') S" by (rule seq_agrees_cong [OF ag(5)]) (simp_all add: receive)
    moreover have "queue_agrees L (RLock x go) (seq_at F) (seq_queue (whole F)) (seq_queue S)"
      using ag(6) queue_agrees_rcv [of RLoop "RLock x go"] receive by simp
    ultimately show ?thesis using ag(1-3) x receive by (intro exI [of _ S]) (simp add: agrees_def mutex_inv_def)
  next
    case (rcv_lock T x go)
    have out: "\<not> seq_inside (seq_at F)" using ag(1) rcv_lock by (simp add: mutex_inv_def)
    have q: "seq_queue (whole F) = seq_queue S" using queue_agrees_same(1) [OF ag(6)] out rcv_lock by simp
    have a: "1 < avail (seq_queue S)" using ag(4) rcv_lock by simp
    have "\<exists>s'. push_item L x (seq_queue S) = Some s'"
    proof -
      obtain QF qs xs where "qrep QF L (seq_queue S) qs xs" using v unfolding server_inv_def queue_inv_def by blast
      from queue_push [OF this a] show ?thesis unfolding push_item_def by blast
    qed
    then obtain s' where s': "push_item L x (seq_queue S) = Some s'" ..
    then have "statements (push_statement L x) 8 PuNew (seq_queue S) = Some (PuDone, s')"
      using push_by_statements by (fastforce split: bind_splits)
    then have "queue_agrees L (RPush x PuNew go) (seq_at F) (seq_queue (whole F)) (seq_queue S)" using s' q by auto
    then show ?thesis using ag(1-5) out rcv_lock by (intro exI [of _ S]) (auto simp: agrees_def mutex_inv_def)
  next
    case (rcv_push T x pc go pc' s)
    then show ?thesis using push_simulates [OF v g] by simp
  next
    case (rcv_unlock T go)
    have out: "\<not> seq_inside (seq_at F)" using ag(1) rcv_unlock by (auto simp: mutex_inv_def)
    have "queue_agrees L RLoop (seq_at F) (seq_queue (whole F)) (seq_queue S)"
      using ag(6) out rcv_unlock by (cases "seq_at F") simp_all
    moreover have "seq_agrees cl (seq_at F) (whole F') S" by (rule seq_agrees_cong [OF ag(5)]) (simp_all add: rcv_unlock)
    ultimately show ?thesis using ag(1-4) out rcv_unlock by (intro exI [of _ S]) (auto simp: agrees_def mutex_inv_def)
  qed (use rcv in simp_all)
qed

lemma metadata_simulates:
  assumes v: "server_inv b L cl I ms n S" and g: "agrees L cl F S" and pc: "rcv_at F = RLoop"
    and a: "1 < avail (seq_queue (whole F))" and r: "receive_and_save (rcvr (whole F)) (udp (whole F)) = Some (go, None, r, u)"
  shows "go \<and> server_step L cl D S (S\<lparr>rcvr := r, rcv_running := True, udp := u\<rparr>)"
proof -
  have s: "rcvr (whole F) = rcvr S" "udp (whole F) = udp S" "avail (seq_queue (whole F)) = avail (seq_queue S)"
    using g pc queue_agrees_avail by (auto simp: agrees_def)
  have it: "receiving_iteration L (rcvr S) (seq_queue S) (udp S) = Some (go, r, seq_queue S, u)"
    using r s by (simp add: receiving_split)
  have a': "1 < avail (seq_queue S)" "rcv_running S" using a v s by (simp_all add: server_inv_def)
  have go: "go" using server_inv_receive [OF v a'(1) it] by (auto simp: server_inv_def)
  then show ?thesis using server_step.receive [OF a'(2,1) it, of cl D] by simp
qed

text \<open>The other steps: the network's, a datagram that is no data packet, and those of the sequencing thread.\<close>

lemma arrive_simulates:
  assumes g: "agrees L cl F S" and p: "p \<in> D"
  shows "\<exists>S'. server_step L cl D S S'
    \<and> agrees L cl (F\<lparr>whole := (whole F)\<lparr>udp := (udp (whole F))\<lparr>inbox := inbox (udp (whole F)) @ [p]\<rparr>\<rparr>\<rparr>) S'"
proof -
  let ?S = "S\<lparr>udp := (udp S)\<lparr>inbox := inbox (udp S) @ [p]\<rparr>\<rparr>"
    and ?T = "(whole F)\<lparr>udp := (udp (whole F))\<lparr>inbox := inbox (udp (whole F)) @ [p]\<rparr>\<rparr>"
  have ag: "rcv_agrees (rcv_at F) (whole F) S" "seq_agrees cl (seq_at F) (whole F) S" using g by (simp_all add: agrees_def)
  have "rcv_agrees (rcv_at F) ?T ?S" by (rule rcv_agrees_arrive [OF ag(1)])
  moreover have "seq_agrees cl (seq_at F) ?T ?S" by (rule seq_agrees_cong [OF ag(2)]) simp_all
  ultimately have "agrees L cl (F\<lparr>whole := ?T\<rparr>) ?S" using g by (simp add: agrees_def mutex_inv_def)
  then show ?thesis using server_step.arrive [OF p, of L cl S] by blast
qed

lemma pop_simulates:
  assumes v: "server_inv b L cl I ms n S" and g: "agrees L cl F S" and pc: "seq_at F = SPop pc"
    and st: "pop_statement L pc (seq_queue (whole F)) = Some (pc', s)"
  shows "\<exists>S'. (S' = S \<or> server_step L cl D S S') \<and> agrees L cl (F\<lparr>whole := (whole F)\<lparr>seq_queue := s\<rparr>,
      seq_at := (case pc' of PoDone it \<Rightarrow> SUnlock it | _ \<Rightarrow> SPop pc')\<rparr>) S'"
proof -
  let ?T = "whole F"
  have ag: "rcv_running ?T" "seq_running ?T" "rcv_agrees (rcv_at F) ?T S" "checked ?T S" "holder F = Some Sequencing"
      "\<not> rcv_inside (rcv_at F)"
    using g pc by (auto simp: agrees_def mutex_inv_def)
  have "queue_agrees L RLoop (SPop pc) (seq_queue ?T) (seq_queue S)"
    using g pc queue_agrees_rcv [of "rcv_at F" RLoop] ag(6) by (simp add: agrees_def)
  then obtain it s' k where p: "avail (seq_queue ?T) = avail (seq_queue S)" "\<forall>i. pc \<noteq> PoDone i"
      "sequencing_queue_pop L (seq_queue S) = Some (it, s')"
      "statements (pop_statement L) k pc (seq_queue ?T) = Some (PoDone it, s')" by auto
  obtain k1 where k1: "statements (pop_statement L) k1 pc' s = Some (PoDone it, s')" "avail s = avail (seq_queue S)"
    using pop_rest [OF p(4,2)] st p(1) by auto
  show ?thesis
  proof (cases "\<exists>i. pc' = PoDone i")
    case True
    then have e: "pc' = PoDone it" "s = s'" using k1(1) pop_end by (auto simp: pop_end)
    have q: "queue_agrees L (rcv_at F) (SUnlock it) s s" by (cases "rcv_at F") (use ag(6) in simp_all)
    show ?thesis
    proof (cases it)
      case None
      let ?S = "S\<lparr>seq_queue := s', seqr := seqr ?T, tcp := tcp ?T\<rparr>"
      have "server_step L cl D S ?S" using commit_sequence [OF v ag(4) p(3), of D] None by simp
      moreover have "rcv_agrees (rcv_at F) (?T\<lparr>seq_queue := s\<rparr>) ?S"
        by (rule rcv_agrees_cong [OF ag(3)]) (use k1(2) e(2) in simp_all)
      then have "agrees L cl (F\<lparr>whole := ?T\<lparr>seq_queue := s\<rparr>, seq_at := SUnlock None\<rparr>) ?S"
        using ag(1,2,5,6) q e(2) None by (simp add: agrees_def mutex_inv_def)
      ultimately show ?thesis using e(1) None by (intro exI [of _ ?S]) simp
    next
      case (Some x)
      from commit_sequence [OF v ag(4) p(3), of D] Some obtain t k where
        c: "server_step L cl D S (S\<lparr>seq_queue := s', seqr := t, tcp := k\<rparr>)"
          "serving cl x ?T (S\<lparr>seq_queue := s', seqr := t, tcp := k\<rparr>)" by auto
      let ?S = "S\<lparr>seq_queue := s', seqr := t, tcp := k\<rparr>"
      have "rcv_agrees (rcv_at F) (?T\<lparr>seq_queue := s\<rparr>) ?S"
        by (rule rcv_agrees_cong [OF ag(3)]) (use k1(2) e(2) in simp_all)
      moreover have "serving cl x (?T\<lparr>seq_queue := s\<rparr>) ?S" using c(2) by (simp add: serving_def)
      ultimately have "agrees L cl (F\<lparr>whole := ?T\<lparr>seq_queue := s\<rparr>, seq_at := SUnlock (Some x)\<rparr>) ?S"
        using ag(1,2,5,6) q e(2) Some by (simp add: agrees_def mutex_inv_def)
      then show ?thesis using c(1) e(1) Some by (intro exI [of _ ?S]) simp
    qed
  next
    case False
    have "rcv_agrees (rcv_at F) (?T\<lparr>seq_queue := s\<rparr>) S" by (rule rcv_agrees_cong [OF ag(3)]) simp_all
    moreover have "queue_agrees L RLoop (SPop pc') s (seq_queue S)" using p(3) k1 False by auto
    then have "queue_agrees L (rcv_at F) (SPop pc') s (seq_queue S)" using queue_agrees_rcv [of "rcv_at F" RLoop] ag(6) by simp
    moreover have "checked (?T\<lparr>seq_queue := s\<rparr>) S" using ag(4) by (simp add: checked_def)
    ultimately have "agrees L cl (F\<lparr>whole := ?T\<lparr>seq_queue := s\<rparr>, seq_at := SPop pc'\<rparr>) S"
      using ag(1,2,5,6) by (simp add: agrees_def mutex_inv_def)
    then show ?thesis using False by (intro exI [of _ S]) (cases pc'; simp)
  qed
qed

lemma sequencing_simulates:
  assumes v: "server_inv b L cl I ms n S" and g: "agrees L cl F S" and st: "thread_step L cl D F F'" and rcv: "rcv_at F' = rcv_at F"
  shows "\<exists>S'. (S' = S \<or> server_step L cl D S S') \<and> agrees L cl F' S'"
proof -
  have ag: "mutex_inv F" "rcv_running (whole F)" "seq_running (whole F)" "rcv_agrees (rcv_at F) (whole F) S"
      "seq_agrees cl (seq_at F) (whole F) S" "queue_agrees L (rcv_at F) (seq_at F) (seq_queue (whole F)) (seq_queue S)"
    using g by (simp_all add: agrees_def)
  from st show ?thesis
  proof (cases rule: thread_step.cases)
    case (arrive T p)
    then show ?thesis using arrive_simulates [OF g] by blast
  next
    case (receive T go it r u)
    have it: "it = None" using receive rcv by (cases it) simp_all
    have c: "1 < avail (seq_queue (whole F))" "receive_and_save (rcvr (whole F)) (udp (whole F)) = Some (go, None, r, u)"
      using receive it by simp_all
    note m = metadata_simulates [OF v g receive(4) c, of D]
    have "seq_agrees cl (seq_at F) (whole F') (S\<lparr>rcvr := r, rcv_running := True, udp := u\<rparr>)"
      by (rule seq_agrees_cong [OF ag(5)]) (simp_all add: receive)
    then have "agrees L cl F' (S\<lparr>rcvr := r, rcv_running := True, udp := u\<rparr>)"
      using m ag it receive by (simp add: agrees_def mutex_inv_def)
    then show ?thesis using m by blast
  next
    case (rcv_push T x pc go pc' s)
    then show ?thesis using push_simulates [OF v g] by simp
  next
    case (seq_check T m)
    have "seq_agrees cl SLock (whole F') S" using ag(5) seq_check by (auto simp: checked_def)
    moreover have "rcv_agrees (rcv_at F) (whole F') S" by (rule rcv_agrees_cong [OF ag(4)]) (simp_all add: seq_check)
    moreover have "queue_agrees L (rcv_at F) SLock (seq_queue (whole F)) (seq_queue S)"
      using ag(6) queue_agrees_seq [of SLoop SLock] seq_check by simp
    ultimately show ?thesis using ag(1-3) seq_check by (intro exI [of _ S]) (simp add: agrees_def mutex_inv_def)
  next
    case (seq_end T m m' k)
    have "seqr T = seqr S" using ag(5) seq_end by simp
    then have False using server_sequence_item [OF v] seq_end by (auto simp: sequencing_split)
    then show ?thesis ..
  next
    case (seq_lock T)
    have out: "\<not> rcv_inside (rcv_at F)" using ag(1) seq_lock by (simp add: mutex_inv_def)
    have q: "seq_queue (whole F) = seq_queue S" using queue_agrees_same(1) [OF ag(6) out] seq_lock by simp
    obtain QF qs xs where "qrep QF L (seq_queue S) qs xs" using v unfolding server_inv_def queue_inv_def by blast
    then obtain it s' where s': "sequencing_queue_pop L (seq_queue S) = Some (it, s')" using queue_pop by fastforce
    then have "statements (pop_statement L) 9 PoTest (seq_queue S) = Some (PoDone it, s')"
      by (auto simp: pop_by_statements split: bind_splits pop_at.splits)
    then have "queue_agrees L RLoop (SPop PoTest) (seq_queue (whole F)) (seq_queue S)" using s' q by auto
    then have "queue_agrees L (rcv_at F) (SPop PoTest) (seq_queue (whole F)) (seq_queue S)"
      using queue_agrees_rcv [of "rcv_at F" RLoop] out by simp
    then show ?thesis using ag(1-5) out seq_lock by (intro exI [of _ S]) (auto simp: agrees_def mutex_inv_def)
  next
    case (seq_pop T pc pc' s)
    then show ?thesis using pop_simulates [OF v g] by simp
  next
    case (seq_unlock T it)
    have out: "\<not> rcv_inside (rcv_at F)" using ag(1) seq_unlock by (auto simp: mutex_inv_def)
    have "queue_agrees L (rcv_at F) (case it of None \<Rightarrow> SLoop | Some x \<Rightarrow> SServe x) (seq_queue (whole F)) (seq_queue S)"
      using ag(6) out seq_unlock by (cases "rcv_at F") (simp_all split: option.splits)
    then show ?thesis using ag(1-5) out seq_unlock by (intro exI [of _ S]) (auto simp: agrees_def mutex_inv_def split: option.splits)
  next
    case (seq_serve T x t k)
    have "serving cl x T S" using ag(5) seq_serve by simp
    then have "seqr S = t" "tcp S = k" using seq_serve by (simp_all add: serving_def)
    moreover have "rcv_agrees (rcv_at F) (whole F') S" by (rule rcv_agrees_cong [OF ag(4)]) (simp_all add: seq_serve)
    moreover have "queue_agrees L (rcv_at F) SLoop (seq_queue (whole F)) (seq_queue S)"
      using ag(6) queue_agrees_seq [of "SServe x" SLoop] seq_serve by simp
    ultimately show ?thesis using ag(1-3) seq_serve by (intro exI [of _ S]) (simp add: agrees_def mutex_inv_def)
  qed (use ag rcv in \<open>auto intro!: exI [of _ S] simp: agrees_def mutex_inv_def split: option.splits if_splits\<close>)
qed

lemma threads_simulate:
  assumes "(thread_step L cl (part_datagrams b))\<^sup>*\<^sup>* (threads_start S0) F" "server_start b L cl S0"
  shows "\<exists>S I ms n. (server_step L cl (part_datagrams b))\<^sup>*\<^sup>* S0 S \<and> agrees L cl F S \<and> server_inv b L cl I ms n S"
  using assms(1)
proof (induction rule: rtranclp_induct)
  case base
  have "agrees L cl (threads_start S0) S0"
    using assms(2) by (simp add: agrees_def threads_start_def mutex_inv_def server_start_def)
  then show ?case using server_start_inv [OF assms(2)] by blast
next
  case (step F F')
  then obtain S I ms n where S: "(server_step L cl (part_datagrams b))\<^sup>*\<^sup>* S0 S" "agrees L cl F S" "server_inv b L cl I ms n S"
    by blast
  obtain S' where S': "S' = S \<or> server_step L cl (part_datagrams b) S S'" "agrees L cl F' S'"
    using receiving_simulates [OF S(3,2) step(2)] sequencing_simulates [OF S(3,2) step(2)] by blast
  then have r: "(server_step L cl (part_datagrams b))\<^sup>*\<^sup>* S0 S'" using S(1) by (auto intro: rtranclp.rtrancl_into_rtrancl)
  from server_reachable_inv [OF this assms(2)] r S'(2) show ?case by blast
qed

subsection \<open>No thread waits for ever\<close>

lemma receiving_moves:
  assumes g: "agrees L cl F S" and inside: "rcv_inside (rcv_at F)"
  shows "\<exists>F'. thread_step L cl D F F' \<and> rcv_at F' \<noteq> rcv_at F"
proof -
  have run: "rcv_running (whole F)" and q: "queue_agrees L (rcv_at F) (seq_at F) (seq_queue (whole F)) (seq_queue S)"
    using g by (simp_all add: agrees_def)
  show ?thesis
  proof (cases "rcv_at F")
    case (RPush x pc go)
    then obtain s' k where p: "pc \<noteq> PuDone" "statements (push_statement L x) k pc (seq_queue (whole F)) = Some (PuDone, s')"
      using q by auto
    from push_rest [OF p(2,1)] obtain pc1 s1 where s1: "push_statement L x pc (seq_queue (whole F)) = Some (pc1, s1)" "pc1 \<noteq> pc" by blast
    let ?F = "F\<lparr>whole := (whole F)\<lparr>seq_queue := s1\<rparr>, rcv_at := (if pc1 = PuDone then RUnlock go else RPush x pc1 go)\<rparr>"
    have "thread_step L cl D F ?F" by (rule thread_step.rcv_push [OF refl run RPush s1(1)])
    then show ?thesis using RPush s1(2) by (intro exI [of _ ?F]) simp
  next
    case (RUnlock go)
    from thread_step.rcv_unlock [OF refl run RUnlock] show ?thesis using RUnlock by fastforce
  qed (use inside in simp_all)
qed

lemma threads_move:
  assumes v: "server_inv b L cl I ms n S" and g: "agrees L cl F S" and a: "seq_at F = SLoop \<longrightarrow> 1 < avail (seq_memory (seqr (whole F)))"
  shows "\<exists>F'. thread_step L cl D F F' \<and> (seq_inside (seq_at F) \<longrightarrow> seq_at F' \<noteq> seq_at F)"
proof -
  let ?T = "whole F"
  have run: "seq_running ?T" and s: "seq_agrees cl (seq_at F) ?T S" and m: "mutex_inv F"
    using g by (simp_all add: agrees_def)
  show ?thesis
  proof (cases "seq_at F")
    case SLoop
    then have a': "1 < avail (seq_memory (seqr ?T))" "seqr ?T = seqr S" using a s by simp_all
    then obtain m where "sequencer_complete (seq_memory (seqr ?T)) (the_sequencer (seqr ?T)) = Some (False, m)"
      using server_sequence_item [OF v] a' by (fastforce simp: sequencing_split split: bind_splits if_splits)
    then show ?thesis using thread_step.seq_check [OF refl run SLoop a'(1)] SLoop by fastforce
  next
    case SLock
    show ?thesis
    proof (cases "holder F")
      case None
      then show ?thesis using thread_step.seq_lock [OF refl run SLock] SLock by fastforce
    next
      case (Some h)
      then have "rcv_inside (rcv_at F)" using m SLock by (cases h) (auto simp: mutex_inv_def)
      then show ?thesis using receiving_moves [OF g] SLock by fastforce
    qed
  next
    case (SPop pc)
    have "\<not> rcv_inside (rcv_at F)" using m SPop by (auto simp: mutex_inv_def)
    then have "queue_agrees L RLoop (SPop pc) (seq_queue ?T) (seq_queue S)"
      using g SPop queue_agrees_rcv [of "rcv_at F" RLoop] by (simp add: agrees_def)
    then obtain it s' k where p: "\<forall>i. pc \<noteq> PoDone i" "statements (pop_statement L) k pc (seq_queue ?T) = Some (PoDone it, s')" by auto
    from pop_rest [OF p(2,1)] obtain pc1 s1 where s1: "pop_statement L pc (seq_queue ?T) = Some (pc1, s1)" "pc1 \<noteq> pc" by blast
    have "(case pc1 of PoDone it \<Rightarrow> SUnlock it | _ \<Rightarrow> SPop pc1) \<noteq> SPop pc" using s1(2) by (cases pc1) simp_all
    with thread_step.seq_pop [OF refl run SPop s1(1)] show ?thesis using SPop by fastforce
  next
    case (SUnlock it)
    from thread_step.seq_unlock [OF refl run SUnlock] show ?thesis using SUnlock by (fastforce split: option.splits)
  next
    case (SServe x)
    then have "serve_item (Some cl) x (seqr ?T) (tcp ?T) = Some (seqr S, tcp S)" using s by (simp add: serving_def)
    from thread_step.seq_serve [OF refl run SServe this] show ?thesis using SServe by fastforce
  qed
qed

subsection \<open>Files and replies\<close>

text \<open>The file of the receiving thread is never behind the replies that are on the wire.\<close>

lemma agrees_file:
  assumes v: "server_inv b L cl I ms n S" and r: "rcv_agrees pc T S"
  shows "\<exists>I'. I \<subseteq> I' \<and> I' \<subseteq> {0..<packet_count b} \<and> file_inv b I' (rcvr T)"
proof (cases "rcvr T = rcvr S")
  case True
  then show ?thesis using v by (intro exI [of _ I]) (simp add: server_inv_def)
next
  case False
  then obtain go x where x: "receive_and_save (rcvr S) (udp S) = Some (go, Some x, rcvr T, udp T)" "1 < avail (seq_queue S)"
    using r by (cases pc) auto
  have "inbox (udp S) \<noteq> []" using x(1) by (auto simp: receive_and_save_def udp_socket_receive_from_def)
  then obtain y rest where "inbox (udp S) = y # rest" by (cases "inbox (udp S)") auto
  from server_receive_any [OF v x(2) this] obtain r' s I' n' u where
    "receiving_iteration L (rcvr S) (seq_queue S) (udp S) = Some (True, r', s, u)" "I \<subseteq> I'"
    "server_inv b L cl I' ms (n @ n') (S\<lparr>rcvr := r', rcv_running := True, seq_queue := s, udp := u\<rparr>)" by blast
  moreover from this(1) have "r' = rcvr T" using x(1) by (auto simp: receiving_split split: bind_splits)
  ultimately show ?thesis by (auto simp: server_inv_def)
qed

lemma agrees_acked:
  assumes "seq_agrees cl pc T S" "acked (outgoing (tcp T) (client_sd cl)) i"
  shows "acked (outgoing (tcp S) (client_sd cl)) i"
proof -
  consider "tcp T = tcp S" | x where "serving cl x T S"
    using assms(1) by (cases "(cl, pc, T, S)" rule: seq_agrees.cases) (auto simp: checked_def)
  then show ?thesis
  proof cases
    case 2
    then obtain ms ms' where "outgoing (tcp T) (client_sd cl) = concat (map ctrl_wire ms)"
        "outgoing (tcp S) (client_sd cl) = concat (map ctrl_wire (ms @ ms'))" unfolding serving_def by blast
    then have "ctrl_frames (outgoing (tcp T) (client_sd cl)) = map ctrl_wire ms"
        "ctrl_frames (outgoing (tcp S) (client_sd cl)) = map ctrl_wire (ms @ ms')" by (simp_all only: ctrl_frames_wire)
    then show ?thesis using assms(2) by (auto simp: acked_def)
  qed (use assms(2) in simp)
qed

subsection \<open>Every coarse step is a run of the threads\<close>

text \<open>A thread in its operation runs to the end of it.\<close>

lemma push_run:
  assumes "statements (push_statement L x) k pc (seq_queue S) = Some (PuDone, s)" "pc \<noteq> PuDone" "rcv_running S"
  shows "(thread_step L cl D)\<^sup>*\<^sup>* \<lparr>whole = S, rcv_at = RPush x pc go, seq_at = sp, holder = h\<rparr>
    \<lparr>whole = S\<lparr>seq_queue := s\<rparr>, rcv_at = RUnlock go, seq_at = sp, holder = h\<rparr>"
  using assms
proof (induction k arbitrary: pc S)
  case (Suc k)
  obtain pc1 s1 where p: "push_statement L x pc (seq_queue S) = Some (pc1, s1)"
      "statements (push_statement L x) k pc1 s1 = Some (PuDone, s)" using push_rest [OF Suc.prems(1,2)] by auto
  let ?F = "\<lambda>S rp. \<lparr>whole = S, rcv_at = rp, seq_at = sp, holder = h\<rparr>"
  have st: "thread_step L cl D (?F S (RPush x pc go)) (?F (S\<lparr>seq_queue := s1\<rparr>) (if pc1 = PuDone then RUnlock go else RPush x pc1 go))"
    using thread_step.rcv_push [of S "?F S (RPush x pc go)" x pc go L pc1 s1 cl D] p(1) Suc.prems(3) by simp
  show ?case
  proof (cases "pc1 = PuDone")
    case True
    then have "s1 = s" using p(2) push_end [of L x k s1] by simp
    then show ?thesis using st True by (intro r_into_rtranclp) simp
  next
    case False
    from Suc.IH [of pc1 "S\<lparr>seq_queue := s1\<rparr>"] p(2) False Suc.prems(3) st show ?thesis
      by (simp add: converse_rtranclp_into_rtranclp)
  qed
qed simp

lemma pop_run:
  assumes "statements (pop_statement L) k pc (seq_queue S) = Some (PoDone it, s)" "\<forall>i. pc \<noteq> PoDone i" "seq_running S"
  shows "(thread_step L cl D)\<^sup>*\<^sup>* \<lparr>whole = S, rcv_at = rp, seq_at = SPop pc, holder = h\<rparr>
    \<lparr>whole = S\<lparr>seq_queue := s\<rparr>, rcv_at = rp, seq_at = SUnlock it, holder = h\<rparr>"
  using assms
proof (induction k arbitrary: pc S)
  case (Suc k)
  obtain pc1 s1 where p: "pop_statement L pc (seq_queue S) = Some (pc1, s1)"
      "statements (pop_statement L) k pc1 s1 = Some (PoDone it, s)" using pop_rest [OF Suc.prems(1,2)] by auto
  let ?F = "\<lambda>S sp. \<lparr>whole = S, rcv_at = rp, seq_at = sp, holder = h\<rparr>"
  have st: "thread_step L cl D (?F S (SPop pc)) (?F (S\<lparr>seq_queue := s1\<rparr>) (case pc1 of PoDone it \<Rightarrow> SUnlock it | _ \<Rightarrow> SPop pc1))"
    using thread_step.seq_pop [of S "?F S (SPop pc)" pc L pc1 s1 cl D] p(1) Suc.prems(3) by simp
  show ?case
  proof (cases "\<exists>i. pc1 = PoDone i")
    case True
    then have "pc1 = PoDone it" "s1 = s" using p(2) by (auto simp: pop_end)
    then show ?thesis using st by (intro r_into_rtranclp) simp
  next
    case False
    then have "(case pc1 of PoDone it \<Rightarrow> SUnlock it | _ \<Rightarrow> SPop pc1) = SPop pc1" by (cases pc1) simp_all
    with Suc.IH [of pc1 "S\<lparr>seq_queue := s1\<rparr>"] p(2) False Suc.prems(3) st show ?thesis
      by (simp add: converse_rtranclp_into_rtranclp)
  qed
qed simp

lemma receiving_run:
  assumes "rcv_running S" "1 < avail (seq_queue S)" "receiving_iteration L (rcvr S) (seq_queue S) (udp S) = Some (go, r, s, u)"
  shows "(thread_step L cl D)\<^sup>*\<^sup>* (threads_start S) (threads_start (S\<lparr>rcvr := r, rcv_running := go, seq_queue := s, udp := u\<rparr>))"
proof -
  let ?step = "thread_step L cl D"
  obtain it where it: "receive_and_save (rcvr S) (udp S) = Some (go, it, r, u)"
      "(case it of None \<Rightarrow> Some (seq_queue S) | Some x \<Rightarrow> push_item L x (seq_queue S)) = Some s"
    using assms(3) by (auto simp: receiving_split split: bind_splits)
  define F where "F = threads_start S"
  have F: "rcv_at F = RLoop" "S = whole F" "holder F = None" "seq_at F = SLoop" by (simp_all add: F_def threads_start_def)
  note st = thread_step.receive [OF F(2) assms(1) F(1) assms(2) it(1), of L cl D]
  show ?thesis
  proof (cases it)
    case None
    then have "S\<lparr>rcvr := r, rcv_running := go, seq_queue := s, udp := u\<rparr> = S\<lparr>rcvr := r, udp := u, rcv_running := go\<rparr>"
      using it(2) by (cases S) simp
    then show ?thesis using st None by (intro r_into_rtranclp) (simp add: F_def threads_start_def)
  next
    case (Some x)
    have "statements (push_statement L x) 8 PuNew (seq_queue S) = Some (PuDone, s)"
      using it(2) Some push_by_statements [of L x "seq_queue S"] by (fastforce split: bind_splits)
    define S1 where "S1 = S\<lparr>rcvr := r, udp := u\<rparr>"
    have r1: "rcv_running S1" "seq_queue S1 = seq_queue S" using assms(1) by (simp_all add: S1_def)
    let ?F = "\<lambda>S pc h. \<lparr>whole = S, rcv_at = pc, seq_at = SLoop, holder = h\<rparr>"
    have S1: "S\<lparr>rcvr := r, udp := u, rcv_running := True\<rparr> = S1" using assms(1) by (cases S) (simp add: S1_def)
    have "?step F (?F S1 (RLock x go) None)"
      using st Some S1 by (simp add: F_def threads_start_def)
    also have "?step\<^sup>*\<^sup>* \<dots> (?F S1 (RPush x PuNew go) (Some Receiving))"
      using thread_step.rcv_lock [of S1 "?F S1 (RLock x go) None"] r1 by (intro r_into_rtranclp) simp
    also have "?step\<^sup>*\<^sup>* \<dots> (?F (S1\<lparr>seq_queue := s\<rparr>) (RUnlock go) (Some Receiving))"
      by (rule push_run [of _ _ 8]) (simp_all add: r1 \<open>statements _ 8 _ _ = _\<close>)
    also have "?step\<^sup>*\<^sup>* \<dots> (?F (S1\<lparr>seq_queue := s, rcv_running := go\<rparr>) RLoop None)"
      using thread_step.rcv_unlock [of "S1\<lparr>seq_queue := s\<rparr>" "?F (S1\<lparr>seq_queue := s\<rparr>) (RUnlock go) (Some Receiving)"] r1
      by (intro r_into_rtranclp) simp
    also have "S1\<lparr>seq_queue := s, rcv_running := go\<rparr> = S\<lparr>rcvr := r, rcv_running := go, seq_queue := s, udp := u\<rparr>"
      by (cases S) (simp add: S1_def)
    finally show ?thesis by (simp add: F_def threads_start_def)
  qed
qed

lemma sequencing_run:
  assumes "seq_running S" "1 < avail (seq_memory (seqr S))"
    and "sequencing_iteration L (Some cl) (seqr S) (seq_queue S) (tcp S) = Some (False, t, s, k)"
  shows "(thread_step L cl D)\<^sup>*\<^sup>* (threads_start S) (threads_start (S\<lparr>seq_queue := s, seqr := t, tcp := k\<rparr>))"
proof -
  let ?step = "thread_step L cl D" and ?F = "\<lambda>S pc h. \<lparr>whole = S, rcv_at = RLoop, seq_at = pc, holder = h\<rparr>"
  obtain m it where m: "sequencer_complete (seq_memory (seqr S)) (the_sequencer (seqr S)) = Some (False, m)"
      "sequencing_queue_pop L (seq_queue S) = Some (it, s)"
      "(case it of None \<Rightarrow> Some (False, (seqr S)\<lparr>seq_memory := m\<rparr>, s, tcp S)
       | Some i \<Rightarrow> do { (t, k) \<leftarrow> serve_item (Some cl) i ((seqr S)\<lparr>seq_memory := m\<rparr>) (tcp S); Some (False, t, s, k) }) = Some (False, t, s, k)"
    using assms(3) by (auto simp: sequencing_split split: bind_splits if_splits option.splits)
  define S1 where "S1 = S\<lparr>seqr := (seqr S)\<lparr>seq_memory := m\<rparr>\<rparr>"
  have S1: "seq_running S1" "seq_queue S1 = seq_queue S" "seqr S1 = (seqr S)\<lparr>seq_memory := m\<rparr>" "tcp S1 = tcp S"
    using assms(1) by (simp_all add: S1_def)
  have pop: "statements (pop_statement L) 9 PoTest (seq_queue S1) = Some (PoDone it, s)"
    using m(2) S1(2) by (auto simp: pop_by_statements split: bind_splits pop_at.splits)
  have "?step\<^sup>*\<^sup>* (threads_start S) (?F S1 SLock None)"
    using thread_step.seq_check [of S "threads_start S" m L cl D] assms(1,2) m(1)
    by (intro r_into_rtranclp) (simp add: threads_start_def S1_def)
  also have "?step\<^sup>*\<^sup>* \<dots> (?F S1 (SPop PoTest) (Some Sequencing))"
    using thread_step.seq_lock [of S1 "?F S1 SLock None"] S1 by (intro r_into_rtranclp) simp
  also have "?step\<^sup>*\<^sup>* \<dots> (?F (S1\<lparr>seq_queue := s\<rparr>) (SUnlock it) (Some Sequencing))"
    by (rule pop_run [OF pop _ S1(1)]) simp
  also have "?step\<^sup>*\<^sup>* \<dots> (?F (S1\<lparr>seq_queue := s\<rparr>) (case it of None \<Rightarrow> SLoop | Some x \<Rightarrow> SServe x) None)"
    using thread_step.seq_unlock [of "S1\<lparr>seq_queue := s\<rparr>" "?F (S1\<lparr>seq_queue := s\<rparr>) (SUnlock it) (Some Sequencing)"] S1
    by (intro r_into_rtranclp) simp
  also have "?step\<^sup>*\<^sup>* \<dots> (?F (S\<lparr>seq_queue := s, seqr := t, tcp := k\<rparr>) SLoop None)"
  proof (cases it)
    case None
    then have "S1\<lparr>seq_queue := s\<rparr> = S\<lparr>seq_queue := s, seqr := t, tcp := k\<rparr>" using m(3) by (cases S) (simp add: S1_def)
    then show ?thesis using None by simp
  next
    case (Some x)
    then have "serve_item (Some cl) x (seqr S1) (tcp S1) = Some (t, k)" using m(3) S1 by (auto split: bind_splits)
    then show ?thesis
      using thread_step.seq_serve [of "S1\<lparr>seq_queue := s\<rparr>" "?F (S1\<lparr>seq_queue := s\<rparr>) (SServe x) None" x cl t k L D] S1 Some
      by (intro r_into_rtranclp) (simp add: S1_def)
  qed
  finally show ?thesis by (simp add: threads_start_def)
qed

lemma coarse_run:
  assumes "(server_step L cl (part_datagrams b))\<^sup>*\<^sup>* S0 S" "server_start b L cl S0"
  shows "(thread_step L cl (part_datagrams b))\<^sup>*\<^sup>* (threads_start S0) (threads_start S)"
  using assms(1)
proof (induction rule: rtranclp_induct)
  case (step S S')
  obtain I ms n where v: "server_inv b L cl I ms n S" using server_reachable_inv [OF step(1) assms(2)] by blast
  from step(2) have "(thread_step L cl (part_datagrams b))\<^sup>*\<^sup>* (threads_start S) (threads_start S')"
  proof (cases rule: server_step.cases)
    case (arrive p)
    then show ?thesis using thread_step.arrive [of S "threads_start S" p] by (intro r_into_rtranclp) (simp add: threads_start_def)
  next
    case (receive go r s u)
    then show ?thesis using receiving_run by simp
  next
    case (sequence t s k)
    then show ?thesis using sequencing_run by simp
  next
    case (finish t s k m k')
    then show ?thesis using server_sequence_item [OF v finish(3)] by auto
  qed
  then show ?case using step.IH by (rule rtranclp_trans [rotated])
qed simp

subsection \<open>Properties\<close>

text \<open>C5: the mutex makes the iterations of the two threads atomic: the states with both threads at the head of their loops
  that the threads reach, interleaving between any two statements of a push and a pop, those of the list operations inside them
  included, are exactly those that they reach when each iteration is one step.\<close>

theorem mutex_makes_iterations_atomic:
  assumes "server_start b L cl S0"
  shows "(thread_step L cl (part_datagrams b))\<^sup>*\<^sup>* (threads_start S0) (threads_start S)
    \<longleftrightarrow> (server_step L cl (part_datagrams b))\<^sup>*\<^sup>* S0 S"
proof
  assume "(thread_step L cl (part_datagrams b))\<^sup>*\<^sup>* (threads_start S0) (threads_start S)"
  from threads_simulate [OF this assms] obtain S' I ms n where S': "(server_step L cl (part_datagrams b))\<^sup>*\<^sup>* S0 S'"
      "agrees L cl (threads_start S) S'" "server_inv b L cl I ms n S'" by blast
  then have "S' = S" by (cases S; cases S') (simp add: agrees_def threads_start_def server_inv_def)
  with S'(1) show "(server_step L cl (part_datagrams b))\<^sup>*\<^sup>* S0 S" by simp
qed (rule coarse_run [OF _ assms])

theorem mutex_makes_iterations_atomic_witness:
  "\<exists>S. (thread_step 1 example_client (part_datagrams [7, 8]))\<^sup>*\<^sup>* (threads_start (example_server_state [7, 8])) (threads_start S)
    \<and> acked (outgoing (tcp S) (client_sd example_client)) 0"
proof -
  have st: "server_start [7, 8] 1 example_client (example_server_state [7, 8])" by (rule example_server_start) simp
  have pc: "packet_count [7, 8] = 1" by (simp add: packet_count_def UDP_PACKET_DATA_SIZE_val)
  obtain S ms where S: "(server_step 1 example_client (part_datagrams [7, 8]))\<^sup>*\<^sup>* (example_server_state [7, 8]) S"
      "server_inv [7, 8] 1 example_client {0} ms [] S"
    using server_serves_all [OF server_start_inv [OF st] _ order_refl, of "[0]"] pc
    by (auto simp: example_server_state_def empty_queue_def part_datagrams_def)
  have "acked (outgoing (tcp S) (client_sd example_client)) 0" by (rule server_inv_idle_acked [OF S(2)]) simp
  with mutex_makes_iterations_atomic [OF st] S(1) show ?thesis by blast
qed

text \<open>C18: in every state that the threads reach, at whatever point of their iterations they are: only one of them is
  between lock and unlock, and it can go on, so no access to the queue faults; while the sequencing thread's memory lasts some
  thread can go on without a new datagram, so they never wait for each other for ever; and a packet is acknowledged only if its bytes are
  in the file.\<close>

theorem server_threads_safe:
  assumes "server_start b L cl S0" "(thread_step L cl (part_datagrams b))\<^sup>*\<^sup>* (threads_start S0) F"
  shows "\<not> (rcv_inside (rcv_at F) \<and> seq_inside (seq_at F))
    \<and> (rcv_inside (rcv_at F) \<longrightarrow> (\<exists>F'. thread_step L cl {} F F' \<and> rcv_at F' \<noteq> rcv_at F))
    \<and> (seq_inside (seq_at F) \<longrightarrow> (\<exists>F'. thread_step L cl {} F F' \<and> seq_at F' \<noteq> seq_at F))
    \<and> (1 < avail (seq_memory (seqr (whole F))) \<longrightarrow> (\<exists>F'. thread_step L cl {} F F'))
    \<and> (\<exists>c I. ready (recv_handle (rcvr (whole F))) (length b) c \<and> written b I c
      \<and> (\<forall>i < packet_count b. acked (outgoing (tcp (whole F)) (client_sd cl)) i \<longrightarrow> i \<in> I))"
proof -
  obtain S I ms n where S: "agrees L cl F S" "server_inv b L cl I ms n S" using threads_simulate [OF assms(2,1)] by blast
  have ag: "mutex_inv F" "rcv_agrees (rcv_at F) (whole F) S" "seq_agrees cl (seq_at F) (whole F) S"
    using S(1) by (simp_all add: agrees_def)
  have v: "length b < 2 ^ 32" "I \<subseteq> {0..<packet_count b}" "sent_inv cl I ms (tcp S)" using S(2) by (simp_all add: server_inv_def)
  obtain I' c where c: "I \<subseteq> I'" "ready (recv_handle (rcvr (whole F))) (length b) c" "written b I' c"
    using agrees_file [OF S(2) ag(2)] unfolding file_inv_def by blast
  have "i \<in> I'" if "i < packet_count b" "acked (outgoing (tcp (whole F)) (client_sd cl)) i" for i
    using sent_inv_acked(2) [OF v(3,2,1) that(1)] agrees_acked [OF ag(3) that(2)] c(1) by blast
  then have saved: "\<exists>c I. ready (recv_handle (rcvr (whole F))) (length b) c \<and> written b I c
      \<and> (\<forall>i < packet_count b. acked (outgoing (tcp (whole F)) (client_sd cl)) i \<longrightarrow> i \<in> I)" using c(2,3) by blast
  have one: "\<not> (rcv_inside (rcv_at F) \<and> seq_inside (seq_at F))" using ag(1) by (auto simp: mutex_inv_def)
  have "seq_at F \<noteq> SLoop" if "seq_inside (seq_at F)" using that by auto
  then have sq: "seq_inside (seq_at F) \<longrightarrow> (\<exists>F'. thread_step L cl {} F F' \<and> seq_at F' \<noteq> seq_at F)"
    using threads_move [OF S(2,1)] by blast
  have any: "1 < avail (seq_memory (seqr (whole F))) \<longrightarrow> (\<exists>F'. thread_step L cl {} F F')"
    using threads_move [OF S(2,1)] by blast
  show ?thesis using one receiving_moves [OF S(1)] sq any saved by blast
qed

text \<open>Threads that have served the only packet of a part.\<close>

theorem server_threads_safe_witness:
  "\<exists>F c I. (thread_step 1 example_client (part_datagrams [7, 8]))\<^sup>*\<^sup>* (threads_start (example_server_state [7, 8])) F
    \<and> acked (outgoing (tcp (whole F)) (client_sd example_client)) 0
    \<and> ready (recv_handle (rcvr (whole F))) (length [7 :: u8, 8]) c \<and> written [7, 8] I c \<and> 0 \<in> I"
proof -
  have st: "server_start [7, 8] 1 example_client (example_server_state [7, 8])" by (rule example_server_start) simp
  have pc: "packet_count [7, 8] = 1" by (simp add: packet_count_def UDP_PACKET_DATA_SIZE_val)
  obtain S ms where S: "(server_step 1 example_client (part_datagrams [7, 8]))\<^sup>*\<^sup>* (example_server_state [7, 8]) S"
      "server_inv [7, 8] 1 example_client {0} ms [] S"
    using server_serves_all [OF server_start_inv [OF st] _ order_refl, of "[0]"] pc
    by (auto simp: example_server_state_def empty_queue_def part_datagrams_def)
  let ?F = "threads_start S"
  have r: "(thread_step 1 example_client (part_datagrams [7, 8]))\<^sup>*\<^sup>* (threads_start (example_server_state [7, 8])) ?F"
    by (rule coarse_run [OF S(1) st])
  have a: "acked (outgoing (tcp (whole ?F)) (client_sd example_client)) 0"
    using server_inv_idle_acked [OF S(2), of 0] by (simp add: threads_start_def)
  obtain c I where c: "ready (recv_handle (rcvr (whole ?F))) (length [7 :: u8, 8]) c" "written [7, 8] I c"
      "\<forall>i < packet_count [7, 8]. acked (outgoing (tcp (whole ?F)) (client_sd example_client)) i \<longrightarrow> i \<in> I"
    using server_threads_safe [OF st r] by blast
  have "0 \<in> I" using c(3) a pc by simp
  with r a c(1,2) show ?thesis by blast
qed

end
