(* ===== verification/Spec2Isabelle.thy ===== *)
theory Spec2Isabelle
  imports Session Client_Threads Server_Threads List_Race Control_Stream
begin

text \<open>
  UCP is a file copy program: a client (\<open>src/ucp_client.c\<close>) splits a file into parts and sends each part in UDP
  datagrams; a server (\<open>src/ucp_server.c\<close>) writes them into a file and answers over TCP with ACK and NACK control packets. This
  library models the program and proves what each component does, and what the two programs do together.

  \<^bold>\<open>The parts of the program and the theories.\<close>

  \<^item> \<open>UCP_Prelude\<close>: fixed-width types, reads and writes of byte arrays with bounds (\<open>get_bytes\<close>, \<open>put_bytes\<close>), the
    constants of \<open>defines.h\<close>.
  \<^item> \<open>Linked_List\<close>: \<open>linked_list.c\<close>. The heap is a partial map from addresses to elements (\<open>mem\<close>), extended by each client with
    its own objects; \<open>dll\<close> says that an anchor and a list of addresses form a ring, and every operation is related to the
    operation on that list. \<open>brk\<close> and \<open>avail\<close> are the allocator: addresses are never reused, and \<open>malloc\<close>
    fails when \<open>avail\<close> is 0.
  \<^item> \<open>Ucp_Packet\<close>: \<open>ucp_packet.c\<close>. The constructors, encoders and decoders on byte lists; \<open>data_wire\<close>, \<open>ctrl_wire\<close> and
    \<open>meta_wire\<close> are the wire formats, and the locale \<open>packet_codec\<close>, interpreted for each of the three, is the contract of an
    encoder and a decoder.
  \<^item> \<open>Ranges\<close> and \<open>Sequencer\<close>: \<open>sequencer.c\<close>. The code on memory (\<open>sequencer_add\<close>, ...) refines operations on lists
    of ranges (\<open>ranges_add\<close>, ...), which refine operations on sets of 32-bit numbers (\<open>seqs\<close>).
  \<^item> \<open>File_IO\<close>: \<open>file_io.c\<close>. A stream is its bytes, position, end-of-file flag and what the disk refuses: it takes \<open>capacity\<close>
    bytes, and the stream's buffer \<open>slack\<close> bytes more, which \<open>fflush\<close> and \<open>fseek\<close> then fail to write. The shell
    commands run by \<open>popen\<close> (split, cat) are a parameter.
  \<^item> \<open>Tcp_Socket\<close> and \<open>Udp_Socket\<close>: \<open>tcp_socket.c\<close>, \<open>udp_socket.c\<close>. The kernel is a record of its answers
    (\<open>net_alloc\<close>: whether the allocations of an endpoint and of a control packet succeed), its open
    descriptors and the bytes that wait on each of them. A result \<open>None\<close> is a fault or a call that blocks for ever.
  \<^item> \<open>Ucp_Server\<close>: the queue between the threads (locale \<open>fifo\<close>, interpreted on \<open>sequencing_queue_push\<close> and
    \<open>sequencing_queue_pop\<close>), one iteration of each thread (\<open>receiving_iteration\<close>, \<open>sequencing_iteration\<close>), \<open>main\<close>
    (\<open>server_setup\<close>, \<open>server_main\<close>), and the step relation \<open>server_step\<close> that interleaves the threads and the network.
  \<^item> \<open>Server_Threads\<close>: the two threads with every statement of a push (\<open>push_statement\<close>) and a pop (\<open>pop_statement\<close>) a step
    of its own, the mutex (\<open>thread_step\<close>), and the proof that whole iterations lose no behaviour.
  \<^item> \<open>Ucp_Client\<close>, \<open>Client_Loop\<close>, \<open>Client_Main\<close>: the packet lists, \<open>get_next_packet\<close>, \<open>on_ack_received\<close>, one iteration of
    \<open>block_thread\<close> (\<open>block_iteration\<close>) with its start (\<open>block_open\<close>, \<open>block_announce\<close>, \<open>block_setup\<close>), what the callback takes
    from a segment (\<open>heard\<close>), \<open>main\<close> and the statistics. The state refines a \<open>window\<close>:
    the number of packets read, the pending packets and those in flight.
  \<^item> \<open>Transfer_System\<close>: the client's loop, the server and the network as one step relation in which TCP hands over whole control
    packets (\<open>system_step\<close>), and its invariant (\<open>system_inv\<close>). \<open>File_Transfer\<close>: how runs of that system come to their end.
  \<^item> \<open>Control_Stream\<close>: the same system with the control connection as a stream of bytes that TCP cuts anywhere
    (\<open>stream_step\<close>), its invariant (\<open>stream_inv\<close>), and the properties of a whole transfer. \<open>Session\<close>: how a
    transfer begins, and the two programs from their command lines to the copy.
  \<^item> \<open>Client_Threads\<close>: the ten threads of the client on the lists they share, as steps of whole iterations (\<open>process_step\<close>), and
    the invariant of the shared window (\<open>process_inv\<close>). \<open>List_Race\<close>: two appends to one list, statement by statement.

  \<^bold>\<open>What the theorems show.\<close> In every interleaving, with datagrams lost, repeated and reordered and the control stream cut
  anywhere, a client that stops without having heard a FIN has lost nothing: the server's file is the part
  (\<open>transfer_safe_any_cut\<close>). From every reachable state in which the client has read what has arrived there is a run to that end
  (\<open>transfer_never_stuck\<close>). But a cut ACK can be heard as a FIN, and then data is missing
  (\<open>cut_ack_ends_transfer\<close>). From the two command lines on, what such a run copies is the first of the ten parts
  (\<open>program_copies_first_part\<close>), because only the first thread has a destination (\<open>client_main_correct\<close>). The mutex of
  the server makes whole iterations of its threads as good as their single statements (\<open>mutex_makes_iterations_atomic\<close>,
  \<open>server_threads_safe\<close>); the client's threads share one window (\<open>threads_share_window\<close>).

  Below that, each component's operations implement their abstract counterparts on every branch, loops end, decoders invert
  encoders and give packets of their type (\<open>packets_well_typed\<close>). The errors of the code are stated as they are: threads
  send each other's packets (\<open>threads_send_each_others_packets\<close>), two appends without a lock can lose an element
  (\<open>unlocked_append_loses_element\<close>), a stray datagram acknowledges a packet again (\<open>stray_datagram_repeats_packet\<close>), no FIN
  is ever sent while the disk takes every write (\<open>server_never_finishes\<close>), and one is sent after a save that fails
  (\<open>failed_save_finishes_transfer\<close>), a device that is too small can go unnoticed until the next save
  (\<open>file_io_open_file_of_size_correct\<close>), lengths on the wire are trusted (\<open>ucp_packet_decode_overflow_iff\<close>), a failed read is taken for data (\<open>tcp_failed_read_taken_for_data\<close>), sequence numbers
  wrap (\<open>sequencer_add_wraps\<close>).

  \<^bold>\<open>Bounds.\<close> Loops whose end depends on memory are \<open>partial_function (option)\<close> and are proved to return; no fuel is used.
  Every theorem on memory has an explicit bound on \<open>avail\<close>: an iteration of the client takes three
  objects at most, one of the server's threads two. A part is shorter than \<open>2 ^ 32\<close> bytes, the range of \<open>part_size\<close>; where
  the control stream is cut anywhere, it has at most \<open>2 ^ 16\<close> packets (about 600 MB), so that what is heard inside a packet names no
  packet of the part.

  \<^bold>\<open>Assumptions of the system.\<close> The client's ten threads share its lists and flags without a lock. The systems of
  \<open>Transfer_System\<close> and \<open>Control_Stream\<close> run one of them, which is also all that a run of the program can use, since only one thread
  has a destination; \<open>Client_Threads\<close> runs any number, one iteration at a time; \<open>List_Race\<close> shows what a race inside an iteration
  can do to a list. The server's threads are whole iterations too, which \<open>Server_Threads\<close> proves to lose no behaviour. The disk of
  the server takes every write (a condition of \<open>server_start\<close>; \<open>failed_save_finishes_transfer\<close> is about one that does not), its
  allocations for control packets succeed, and connections stay up. The UDP network
  delivers only what the client sent, and late metadata packets. TCP delivers the control stream in order, cut anywhere; only
  the auxiliary system of \<open>Transfer_System\<close> has whole control packets. The uninitialised local of the callback is assumed not to
  hold a control packet.

  \<^bold>\<open>Not modelled.\<close> Output to the terminal and the floating-point transfer rate; \<open>pthread\<close> creation, joining and cancellation; the
  socket options and addresses that only the kernel reads; \<open>free\<close> of packets and addresses (what is freed is never used again,
  except the server pointer of \<open>tcp_server_start\<close>, which is modelled). The members of the union in \<open>ucp_packet_t\<close> are three fields
  side by side: the program reads a member only after a test of the packet's type, and of the segment only the bytes that the decoder
  has written, so what a write to one member does to the bytes of another is never seen. \<open>strtok\<close> on the destination is the library function on the first two of its tokens. The file \<open>ucp_server.c\<close> does not compile as it is,
  because four functions are defined twice; the model takes the first definitions, whose types fit their uses, and
  gives the second the names \<open>send_ctrl_packet_udp\<close>, \<open>send_ack_udp\<close>, \<open>send_nack_udp\<close> and \<open>send_fin_udp\<close>.
\<close>

end
